(* ===== verification/Prelude.thy ===== *)
theory Prelude
  imports Main "HOL-Library.Word"
begin

text \<open>
  What every component shares: the faults a C++ operation can end in, the sequencing of
  operations that can fault, \<open>size_t\<close> and \<open>uint64_t\<close> as naturals with the wrap-around of
  64-bit arithmetic written out, byte strings, and the generic locales of state machines that
  never fault and of simulations.
\<close>

section \<open>Faults and sequencing\<close>

text \<open>
  A failed \<open>assert\<close>, a division by zero, a \<open>memcpy\<close> outside its block, a thrown exception (a failed
  system call throws one with its \<open>errno\<close>), and an access to an empty \<open>std::queue\<close> or to an empty \<open>std::optional\<close> are values.
  The library is modelled with assertions enabled; where no \<open>AssertionFailed\<close> can
  result, a build without assertions computes the same.
\<close>

datatype fault =
    AssertionFailed
  | DivisionByZero
  | OutOfBounds
  | EmptyQueue
  | BadOptionalAccess
  | LengthError
  | RuntimeError string
  | UnixError string int

type_synonym 'a result = "fault + 'a"

fun and_then :: "'a result \<Rightarrow> ('a \<Rightarrow> 'b result) \<Rightarrow> 'b result" where
  "and_then (Inl e) f = Inl e"
| "and_then (Inr x) f = f x"

definition assert_that :: "bool \<Rightarrow> 'a result \<Rightarrow> 'a result" where
  "assert_that b r = (if b then r else Inl AssertionFailed)"

lemma assert_that_True [simp]: "b \<Longrightarrow> assert_that b r = r"
  by (simp add: assert_that_def)

lemma assert_that_Inr_iff [simp]: "assert_that b r = Inr x \<longleftrightarrow> b \<and> r = Inr x"
  by (simp add: assert_that_def)

lemma and_then_Inr_iff: "and_then r f = Inr y \<longleftrightarrow> (\<exists>x. r = Inr x \<and> f x = Inr y)"
  by (cases r) auto

lemma and_then_cong [fundef_cong]:
  "r = r' \<Longrightarrow> (\<And>x. r' = Inr x \<Longrightarrow> f x = g x) \<Longrightarrow> and_then r f = and_then r' g"
  by (cases r') auto

lemma assert_that_cong [fundef_cong]:
  "b = b' \<Longrightarrow> (b' \<Longrightarrow> r = r') \<Longrightarrow> assert_that b r = assert_that b' r'"
  by (simp add: assert_that_def)

text \<open>
  \<open>yields r P\<close>: the operation does not fault and its result satisfies \<open>P\<close>. Sequences of operations
  are taken apart with \<open>yields_and_then\<close>.
\<close>

definition yields :: "'a result \<Rightarrow> ('a \<Rightarrow> bool) \<Rightarrow> bool" where
  "yields r P \<longleftrightarrow> (\<exists>x. r = Inr x \<and> P x)"

lemma yields_Inr [simp]: "yields (Inr x) P \<longleftrightarrow> P x"
  by (simp add: yields_def)

lemma yields_Inl [simp]: "\<not> yields (Inl e) P"
  by (simp add: yields_def)

lemma yields_assert [simp]: "yields (assert_that b r) P \<longleftrightarrow> b \<and> yields r P"
  by (simp add: assert_that_def)

lemma yields_and_then:
  "yields r P \<Longrightarrow> (\<And>x. P x \<Longrightarrow> yields (f x) Q) \<Longrightarrow> yields (and_then r f) Q"
  by (auto simp: yields_def)

lemma yields_mono: "yields r P \<Longrightarrow> (\<And>x. P x \<Longrightarrow> Q x) \<Longrightarrow> yields r Q"
  by (auto simp: yields_def)

lemma yields_if_else: "(b \<Longrightarrow> yields r P) \<Longrightarrow> (\<not> b \<Longrightarrow> yields r' P) \<Longrightarrow> yields (if b then r else r') P"
  by simp

lemma yields_cases:
  assumes "yields r P"
  obtains x where "r = Inr x" "P x"
  using assms by (auto simp: yields_def)

text \<open>
  Congruence rules for evaluating an operation on a concrete state: the first operation is
  evaluated before the simplifier looks at what follows it.
\<close>

lemma and_then_weak_cong: "r = r' \<Longrightarrow> and_then r f = and_then r' f"
  by simp

lemma assert_that_weak_cong: "b = b' \<Longrightarrow> assert_that b r = assert_that b' r"
  by simp

lemmas eval_cong = and_then_weak_cong assert_that_weak_cong let_weak_cong

section \<open>64-bit unsigned arithmetic\<close>

text \<open>
  \<open>size_t\<close> and \<open>uint64_t\<close> values are naturals below \<open>2 ^ 64\<close>; addition and subtraction wrap.
\<close>

type_synonym size_t = nat

abbreviation two64 :: nat where
  "two64 \<equiv> 18446744073709551616"

abbreviation two63 :: nat where
  "two63 \<equiv> 9223372036854775808"

abbreviation two32 :: nat where
  "two32 \<equiv> 4294967296"

abbreviation two31 :: nat where
  "two31 \<equiv> 2147483648"

definition add64 :: "size_t \<Rightarrow> size_t \<Rightarrow> size_t" where
  "add64 a b = (a + b) mod two64"

definition sub64 :: "size_t \<Rightarrow> size_t \<Rightarrow> size_t" where
  "sub64 a b = (two64 + a - b) mod two64"

lemma add64_no_wrap [simp]: "a + b < two64 \<Longrightarrow> add64 a b = a + b"
  by (simp add: add64_def)

lemma sub64_no_wrap [simp]: "b \<le> a \<Longrightarrow> a < two64 \<Longrightarrow> sub64 a b = a - b"
proof -
  assume *: "b \<le> a" "a < two64"
  then have "two64 + a - b = (a - b) + two64" by linarith
  moreover have "a - b < two64" using * by linarith
  ultimately show ?thesis unfolding sub64_def by (simp only: mod_add_self2 mod_less)
qed

lemma sub64_wrap: "a < b \<Longrightarrow> b \<le> two64 \<Longrightarrow> sub64 a b = two64 + a - b"
  unfolding sub64_def by (rule mod_less) linarith

lemma add64_less [simp]: "add64 a b < two64"
  by (simp add: add64_def)

lemma sub64_less [simp]: "sub64 a b < two64"
  by (simp add: sub64_def)

lemma add64_zero [simp]: "a < two64 \<Longrightarrow> add64 a 0 = a" "a < two64 \<Longrightarrow> add64 0 a = a"
  by (simp_all add: add64_def)

lemma add64_assoc: "add64 (add64 a b) c = add64 a (add64 b c)"
  unfolding add64_def by (simp only: mod_add_left_eq mod_add_right_eq add.assoc)

lemma add64_commute: "add64 a b = add64 b a"
  by (simp add: add64_def add.commute)

lemma add64_nat_assoc: "add64 (add64 a b) c = add64 a (b + c)"
  unfolding add64_def by (simp only: mod_add_left_eq add.assoc)

lemma add64_sub64:
  assumes "b \<le> a + c" "b \<le> two64" "a + c - b < two64"
  shows "add64 (sub64 a b) c = a + c - b"
proof -
  have "add64 (sub64 a b) c = (two64 + a - b + c) mod two64"
    unfolding add64_def sub64_def by (simp only: mod_add_left_eq)
  also have "two64 + a - b + c = (a + c - b) + two64" using assms(1,2) by linarith
  finally show ?thesis using assms(3) by (simp only: mod_add_self2 mod_less)
qed

section \<open>Byte strings\<close>

type_synonym byte = "8 word"
type_synonym bytes = "byte list"

text \<open>\<open>std::string::substr(pos, n)\<close>; \<open>pos\<close> past the end throws \<open>std::out_of_range\<close>.\<close>

definition substr :: "bytes \<Rightarrow> size_t \<Rightarrow> size_t \<Rightarrow> bytes result" where
  "substr d pos n = (if pos \<le> length d then Inr (take n (drop pos d)) else Inl OutOfBounds)"

lemma substr_ok [simp]: "pos \<le> length d \<Longrightarrow> substr d pos n = Inr (take n (drop pos d))"
  by (simp add: substr_def)

section \<open>State machines\<close>

text \<open>
  A component is a step function over its events. \<open>run\<close> executes a sequence of events and stops
  at the first fault. \<open>admissible\<close> says which events the component's callers may issue in a
  state; under the locale's law a run of admissible events never faults.
\<close>

fun run :: "('s \<Rightarrow> 'e \<Rightarrow> ('o \<times> 's) result) \<Rightarrow> 's \<Rightarrow> 'e list \<Rightarrow> ('o list \<times> 's) result" where
  "run step s [] = Inr ([], s)"
| "run step s (e # es) =
     and_then (step s e) (\<lambda>(out, s').
       and_then (run step s' es) (\<lambda>(outs, s''). Inr (out # outs, s'')))"

text \<open>An event sequence every event of which is admissible in the state it meets.\<close>

fun admissible_run ::
  "('s \<Rightarrow> 'e \<Rightarrow> ('o \<times> 's) result) \<Rightarrow> ('s \<Rightarrow> 'e \<Rightarrow> bool) \<Rightarrow> 's \<Rightarrow> 'e list \<Rightarrow> bool" where
  "admissible_run step ok s [] = True"
| "admissible_run step ok s (e # es) =
     (ok s e \<and> (case step s e of Inl _ \<Rightarrow> True | Inr (out, s') \<Rightarrow> admissible_run step ok s' es))"

locale safe_machine =
  fixes step :: "'s \<Rightarrow> 'e \<Rightarrow> ('o \<times> 's) result"
    and inv :: "'s \<Rightarrow> bool"
    and admissible :: "'s \<Rightarrow> 'e \<Rightarrow> bool"
  assumes step_safe: "inv s \<Longrightarrow> admissible s e \<Longrightarrow> \<exists>out s'. step s e = Inr (out, s') \<and> inv s'"
begin

lemma run_safe:
  "inv s \<Longrightarrow> admissible_run step admissible s es \<Longrightarrow> \<exists>outs s'. run step s es = Inr (outs, s') \<and> inv s'"
proof (induction es arbitrary: s)
  case Nil
  then show ?case by simp
next
  case (Cons e es)
  then obtain out s' where st: "step s e = Inr (out, s')" and "inv s'"
    using step_safe [of s e] by auto
  from Cons.prems(2) st have "admissible_run step admissible s' es" by simp
  with \<open>inv s'\<close> obtain outs s'' where "run step s' es = Inr (outs, s'')" "inv s''"
    using Cons.IH by blast
  with st show ?case by simp
qed

lemma run_inv:
  "inv s \<Longrightarrow> admissible_run step admissible s es \<Longrightarrow> run step s es = Inr (outs, s') \<Longrightarrow> inv s'"
  by (drule (1) run_safe) auto

end

text \<open>
  A functional refinement: each step of the component is, through \<open>abs\<close>, the step of an abstract
  machine that cannot fault, with the same output.
\<close>

fun arun :: "('a \<Rightarrow> 'e \<Rightarrow> 'o \<times> 'a) \<Rightarrow> 'a \<Rightarrow> 'e list \<Rightarrow> 'o list \<times> 'a" where
  "arun astep a [] = ([], a)"
| "arun astep a (e # es) =
     (case astep a e of (out, a') \<Rightarrow> (case arun astep a' es of (outs, a'') \<Rightarrow> (out # outs, a'')))"

fun aok_run :: "('a \<Rightarrow> 'e \<Rightarrow> 'o \<times> 'a) \<Rightarrow> ('a \<Rightarrow> 'e \<Rightarrow> bool) \<Rightarrow> 'a \<Rightarrow> 'e list \<Rightarrow> bool" where
  "aok_run astep aok a [] = True"
| "aok_run astep aok a (e # es) = (aok a e \<and> aok_run astep aok (snd (astep a e)) es)"

locale simulation =
  fixes step :: "'s \<Rightarrow> 'e \<Rightarrow> ('o \<times> 's) result"
    and inv :: "'s \<Rightarrow> bool"
    and abs :: "'s \<Rightarrow> 'a"
    and astep :: "'a \<Rightarrow> 'e \<Rightarrow> 'o \<times> 'a"
    and aok :: "'a \<Rightarrow> 'e \<Rightarrow> bool"
  assumes sim_step: "inv s \<Longrightarrow> aok (abs s) e \<Longrightarrow>
    \<exists>out s'. step s e = Inr (out, s') \<and> inv s' \<and> astep (abs s) e = (out, abs s')"
begin

lemma sim_run:
  "inv s \<Longrightarrow> aok_run astep aok (abs s) es \<Longrightarrow>
   \<exists>outs s'. run step s es = Inr (outs, s') \<and> inv s' \<and> arun astep (abs s) es = (outs, abs s')"
proof (induction es arbitrary: s)
  case Nil
  then show ?case by simp
next
  case (Cons e es)
  then obtain out s' where st: "step s e = Inr (out, s')" and i: "inv s'"
    and a: "astep (abs s) e = (out, abs s')"
    using sim_step [of s e] by auto
  from Cons.prems(2) a have "aok_run astep aok (abs s') es" by simp
  with i obtain outs s'' where "run step s' es = Inr (outs, s'')" "inv s''"
    "arun astep (abs s') es = (outs, abs s'')"
    using Cons.IH by blast
  with st a show ?case by simp
qed

end

sublocale simulation \<subseteq> safe_machine step inv "\<lambda>s e. aok (abs s) e"
  by unfold_locales (drule (1) sim_step, fast)

end
