(* ===== verification/Ring_Buffer.thy ===== *)
theory Ring_Buffer
  imports Prelude
begin

text \<open>
  The class \<open>RingBuffer\<close> of \<open>src/libsponge/byte_stream.hh\<close> and \<open>src/libsponge/byte_stream.cc\<close>:
  a block of \<open>capacity_\<close> characters with a head, a tail and a flag that tells a full buffer
  from an empty one. Every \<open>memcpy\<close> and \<open>std::copy\<close> checks its block, and every remainder its
  divisor, so a result \<open>Inr\<close> shows that the code stays inside the block. The locale
  \<open>bounded_store\<close> is what \<open>ByteStream\<close> relies on.
\<close>

section \<open>Blocks of memory\<close>

text \<open>\<open>memcpy(block + off, src, src.size())\<close> and \<open>std::copy(block + from, block + to, ...)\<close>.\<close>

definition mem_write :: "bytes \<Rightarrow> size_t \<Rightarrow> bytes \<Rightarrow> bytes result" where
  "mem_write block off src =
     (if off + length src \<le> length block
      then Inr (take off block @ src @ drop (off + length src) block)
      else Inl OutOfBounds)"

definition mem_read :: "bytes \<Rightarrow> size_t \<Rightarrow> size_t \<Rightarrow> bytes result" where
  "mem_read block from to =
     (if from \<le> to \<and> to \<le> length block then Inr (take (to - from) (drop from block))
      else Inl OutOfBounds)"

definition mod64 :: "size_t \<Rightarrow> size_t \<Rightarrow> size_t result" where
  "mod64 a b = (if b = 0 then Inl DivisionByZero else Inr (a mod b))"

section \<open>RingBuffer\<close>

record RingBuffer =
  rb_capacity :: size_t
  rb_head :: size_t
  rb_tail :: size_t
  rb_inner_data :: bytes
  rb_full :: bool

text \<open>
  \<open>RingBuffer()\<close> and \<open>init\<close>. The characters of a fresh block are indeterminate in C++; the model
  takes zeros, and no fact below depends on a character that was not written.
\<close>

definition RingBuffer_default :: RingBuffer where
  "RingBuffer_default =
     \<lparr>rb_capacity = 0, rb_head = 0, rb_tail = 0, rb_inner_data = [], rb_full = False\<rparr>"

definition RingBuffer_init :: "RingBuffer \<Rightarrow> size_t \<Rightarrow> RingBuffer" where
  "RingBuffer_init rb capacity =
     rb\<lparr>rb_capacity := capacity, rb_inner_data := replicate capacity 0\<rparr>"

text \<open>The move constructor: the new buffer, and what is left of the old one.\<close>

definition RingBuffer_move :: "RingBuffer \<Rightarrow> RingBuffer \<times> RingBuffer" where
  "RingBuffer_move that =
     (\<lparr>rb_capacity = rb_capacity that, rb_head = rb_head that, rb_tail = rb_tail that,
       rb_inner_data = rb_inner_data that, rb_full = rb_full that\<rparr>,
      that\<lparr>rb_capacity := 0, rb_head := 0, rb_tail := 0, rb_inner_data := [], rb_full := False\<rparr>)"

definition RingBuffer_size :: "RingBuffer \<Rightarrow> size_t result" where
  "RingBuffer_size rb =
     (if rb_full rb then Inr (rb_capacity rb)
      else mod64 (add64 (sub64 (rb_tail rb) (rb_head rb)) (rb_capacity rb)) (rb_capacity rb))"

definition RingBuffer_remaining_size :: "RingBuffer \<Rightarrow> size_t result" where
  "RingBuffer_remaining_size rb =
     and_then (RingBuffer_size rb) (\<lambda>n. Inr (sub64 (rb_capacity rb) n))"

text \<open>The copying part of \<open>push_back\<close>: one \<open>memcpy\<close>, or two around the end of the block.\<close>

definition RingBuffer_copy_in :: "RingBuffer \<Rightarrow> bytes \<Rightarrow> size_t \<Rightarrow> bytes result" where
  "RingBuffer_copy_in rb data len =
     (if rb_tail rb \<ge> rb_head rb then
        (let tail_remaining_size = sub64 (rb_capacity rb) (rb_tail rb) in
         if tail_remaining_size \<ge> len then
           mem_write (rb_inner_data rb) (rb_tail rb) (take len data)
         else
           and_then (mem_write (rb_inner_data rb) (rb_tail rb) (take tail_remaining_size data)) (\<lambda>block.
           mem_write block 0 (take (sub64 len tail_remaining_size) (drop tail_remaining_size data))))
      else mem_write (rb_inner_data rb) (rb_tail rb) (take len data))"

definition RingBuffer_push_back :: "RingBuffer \<Rightarrow> bytes \<Rightarrow> size_t \<Rightarrow> RingBuffer result" where
  "RingBuffer_push_back rb data len =
     and_then (RingBuffer_remaining_size rb) (\<lambda>remaining.
     assert_that (remaining \<ge> len) (
     assert_that (length data \<ge> len) (
     and_then (RingBuffer_copy_in rb data len) (\<lambda>block.
     and_then (mod64 (add64 (rb_tail rb) len) (rb_capacity rb)) (\<lambda>tail.
     Inr (rb\<lparr>rb_inner_data := block, rb_tail := tail,
             rb_full := (if tail = rb_head rb \<and> len > 0 then True else rb_full rb)\<rparr>))))))"

definition RingBuffer_pop_front :: "RingBuffer \<Rightarrow> size_t \<Rightarrow> RingBuffer result" where
  "RingBuffer_pop_front rb len =
     and_then (RingBuffer_size rb) (\<lambda>n.
     assert_that (n \<ge> len) (
     and_then (mod64 (add64 (rb_head rb) len) (rb_capacity rb)) (\<lambda>head.
     Inr (rb\<lparr>rb_head := head, rb_full := (if len > 0 then False else rb_full rb)\<rparr>))))"

definition RingBuffer_peek_front :: "RingBuffer \<Rightarrow> size_t \<Rightarrow> bytes result" where
  "RingBuffer_peek_front rb len =
     and_then (RingBuffer_size rb) (\<lambda>n.
     assert_that (n \<ge> len) (
     if rb_tail rb \<ge> rb_head rb \<and> \<not> rb_full rb then
       mem_read (rb_inner_data rb) (rb_head rb) (add64 (rb_head rb) len)
     else
       (let head_remaining_size = sub64 (rb_capacity rb) (rb_head rb) in
        if head_remaining_size \<ge> len then
          mem_read (rb_inner_data rb) (rb_head rb) (add64 (rb_head rb) len)
        else
          and_then (mem_read (rb_inner_data rb) (rb_head rb) (rb_capacity rb)) (\<lambda>front.
          and_then (mem_read (rb_inner_data rb) 0 (sub64 len head_remaining_size)) (\<lambda>rest.
          Inr (front @ rest))))))"

section \<open>Invariant and contents\<close>

text \<open>
  The bound on the capacity is the largest array \<open>new char[]\<close> allocates. The contents are the
  characters from the head on, around the end of the block.
\<close>

definition rb_inv :: "RingBuffer \<Rightarrow> bool" where
  "rb_inv rb \<longleftrightarrow> 0 < rb_capacity rb \<and> rb_capacity rb < two63 \<and>
     length (rb_inner_data rb) = rb_capacity rb \<and>
     rb_head rb < rb_capacity rb \<and> rb_tail rb < rb_capacity rb \<and>
     (rb_full rb \<longrightarrow> rb_head rb = rb_tail rb)"

definition rb_count :: "RingBuffer \<Rightarrow> nat" where
  "rb_count rb =
     (if rb_full rb then rb_capacity rb
      else (rb_tail rb + rb_capacity rb - rb_head rb) mod rb_capacity rb)"

definition rb_contents :: "RingBuffer \<Rightarrow> bytes" where
  "rb_contents rb =
     map (\<lambda>i. rb_inner_data rb ! ((rb_head rb + i) mod rb_capacity rb)) [0..<rb_count rb]"

section \<open>Arithmetic around the ring\<close>

lemma mod_once: "x < 2 * c \<Longrightarrow> x mod c = (if x < c then x else x - c)" for c :: nat
  by (simp add: mod_if)

lemma rb_count_eq:
  "rb_inv rb \<Longrightarrow> rb_count rb =
     (if rb_full rb then rb_capacity rb
      else if rb_head rb \<le> rb_tail rb then rb_tail rb - rb_head rb
      else rb_tail rb + rb_capacity rb - rb_head rb)"
  unfolding rb_inv_def rb_count_def by (auto simp: mod_once)

lemma rb_count_le: "rb_inv rb \<Longrightarrow> rb_count rb \<le> rb_capacity rb"
  by (auto simp: rb_count_eq) (auto simp: rb_inv_def)

lemma rb_tail_eq: "rb_inv rb \<Longrightarrow> rb_tail rb = (rb_head rb + rb_count rb) mod rb_capacity rb"
  by (auto simp: rb_count_eq) (auto simp: rb_inv_def mod_once)

lemma length_rb_contents [simp]: "length (rb_contents rb) = rb_count rb"
  by (simp add: rb_contents_def)

lemma ring_offset:
  fixes h n i c :: nat
  assumes "h < c" "n \<le> c" "i < c"
  shows "((h + i) mod c + c - (h + n) mod c) mod c = (if i < n then c + i - n else i - n)"
  using assms by (auto simp: mod_once)

lemma ring_count_step:
  fixes h t c l :: nat
  assumes "h < c" "t < c" "0 < l" "l \<le> c - (if h \<le> t then t - h else t + c - h)"
  shows "(if (t + l) mod c = h then c
      else if h \<le> (t + l) mod c then (t + l) mod c - h else (t + l) mod c + c - h) =
    (if h \<le> t then t - h else t + c - h) + l"
  using assms by (auto simp: mod_once split: if_splits)

section \<open>Functional behaviour under the invariant\<close>

lemma RingBuffer_size_ok [simp]:
  assumes "rb_inv rb"
  shows "RingBuffer_size rb = Inr (rb_count rb)"
proof -
  have "add64 (sub64 (rb_tail rb) (rb_head rb)) (rb_capacity rb) =
      rb_tail rb + rb_capacity rb - rb_head rb"
    using assms unfolding rb_inv_def by (intro add64_sub64) auto
  then show ?thesis
    using assms by (auto simp: RingBuffer_size_def mod64_def rb_count_eq rb_inv_def mod_once)
qed

lemma RingBuffer_remaining_size_ok [simp]:
  assumes "rb_inv rb"
  shows "RingBuffer_remaining_size rb = Inr (rb_capacity rb - rb_count rb)"
  using assms rb_count_le [OF assms]
  by (auto simp: RingBuffer_remaining_size_def rb_inv_def)

text \<open>
  The three ways \<open>push_back\<close> copies are one write around the ring: cell \<open>k\<close> is \<open>k - tail\<close> steps past
  the tail, and the cells less than \<open>len\<close> steps past it get the new data.
\<close>

definition ring_put :: "bytes \<Rightarrow> nat \<Rightarrow> bytes \<Rightarrow> bytes" where
  "ring_put block t d =
     map (\<lambda>k. let j = (k + length block - t) mod length block in
              if j < length d then d ! j else block ! k) [0..<length block]"

lemma mem_write_straight:
  assumes "t < length block" "t + length d \<le> length block"
  shows "mem_write block t d = Inr (ring_put block t d)"
proof -
  have "take t block @ d @ drop (t + length d) block = ring_put block t d"
    using assms
    by (intro nth_equalityI) (auto simp: ring_put_def Let_def nth_append mod_once min_def)
  with assms show ?thesis by (simp add: mem_write_def)
qed

lemma mem_write_around:
  assumes "t < length block" "length block < t + length d" "length d \<le> length block"
    and "m = length block - t"
  shows "and_then (mem_write block t (take m d)) (\<lambda>b. mem_write b 0 (drop m d)) =
    Inr (ring_put block t d)"
proof -
  have "drop m d @ drop (length d - m) (take t block @ take m d) = ring_put block t d"
    using assms
    by (intro nth_equalityI) (auto simp: ring_put_def Let_def nth_append mod_once min_def add.commute
        split: if_splits)
  with assms show ?thesis by (simp add: mem_write_def)
qed

definition rb_pushed :: "RingBuffer \<Rightarrow> bytes \<Rightarrow> RingBuffer" where
  "rb_pushed rb d = rb\<lparr>rb_inner_data := ring_put (rb_inner_data rb) (rb_tail rb) d,
     rb_tail := (rb_tail rb + length d) mod rb_capacity rb,
     rb_full := (rb_full rb \<or> (rb_tail rb + length d) mod rb_capacity rb = rb_head rb \<and> d \<noteq> [])\<rparr>"

lemma push_back_eq:
  assumes inv: "rb_inv rb" and len: "len \<le> length d" "len \<le> rb_capacity rb - rb_count rb"
  shows "RingBuffer_push_back rb d len = Inr (rb_pushed rb (take len d))"
proof -
  note i = inv [unfolded rb_inv_def]
  have straight: "mem_write (rb_inner_data rb) (rb_tail rb) (take len d) =
      Inr (ring_put (rb_inner_data rb) (rb_tail rb) (take len d))"
    if "rb_tail rb + len \<le> rb_capacity rb"
    using that i len by (intro mem_write_straight) auto
  have around: "and_then (mem_write (rb_inner_data rb) (rb_tail rb) (take m d))
      (\<lambda>b. mem_write b 0 (take (len - m) (drop m d))) =
      Inr (ring_put (rb_inner_data rb) (rb_tail rb) (take len d))"
    if "rb_capacity rb < rb_tail rb + len" "m = rb_capacity rb - rb_tail rb" for m
    using that i len mem_write_around [of "rb_tail rb" "rb_inner_data rb" "take len d" m]
    by (simp add: take_drop min_absorb1 min_absorb2)
  have low: "rb_tail rb + len \<le> rb_capacity rb" if "rb_tail rb < rb_head rb"
    using that i len by (auto simp: rb_count_eq [OF inv])
  have "RingBuffer_copy_in rb d len = Inr (ring_put (rb_inner_data rb) (rb_tail rb) (take len d))"
  proof (cases "rb_tail rb + len \<le> rb_capacity rb")
    case True
    then have "len \<le> rb_capacity rb - rb_tail rb" by simp
    with True straight i show ?thesis by (simp add: RingBuffer_copy_in_def Let_def)
  next
    case False
    with low have "rb_head rb \<le> rb_tail rb" by linarith
    moreover have m: "\<not> len \<le> rb_capacity rb - rb_tail rb" using False i by auto
    moreover have "sub64 len (rb_capacity rb - rb_tail rb) = len - (rb_capacity rb - rb_tail rb)"
      using m i len by (intro sub64_no_wrap) auto
    ultimately show ?thesis
      using False around [of "rb_capacity rb - rb_tail rb"] i
      by (simp add: RingBuffer_copy_in_def Let_def)
  qed
  moreover have "take len d \<noteq> [] \<longleftrightarrow> 0 < len" using len(1) by auto
  ultimately show ?thesis
    using i len
    by (auto simp: RingBuffer_push_back_def inv mod64_def rb_pushed_def min_absorb2 simp del: take_eq_Nil)
qed

lemma rb_pushed_inv:
  assumes inv: "rb_inv rb" and "length d \<le> rb_capacity rb - rb_count rb"
  shows "rb_inv (rb_pushed rb d)" and "rb_count (rb_pushed rb d) = rb_count rb + length d"
proof -
  note i = inv [unfolded rb_inv_def]
  have full: "d = []" if "rb_full rb" using that assms by (simp add: rb_count_def)
  show *: "rb_inv (rb_pushed rb d)"
    using i full by (auto simp: rb_inv_def rb_pushed_def ring_put_def)
  show "rb_count (rb_pushed rb d) = rb_count rb + length d"
  proof (cases "d = []")
    case True
    with i show ?thesis by (simp add: rb_count_def rb_pushed_def)
  next
    case False
    with full have nf: "\<not> rb_full rb" by blast
    let ?t = "(rb_tail rb + length d) mod rb_capacity rb"
    have "rb_count (rb_pushed rb d) = (if ?t = rb_head rb then rb_capacity rb
        else if rb_head rb \<le> ?t then ?t - rb_head rb else ?t + rb_capacity rb - rb_head rb)"
      using nf False by (simp add: rb_count_eq [OF *]) (simp add: rb_pushed_def)
    also have "\<dots> = (if rb_head rb \<le> rb_tail rb then rb_tail rb - rb_head rb
        else rb_tail rb + rb_capacity rb - rb_head rb) + length d"
      using i False assms(2) nf rb_count_eq [OF inv] by (intro ring_count_step) simp_all
    also have "\<dots> = rb_count rb + length d" using nf by (simp add: rb_count_eq [OF inv])
    finally show ?thesis .
  qed
qed

lemma rb_contents_pushed:
  assumes inv: "rb_inv rb" and len: "length d \<le> rb_capacity rb - rb_count rb"
  shows "rb_contents (rb_pushed rb d) = rb_contents rb @ d"
proof (rule nth_equalityI)
  note n = rb_pushed_inv(2) [OF assms]
  note i = inv [unfolded rb_inv_def]
  show "length (rb_contents (rb_pushed rb d)) = length (rb_contents rb @ d)"
    by (simp add: n)
  fix k assume "k < length (rb_contents (rb_pushed rb d))"
  then have k: "k < rb_count rb + length d" by (simp add: n)
  then have kc: "k < rb_capacity rb" using len rb_count_le [OF inv] by linarith
  let ?p = "(rb_head rb + k) mod rb_capacity rb"
  have off: "(?p + rb_capacity rb - rb_tail rb) mod rb_capacity rb =
      (if k < rb_count rb then rb_capacity rb + k - rb_count rb else k - rb_count rb)"
    using ring_offset [of "rb_head rb" "rb_capacity rb" "rb_count rb" k] kc i
      rb_count_le [OF inv] rb_tail_eq [OF inv] by simp
  have "rb_contents (rb_pushed rb d) ! k = ring_put (rb_inner_data rb) (rb_tail rb) d ! ?p"
    using k n by (simp add: rb_contents_def) (simp add: rb_pushed_def)
  also have "\<dots> = (if k < rb_count rb then rb_inner_data rb ! ?p else d ! (k - rb_count rb))"
    using k i len off by (auto simp: ring_put_def Let_def)
  also have "\<dots> = (rb_contents rb @ d) ! k"
    by (simp add: nth_append) (simp add: rb_contents_def)
  finally show "rb_contents (rb_pushed rb d) ! k = (rb_contents rb @ d) ! k" .
qed

definition rb_popped :: "RingBuffer \<Rightarrow> nat \<Rightarrow> RingBuffer" where
  "rb_popped rb len = rb\<lparr>rb_head := (rb_head rb + len) mod rb_capacity rb,
     rb_full := (rb_full rb \<and> len = 0)\<rparr>"

lemma pop_front_eq:
  assumes inv: "rb_inv rb" and len: "len \<le> rb_count rb"
  shows "RingBuffer_pop_front rb len = Inr (rb_popped rb len)"
  using inv [unfolded rb_inv_def] len rb_count_le [OF inv]
  by (auto simp: RingBuffer_pop_front_def inv mod64_def rb_popped_def)

lemma ring_count_pop:
  fixes h t c l :: nat
  assumes "h < c" "t < c" "0 < l" "l \<le> (if f then c else if h \<le> t then t - h else t + c - h)"
    and "f \<longrightarrow> h = t"
  shows "(if (h + l) mod c \<le> t then t - (h + l) mod c else t + c - (h + l) mod c) =
    (if f then c else if h \<le> t then t - h else t + c - h) - l"
  using assms by (auto simp: mod_once split: if_splits)

lemma rb_popped_inv:
  assumes inv: "rb_inv rb" and "len \<le> rb_count rb"
  shows "rb_inv (rb_popped rb len)" and "rb_count (rb_popped rb len) = rb_count rb - len"
proof -
  note i = inv [unfolded rb_inv_def]
  show *: "rb_inv (rb_popped rb len)"
    using i by (auto simp: rb_inv_def rb_popped_def)
  show "rb_count (rb_popped rb len) = rb_count rb - len"
  proof (cases "len = 0")
    case True
    with i show ?thesis by (simp add: rb_count_def rb_popped_def)
  next
    case False
    let ?h = "(rb_head rb + len) mod rb_capacity rb"
    have "rb_count (rb_popped rb len) =
        (if ?h \<le> rb_tail rb then rb_tail rb - ?h else rb_tail rb + rb_capacity rb - ?h)"
      using False by (simp add: rb_count_eq [OF *]) (simp add: rb_popped_def)
    also have "\<dots> = (if rb_full rb then rb_capacity rb else if rb_head rb \<le> rb_tail rb
        then rb_tail rb - rb_head rb else rb_tail rb + rb_capacity rb - rb_head rb) - len"
      using i False assms(2) rb_count_eq [OF inv] by (intro ring_count_pop) simp_all
    also have "\<dots> = rb_count rb - len" by (simp add: rb_count_eq [OF inv])
    finally show ?thesis .
  qed
qed

lemma rb_contents_popped:
  assumes inv: "rb_inv rb" and len: "len \<le> rb_count rb"
  shows "rb_contents (rb_popped rb len) = drop len (rb_contents rb)"
proof (rule nth_equalityI)
  note n = rb_popped_inv(2) [OF assms]
  show "length (rb_contents (rb_popped rb len)) = length (drop len (rb_contents rb))"
    by (simp add: n)
  fix k assume "k < length (rb_contents (rb_popped rb len))"
  then show "rb_contents (rb_popped rb len) ! k = drop len (rb_contents rb) ! k"
    using n len
    by (simp add: rb_contents_def) (simp add: rb_popped_def mod_add_left_eq add.assoc)
qed

lemma peek_front_eq:
  assumes inv: "rb_inv rb" and len: "len \<le> rb_count rb"
  shows "RingBuffer_peek_front rb len = Inr (take len (rb_contents rb))"
proof -
  note i = inv [unfolded rb_inv_def]
  have lenc: "len \<le> rb_capacity rb" using len rb_count_le [OF inv] by linarith
  have nth: "rb_contents rb ! k = rb_inner_data rb ! ((rb_head rb + k) mod rb_capacity rb)"
    if "k < len" for k using that len by (simp add: rb_contents_def)
  have straight: "mem_read (rb_inner_data rb) (rb_head rb) (rb_head rb + len) =
      Inr (take len (rb_contents rb))" if "rb_head rb + len \<le> rb_capacity rb"
  proof -
    have "take len (drop (rb_head rb) (rb_inner_data rb)) = take len (rb_contents rb)"
      using that i len by (intro nth_equalityI) (auto simp: nth)
    with that i show ?thesis by (simp add: mem_read_def)
  qed
  have around: "drop (rb_head rb) (rb_inner_data rb) @
      take (len - (rb_capacity rb - rb_head rb)) (rb_inner_data rb) = take len (rb_contents rb)"
    if "rb_capacity rb < rb_head rb + len"
    using that i len lenc
    by (intro nth_equalityI) (auto simp: nth nth_append mod_once add.commute)
  have low: "rb_head rb + len \<le> rb_capacity rb" if "rb_head rb \<le> rb_tail rb" "\<not> rb_full rb"
    using that i len rb_count_eq [OF inv] by auto
  show ?thesis
  proof (cases "rb_head rb + len \<le> rb_capacity rb")
    case True
    then have "len \<le> rb_capacity rb - rb_head rb" by simp
    with True straight i len show ?thesis
      by (simp add: RingBuffer_peek_front_def inv Let_def)
  next
    case False
    with low have "\<not> (rb_head rb \<le> rb_tail rb \<and> \<not> rb_full rb)" by blast
    moreover have "\<not> len \<le> rb_capacity rb - rb_head rb"
      and "len + rb_head rb - rb_capacity rb \<le> rb_capacity rb"
      using False i lenc by auto
    ultimately show ?thesis using False around i len lenc
      by (simp add: RingBuffer_peek_front_def inv Let_def mem_read_def)
  qed
qed

lemma RingBuffer_init_inv:
  assumes "0 < cap" "cap < two63"
  shows "rb_inv (RingBuffer_init RingBuffer_default cap)"
    and "rb_contents (RingBuffer_init RingBuffer_default cap) = []"
    and "rb_capacity (RingBuffer_init RingBuffer_default cap) = cap"
  using assms
  by (simp_all add: rb_inv_def RingBuffer_init_def RingBuffer_default_def rb_contents_def rb_count_def)

section \<open>The contract of a bounded store\<close>

text \<open>
  What \<open>ByteStream\<close> relies on: pushing appends, popping drops from the front, peeking reads the
  front, nothing else changes, and within the room available nothing faults.
\<close>

locale bounded_store =
  fixes inv :: "'s \<Rightarrow> bool" and contents :: "'s \<Rightarrow> bytes" and cap :: "'s \<Rightarrow> nat"
    and push :: "'s \<Rightarrow> bytes \<Rightarrow> nat \<Rightarrow> 's result" and pop :: "'s \<Rightarrow> nat \<Rightarrow> 's result"
    and peek :: "'s \<Rightarrow> nat \<Rightarrow> bytes result" and size :: "'s \<Rightarrow> nat result"
    and remaining :: "'s \<Rightarrow> nat result"
  assumes cap_bounds: "inv s \<Longrightarrow> 0 < cap s \<and> cap s < two63 \<and> length (contents s) \<le> cap s"
    and size_ok: "inv s \<Longrightarrow> size s = Inr (length (contents s))"
    and remaining_ok: "inv s \<Longrightarrow> remaining s = Inr (cap s - length (contents s))"
    and push_ok: "inv s \<Longrightarrow> n \<le> length d \<Longrightarrow> n \<le> cap s - length (contents s) \<Longrightarrow>
      \<exists>s'. push s d n = Inr s' \<and> inv s' \<and> cap s' = cap s \<and> contents s' = contents s @ take n d"
    and pop_ok: "inv s \<Longrightarrow> n \<le> length (contents s) \<Longrightarrow>
      \<exists>s'. pop s n = Inr s' \<and> inv s' \<and> cap s' = cap s \<and> contents s' = drop n (contents s)"
    and peek_ok: "inv s \<Longrightarrow> n \<le> length (contents s) \<Longrightarrow> peek s n = Inr (take n (contents s))"
begin

text \<open>What is pushed comes out unchanged once everything before it has been popped.\<close>

lemma push_then_read:
  assumes "inv s" "length d \<le> cap s - length (contents s)"
  shows "\<exists>s1 s2. push s d (length d) = Inr s1 \<and> pop s1 (length (contents s)) = Inr s2 \<and>
    inv s2 \<and> peek s2 (length d) = Inr d"
proof -
  obtain s1 where s1: "push s d (length d) = Inr s1" "inv s1" "contents s1 = contents s @ d"
    using push_ok [OF assms(1), of "length d" d] assms(2) by auto
  obtain s2 where "pop s1 (length (contents s)) = Inr s2" "inv s2" "contents s2 = d"
    using pop_ok [OF s1(2), of "length (contents s)"] s1(3) by auto
  with s1 show ?thesis using peek_ok [of s2 "length d"] by auto
qed

text \<open>A store filled to its capacity has no room, and popping makes exactly the popped room.\<close>

lemma remaining_after_pop:
  assumes "inv s" "n \<le> length (contents s)" "pop s n = Inr s'"
  shows "remaining s' = Inr (cap s - length (contents s) + n)"
proof -
  from pop_ok [OF assms(1,2)] assms(3) have "inv s'" "cap s' = cap s" "contents s' = drop n (contents s)"
    by auto
  with remaining_ok [of s'] cap_bounds [OF assms(1)] assms(2) show ?thesis by simp
qed

end

interpretation ring: bounded_store rb_inv rb_contents rb_capacity
  RingBuffer_push_back RingBuffer_pop_front RingBuffer_peek_front
  RingBuffer_size RingBuffer_remaining_size
proof
  fix rb n d
  assume inv: "rb_inv rb"
  then show "0 < rb_capacity rb \<and> rb_capacity rb < two63 \<and> length (rb_contents rb) \<le> rb_capacity rb"
    using rb_count_le [OF inv] by (simp add: rb_inv_def)
  show "RingBuffer_size rb = Inr (length (rb_contents rb))" using inv by simp
  show "RingBuffer_remaining_size rb = Inr (rb_capacity rb - length (rb_contents rb))"
    using inv by simp
  show "\<exists>rb'. RingBuffer_push_back rb d n = Inr rb' \<and> rb_inv rb' \<and>
      rb_capacity rb' = rb_capacity rb \<and> rb_contents rb' = rb_contents rb @ take n d"
    if "n \<le> length d" "n \<le> rb_capacity rb - length (rb_contents rb)"
    using that inv by (simp add: push_back_eq rb_pushed_inv rb_contents_pushed)
      (simp add: rb_pushed_def)
  show "\<exists>rb'. RingBuffer_pop_front rb n = Inr rb' \<and> rb_inv rb' \<and>
      rb_capacity rb' = rb_capacity rb \<and> rb_contents rb' = drop n (rb_contents rb)"
    if "n \<le> length (rb_contents rb)"
    using that inv by (simp add: pop_front_eq rb_popped_inv rb_contents_popped)
      (simp add: rb_popped_def)
  show "RingBuffer_peek_front rb n = Inr (take n (rb_contents rb))"
    if "n \<le> length (rb_contents rb)"
    using that inv by (simp add: peek_front_eq)
qed

text \<open>Above this theory a buffer is known by its contents only.\<close>

declare length_rb_contents [simp del] RingBuffer_size_ok [simp del] RingBuffer_remaining_size_ok [simp del]

lemmas ring_simps [simp] = ring.size_ok ring.remaining_ok ring.peek_ok

section \<open>Properties\<close>

text \<open>Memory safety and correctness of \<open>push_back\<close>: in every well-formed buffer with room for
  \<open>len\<close> characters, pushing does not fault (no assertion fails, no copy leaves the block), appends
  exactly the first \<open>len\<close> characters to the contents and keeps the buffer well-formed.\<close>

theorem push_back_appends:
  assumes "rb_inv rb" "len \<le> length d" "len + length (rb_contents rb) \<le> rb_capacity rb"
  shows "\<exists>rb'. RingBuffer_push_back rb d len = Inr rb' \<and> rb_inv rb' \<and>
    rb_capacity rb' = rb_capacity rb \<and> rb_contents rb' = rb_contents rb @ take len d"
  by (rule ring.push_ok) (use assms in auto)

theorem push_back_appends_witness:
  "\<exists>rb'. RingBuffer_push_back (RingBuffer_init RingBuffer_default 3) [1, 2, 3] 2 = Inr rb' \<and>
     rb_inv rb' \<and> rb_capacity rb' = 3 \<and> rb_contents rb' = [1, 2]"
  using push_back_appends [of "RingBuffer_init RingBuffer_default 3" 2 "[1, 2, 3]"]
    RingBuffer_init_inv [of 3] by simp

end
