(* ===== verification/Byte_Stream.thy ===== *)
theory Byte_Stream
  imports Ring_Buffer
begin

text \<open>
  The class \<open>ByteStream\<close> of \<open>src/libsponge/byte_stream.hh\<close> and \<open>src/libsponge/byte_stream.cc\<close>:
  a flow-controlled in-order byte stream over a \<open>RingBuffer\<close>, the abstract stream it refines
  (a list of bytes with two counters), and the contract the reassembler, the sender and the
  connection use.
\<close>

section \<open>ByteStream\<close>

record ByteStream =
  bs_error :: bool
  bs_bytes_written :: size_t
  bs_bytes_read :: size_t
  bs_buf :: RingBuffer
  bs_input_ended :: bool
  bs_eof :: bool

definition ByteStream_new :: "size_t \<Rightarrow> ByteStream" where
  "ByteStream_new capacity =
     \<lparr>bs_error = False, bs_bytes_written = 0, bs_bytes_read = 0,
      bs_buf = RingBuffer_init RingBuffer_default capacity,
      bs_input_ended = False, bs_eof = False\<rparr>"

definition ByteStream_buffer_size :: "ByteStream \<Rightarrow> size_t result" where
  "ByteStream_buffer_size s = RingBuffer_size (bs_buf s)"

definition ByteStream_buffer_empty :: "ByteStream \<Rightarrow> bool result" where
  "ByteStream_buffer_empty s = and_then (RingBuffer_size (bs_buf s)) (\<lambda>n. Inr (n = 0))"

definition ByteStream_remaining_capacity :: "ByteStream \<Rightarrow> size_t result" where
  "ByteStream_remaining_capacity s = RingBuffer_remaining_size (bs_buf s)"

definition ByteStream_push_str :: "ByteStream \<Rightarrow> bytes \<Rightarrow> size_t \<Rightarrow> ByteStream result" where
  "ByteStream_push_str s data len =
     assert_that (length data \<ge> len) (
     and_then (ByteStream_remaining_capacity s) (\<lambda>remaining.
     assert_that (remaining \<ge> len) (
     and_then (RingBuffer_push_back (bs_buf s) data len) (\<lambda>buf.
     Inr (s\<lparr>bs_buf := buf, bs_bytes_written := add64 (bs_bytes_written s) len\<rparr>)))))"

definition ByteStream_write :: "ByteStream \<Rightarrow> bytes \<Rightarrow> (size_t \<times> ByteStream) result" where
  "ByteStream_write s data =
     assert_that (\<not> bs_input_ended s) (
     and_then (ByteStream_remaining_capacity s) (\<lambda>remaining_size.
     let count = (if length data \<le> remaining_size then length data else remaining_size) in
     and_then (ByteStream_push_str s data count) (\<lambda>s'. Inr (count, s'))))"

definition ByteStream_peek_output :: "ByteStream \<Rightarrow> size_t \<Rightarrow> bytes result" where
  "ByteStream_peek_output s len =
     and_then (ByteStream_buffer_size s) (\<lambda>n.
     assert_that (len \<le> n) (RingBuffer_peek_front (bs_buf s) len))"

definition ByteStream_pop_output :: "ByteStream \<Rightarrow> size_t \<Rightarrow> ByteStream result" where
  "ByteStream_pop_output s len =
     and_then (RingBuffer_pop_front (bs_buf s) len) (\<lambda>buf.
     let s' = s\<lparr>bs_buf := buf, bs_bytes_read := add64 (bs_bytes_read s) len\<rparr> in
     and_then (ByteStream_buffer_empty s') (\<lambda>empty.
     if empty \<and> bs_input_ended s' then
       assert_that (bs_bytes_read s' = bs_bytes_written s') (Inr (s'\<lparr>bs_eof := True\<rparr>))
     else Inr s'))"

definition ByteStream_read :: "ByteStream \<Rightarrow> size_t \<Rightarrow> (bytes \<times> ByteStream) result" where
  "ByteStream_read s len =
     (if bs_eof s then Inr ([], s)
      else
        and_then (ByteStream_buffer_size s) (\<lambda>n.
        assert_that (len \<le> n) (
        and_then (ByteStream_peek_output s len) (\<lambda>result.
        and_then (ByteStream_pop_output s len) (\<lambda>s'.
        Inr (result, s'))))))"

definition ByteStream_end_input :: "ByteStream \<Rightarrow> ByteStream result" where
  "ByteStream_end_input s =
     and_then (ByteStream_buffer_empty s) (\<lambda>empty.
     let s' = (if empty then s\<lparr>bs_eof := True\<rparr> else s) in
     Inr (s'\<lparr>bs_input_ended := True\<rparr>))"

definition ByteStream_set_error :: "ByteStream \<Rightarrow> ByteStream" where
  "ByteStream_set_error s = s\<lparr>bs_error := True\<rparr>"

section \<open>Events\<close>

text \<open>The calls a stream's writer and reader make, and what each call returns.\<close>

datatype stream_call = Write bytes | Read size_t | Peek size_t | Pop size_t | EndInput | SetError

datatype stream_answer = Accepted size_t | Bytes bytes | Done

fun stream_step :: "ByteStream \<Rightarrow> stream_call \<Rightarrow> (stream_answer \<times> ByteStream) result" where
  "stream_step s (Write d) = and_then (ByteStream_write s d) (\<lambda>(n, s'). Inr (Accepted n, s'))"
| "stream_step s (Read n) = and_then (ByteStream_read s n) (\<lambda>(d, s'). Inr (Bytes d, s'))"
| "stream_step s (Peek n) = and_then (ByteStream_peek_output s n) (\<lambda>d. Inr (Bytes d, s))"
| "stream_step s (Pop n) = and_then (ByteStream_pop_output s n) (\<lambda>s'. Inr (Done, s'))"
| "stream_step s EndInput = and_then (ByteStream_end_input s) (\<lambda>s'. Inr (Done, s'))"
| "stream_step s SetError = Inr (Done, ByteStream_set_error s)"

section \<open>The abstract stream\<close>

text \<open>
  A list of bytes with a capacity, the totals modulo \<open>2 ^ 64\<close> and two flags. \<open>abs_eof\<close> is not a
  field: the output has ended when the input has ended and nothing is left.
\<close>

record abs_stream =
  as_capacity :: nat
  as_contents :: bytes
  as_written :: nat
  as_read :: nat
  as_ended :: bool
  as_error :: bool

definition abs_eof :: "abs_stream \<Rightarrow> bool" where
  "abs_eof a \<longleftrightarrow> as_ended a \<and> as_contents a = []"

definition abs_room :: "abs_stream \<Rightarrow> nat" where
  "abs_room a = as_capacity a - length (as_contents a)"

fun abs_step :: "abs_stream \<Rightarrow> stream_call \<Rightarrow> stream_answer \<times> abs_stream" where
  "abs_step a (Write d) =
     (let n = min (length d) (abs_room a) in
      (Accepted n, a\<lparr>as_contents := as_contents a @ take n d, as_written := add64 (as_written a) n\<rparr>))"
| "abs_step a (Read n) =
     (if abs_eof a then (Bytes [], a)
      else (Bytes (take n (as_contents a)),
            a\<lparr>as_contents := drop n (as_contents a), as_read := add64 (as_read a) n\<rparr>))"
| "abs_step a (Peek n) = (Bytes (take n (as_contents a)), a)"
| "abs_step a (Pop n) =
     (Done, a\<lparr>as_contents := drop n (as_contents a), as_read := add64 (as_read a) n\<rparr>)"
| "abs_step a EndInput = (Done, a\<lparr>as_ended := True\<rparr>)"
| "abs_step a SetError = (Done, a\<lparr>as_error := True\<rparr>)"

text \<open>The calls the class admits: no write after the end, no read past what is buffered.\<close>

fun abs_ok :: "abs_stream \<Rightarrow> stream_call \<Rightarrow> bool" where
  "abs_ok a (Write d) = (\<not> as_ended a)"
| "abs_ok a (Read n) = (abs_eof a \<or> n \<le> length (as_contents a))"
| "abs_ok a (Peek n) = (n \<le> length (as_contents a))"
| "abs_ok a (Pop n) = (n \<le> length (as_contents a))"
| "abs_ok a EndInput = True"
| "abs_ok a SetError = True"

section \<open>Refinement\<close>

definition bs_inv :: "ByteStream \<Rightarrow> bool" where
  "bs_inv s \<longleftrightarrow> rb_inv (bs_buf s) \<and> bs_bytes_written s < two64 \<and> bs_bytes_read s < two64 \<and>
     bs_bytes_written s = add64 (bs_bytes_read s) (length (rb_contents (bs_buf s))) \<and>
     (bs_eof s \<longleftrightarrow> bs_input_ended s \<and> rb_contents (bs_buf s) = [])"

definition bs_abs :: "ByteStream \<Rightarrow> abs_stream" where
  "bs_abs s = \<lparr>as_capacity = rb_capacity (bs_buf s), as_contents = rb_contents (bs_buf s),
     as_written = bs_bytes_written s, as_read = bs_bytes_read s,
     as_ended = bs_input_ended s, as_error = bs_error s\<rparr>"

abbreviation bs_contents :: "ByteStream \<Rightarrow> bytes" where
  "bs_contents s \<equiv> rb_contents (bs_buf s)"

abbreviation bs_capacity :: "ByteStream \<Rightarrow> nat" where
  "bs_capacity s \<equiv> rb_capacity (bs_buf s)"

lemma bs_abs_simps [simp]:
  "as_capacity (bs_abs s) = bs_capacity s" "as_contents (bs_abs s) = bs_contents s"
  "as_written (bs_abs s) = bs_bytes_written s" "as_read (bs_abs s) = bs_bytes_read s"
  "as_ended (bs_abs s) = bs_input_ended s" "as_error (bs_abs s) = bs_error s"
  by (simp_all add: bs_abs_def)

lemma bs_inv_rb [dest]: "bs_inv s \<Longrightarrow> rb_inv (bs_buf s)"
  by (simp add: bs_inv_def)

lemma bs_bounds:
  assumes "bs_inv s"
  shows "0 < bs_capacity s" "bs_capacity s < two63" "length (bs_contents s) \<le> bs_capacity s"
  using ring.cap_bounds [OF bs_inv_rb [OF assms]] by simp_all

lemma bs_eof_iff: "bs_inv s \<Longrightarrow> bs_eof s \<longleftrightarrow> abs_eof (bs_abs s)"
  by (simp add: bs_inv_def abs_eof_def)

lemma buffer_size_ok [simp]: "bs_inv s \<Longrightarrow> ByteStream_buffer_size s = Inr (length (bs_contents s))"
  by (simp add: ByteStream_buffer_size_def bs_inv_rb)

lemma buffer_empty_ok [simp]: "bs_inv s \<Longrightarrow> ByteStream_buffer_empty s = Inr (bs_contents s = [])"
  by (simp add: ByteStream_buffer_empty_def bs_inv_rb)

lemma remaining_capacity_ok [simp]:
  "bs_inv s \<Longrightarrow> ByteStream_remaining_capacity s = Inr (bs_capacity s - length (bs_contents s))"
  by (simp add: ByteStream_remaining_capacity_def bs_inv_rb)

lemma peek_output_ok [simp]:
  "bs_inv s \<Longrightarrow> n \<le> length (bs_contents s) \<Longrightarrow>
   ByteStream_peek_output s n = Inr (take n (bs_contents s))"
  by (simp add: ByteStream_peek_output_def bs_inv_rb)

lemma write_ok:
  assumes inv: "bs_inv s" and open_: "\<not> bs_input_ended s"
  shows "\<exists>s'. ByteStream_write s d = Inr (min (length d) (abs_room (bs_abs s)), s') \<and> bs_inv s' \<and>
    abs_step (bs_abs s) (Write d) = (Accepted (min (length d) (abs_room (bs_abs s))), bs_abs s')"
proof -
  define n where "n = min (length d) (abs_room (bs_abs s))"
  have n: "n \<le> length d" "n \<le> bs_capacity s - length (bs_contents s)"
    by (simp_all add: n_def abs_room_def)
  obtain b where b: "RingBuffer_push_back (bs_buf s) d n = Inr b" "rb_inv b"
    "rb_capacity b = bs_capacity s" "rb_contents b = bs_contents s @ take n d"
    using ring.push_ok [OF bs_inv_rb [OF inv] n] by blast
  let ?s = "s\<lparr>bs_buf := b, bs_bytes_written := add64 (bs_bytes_written s) n\<rparr>"
  have count: "(if length d \<le> bs_capacity s - length (bs_contents s) then length d
      else bs_capacity s - length (bs_contents s)) = n"
    by (simp add: n_def abs_room_def min_def)
  have "ByteStream_push_str s d n = Inr ?s"
    using inv n b(1) by (simp add: ByteStream_push_str_def)
  then have "ByteStream_write s d = Inr (n, ?s)"
    using inv open_ by (simp add: ByteStream_write_def count Let_def)
  moreover have "bs_inv ?s"
    using inv open_ b n(1) unfolding bs_inv_def by (simp add: add64_nat_assoc)
  moreover have "abs_step (bs_abs s) (Write d) = (Accepted n, bs_abs ?s)"
    using b by (simp add: bs_abs_def Let_def n_def)
  ultimately show ?thesis unfolding n_def by blast
qed

lemma pop_output_ok:
  assumes inv: "bs_inv s" and n: "n \<le> length (bs_contents s)"
  shows "\<exists>s'. ByteStream_pop_output s n = Inr s' \<and> bs_inv s' \<and>
    abs_step (bs_abs s) (Pop n) = (Done, bs_abs s')"
proof -
  obtain b where b: "RingBuffer_pop_front (bs_buf s) n = Inr b" "rb_inv b"
    "rb_capacity b = bs_capacity s" "rb_contents b = drop n (bs_contents s)"
    using ring.pop_ok [OF bs_inv_rb [OF inv] n] by blast
  let ?s = "s\<lparr>bs_buf := b, bs_bytes_read := add64 (bs_bytes_read s) n\<rparr>"
  let ?s' = "if bs_contents ?s = [] \<and> bs_input_ended s then ?s\<lparr>bs_eof := True\<rparr> else ?s"
  have "add64 (add64 (bs_bytes_read s) n) (length (bs_contents s) - n) = bs_bytes_written s"
    using inv n unfolding bs_inv_def by (simp add: add64_nat_assoc)
  then have total: "bs_bytes_written s = add64 (bs_bytes_read ?s) (length (rb_contents b))"
    using b by (simp)
  have eq: "bs_bytes_read ?s = bs_bytes_written s" if "rb_contents b = []"
    using total that by (simp add: add64_def)
  have "ByteStream_buffer_empty ?s = Inr (bs_contents ?s = [])"
    using b(2) by (simp add: ByteStream_buffer_empty_def)
  then have "ByteStream_pop_output s n = Inr ?s'"
    using b(1) eq by (simp add: ByteStream_pop_output_def Let_def)
  moreover have "bs_inv ?s'"
    using inv b total unfolding bs_inv_def
    by (auto simp: abs_eof_def)
  moreover have "abs_step (bs_abs s) (Pop n) = (Done, bs_abs ?s')"
    using b by (simp add: bs_abs_def)
  ultimately show ?thesis by blast
qed

lemma read_ok:
  assumes inv: "bs_inv s" and n: "n \<le> length (bs_contents s) \<or> abs_eof (bs_abs s)"
  shows "\<exists>d s'. ByteStream_read s n = Inr (d, s') \<and> bs_inv s' \<and>
    abs_step (bs_abs s) (Read n) = (Bytes d, bs_abs s')"
proof (cases "abs_eof (bs_abs s)")
  case True
  with inv show ?thesis by (simp add: ByteStream_read_def bs_eof_iff)
next
  case False
  with n have le: "n \<le> length (bs_contents s)" by simp
  obtain s' where s': "ByteStream_pop_output s n = Inr s'" "bs_inv s'"
    "abs_step (bs_abs s) (Pop n) = (Done, bs_abs s')"
    using pop_output_ok [OF inv le] by blast
  then have "ByteStream_read s n = Inr (take n (bs_contents s), s')"
    using False inv le by (simp add: ByteStream_read_def bs_eof_iff)
  moreover have "abs_step (bs_abs s) (Read n) = (Bytes (take n (bs_contents s)), bs_abs s')"
    using s'(3) False by simp
  ultimately show ?thesis using s'(2) by blast
qed

lemma end_input_ok:
  assumes inv: "bs_inv s"
  shows "\<exists>s'. ByteStream_end_input s = Inr s' \<and> bs_inv s' \<and>
    abs_step (bs_abs s) EndInput = (Done, bs_abs s')"
proof -
  let ?s = "(if bs_contents s = [] then s\<lparr>bs_eof := True\<rparr> else s)\<lparr>bs_input_ended := True\<rparr>"
  have "ByteStream_end_input s = Inr ?s"
    using inv by (simp add: ByteStream_end_input_def Let_def)
  moreover have "bs_inv ?s" using inv unfolding bs_inv_def by simp
  moreover have "abs_step (bs_abs s) EndInput = (Done, bs_abs ?s)" by (simp add: bs_abs_def)
  ultimately show ?thesis by blast
qed

lemma set_error_ok:
  "bs_inv s \<Longrightarrow> bs_inv (ByteStream_set_error s) \<and>
   abs_step (bs_abs s) SetError = (Done, bs_abs (ByteStream_set_error s))"
  by (simp add: ByteStream_set_error_def bs_inv_def bs_abs_def)

lemma ByteStream_new_ok:
  assumes "0 < cap" "cap < two63"
  shows "bs_inv (ByteStream_new cap)"
    and "bs_abs (ByteStream_new cap) = \<lparr>as_capacity = cap, as_contents = [], as_written = 0,
      as_read = 0, as_ended = False, as_error = False\<rparr>"
  using RingBuffer_init_inv [OF assms]
  by (simp_all add: ByteStream_new_def bs_inv_def bs_abs_def)

interpretation bytes: simulation stream_step bs_inv bs_abs abs_step abs_ok
proof
  fix s e
  assume inv: "bs_inv s" and ok: "abs_ok (bs_abs s) e"
  show "\<exists>out s'. stream_step s e = Inr (out, s') \<and> bs_inv s' \<and> abs_step (bs_abs s) e = (out, bs_abs s')"
  proof (cases e)
    case (Write d)
    with ok write_ok [OF inv, of d] show ?thesis by auto
  next
    case (Read n)
    with ok read_ok [OF inv, of n] show ?thesis by auto
  next
    case (Peek n)
    with ok inv show ?thesis by simp
  next
    case (Pop n)
    with ok pop_output_ok [OF inv, of n] show ?thesis by auto
  next
    case EndInput
    with end_input_ok [OF inv] show ?thesis by auto
  next
    case SetError
    with set_error_ok [OF inv] show ?thesis by simp
  qed
qed

section \<open>Whole histories\<close>

text \<open>The bytes a sequence of calls put into the stream, and the bytes its reads returned.\<close>

fun accepted :: "stream_call list \<Rightarrow> stream_answer list \<Rightarrow> bytes" where
  "accepted (Write d # es) (Accepted n # outs) = take n d @ accepted es outs"
| "accepted (_ # es) (_ # outs) = accepted es outs"
| "accepted _ _ = []"

fun delivered :: "stream_call list \<Rightarrow> stream_answer list \<Rightarrow> bytes" where
  "delivered (Read n # es) (Bytes d # outs) = d @ delivered es outs"
| "delivered (_ # es) (_ # outs) = delivered es outs"
| "delivered _ _ = []"

fun is_pop :: "stream_call \<Rightarrow> bool" where
  "is_pop (Pop n) = True"
| "is_pop _ = False"

lemma arun_fifo:
  "\<not> list_ex is_pop es \<Longrightarrow> arun abs_step a es = (outs, a') \<Longrightarrow>
   as_contents a @ accepted es outs = delivered es outs @ as_contents a'"
proof (induction es arbitrary: a outs)
  case Nil
  then show ?case by simp
next
  case (Cons e es)
  obtain out b where step: "abs_step a e = (out, b)" by force
  obtain rest where rest: "arun abs_step b es = (rest, a')" and outs: "outs = out # rest"
    using Cons.prems(2) step by (auto split: prod.splits)
  have IH: "as_contents b @ accepted es rest = delivered es rest @ as_contents a'"
    using Cons.IH [OF _ rest] Cons.prems(1) by simp
  show ?case
  proof (cases e)
    case (Read n)
    with step IH outs show ?thesis
      by (auto simp: abs_eof_def split: if_splits) (metis append_assoc append_take_drop_id)+
  qed (use step IH outs Cons.prems(1) in \<open>auto simp: Let_def\<close>)
qed

lemma arun_ended:
  "arun abs_step a es = (outs, a') \<Longrightarrow> as_ended a' \<longleftrightarrow> as_ended a \<or> EndInput \<in> set es"
proof (induction es arbitrary: a outs)
  case Nil
  then show ?case by simp
next
  case (Cons e es)
  obtain out b where step: "abs_step a e = (out, b)" by force
  then obtain rest where "arun abs_step b es = (rest, a')"
    using Cons.prems by (auto split: prod.splits)
  from Cons.IH [OF this] step show ?case
    by (cases e) (auto simp: Let_def split: if_splits)
qed

lemma arun_capacity: "arun abs_step a es = (outs, a') \<Longrightarrow> as_capacity a' = as_capacity a"
proof (induction es arbitrary: a outs)
  case Nil
  then show ?case by simp
next
  case (Cons e es)
  obtain out b where step: "abs_step a e = (out, b)" by force
  then obtain rest where "arun abs_step b es = (rest, a')"
    using Cons.prems by (auto split: prod.splits)
  from Cons.IH [OF this] step show ?case
    by (cases e) (auto simp: Let_def split: if_splits)
qed

section \<open>Properties\<close>

text \<open>C11. \<open>ByteStream\<close> refines a bounded list of bytes: for every sequence of calls its callers may
  make, no call faults, every answer is the answer of the list, and the invariant (the totals,
  the ring buffer and the end-of-file flag agree) holds at the end.\<close>

theorem ByteStream_refines_list:
  assumes "bs_inv s" "aok_run abs_step abs_ok (bs_abs s) es"
  shows "\<exists>outs s'. run stream_step s es = Inr (outs, s') \<and> bs_inv s' \<and>
    arun abs_step (bs_abs s) es = (outs, bs_abs s')"
  using assms by (rule bytes.sim_run)

theorem ByteStream_refines_list_witness:
  "aok_run abs_step abs_ok (bs_abs (ByteStream_new 2)) [Write [1, 2, 3], Read 1, EndInput, Read 1] \<and>
   (\<exists>s'. run stream_step (ByteStream_new 2) [Write [1, 2, 3], Read 1, EndInput, Read 1] =
      Inr ([Accepted 2, Bytes [1], Done, Bytes [2]], s') \<and> abs_eof (bs_abs s'))"
proof -
  let ?es = "[Write [1, 2, 3], Read 1, EndInput, Read 1]"
  note new = ByteStream_new_ok [of 2]
  have ok: "aok_run abs_step abs_ok (bs_abs (ByteStream_new 2)) ?es"
    by (simp add: new abs_room_def abs_eof_def)
  obtain outs s' where "run stream_step (ByteStream_new 2) ?es = Inr (outs, s')"
    and arun: "arun abs_step (bs_abs (ByteStream_new 2)) ?es = (outs, bs_abs s')"
    using ByteStream_refines_list [OF _ ok] new by auto
  moreover have "outs = [Accepted 2, Bytes [1], Done, Bytes [2]]" "as_ended (bs_abs s')"
    "as_contents (bs_abs s') = []"
    using arun [symmetric] unfolding new(2) [simplified] by (simp_all add: abs_room_def abs_eof_def)
  ultimately show ?thesis using ok unfolding abs_eof_def by blast
qed

text \<open>First in, first out: whatever the calls (popping without reading apart), the bytes a fresh
  stream accepted are, in order, the bytes its reads returned followed by the bytes it still
  holds, which are never more than its capacity; and it reports end-of-file exactly when its
  input has ended and everything accepted has been returned.\<close>

theorem ByteStream_fifo:
  assumes "0 < cap" "cap < two63"
    and "aok_run abs_step abs_ok (bs_abs (ByteStream_new cap)) es" "\<not> list_ex is_pop es"
  shows "\<exists>outs s'. run stream_step (ByteStream_new cap) es = Inr (outs, s') \<and>
    accepted es outs = delivered es outs @ bs_contents s' \<and> length (bs_contents s') \<le> cap \<and>
    (bs_eof s' \<longleftrightarrow> EndInput \<in> set es \<and> accepted es outs = delivered es outs)"
proof -
  note new = ByteStream_new_ok [OF assms(1,2)]
  obtain outs s' where run: "run stream_step (ByteStream_new cap) es = Inr (outs, s')" "bs_inv s'"
    and arun: "arun abs_step (bs_abs (ByteStream_new cap)) es = (outs, bs_abs s')"
    using bytes.sim_run [OF new(1) assms(3)] by blast
  have fifo: "accepted es outs = delivered es outs @ bs_contents s'"
    using arun_fifo [OF assms(4) arun] new(2) by simp
  have "bs_input_ended s' \<longleftrightarrow> EndInput \<in> set es"
    using arun_ended [OF arun] new(2) by simp
  then have "bs_eof s' \<longleftrightarrow> EndInput \<in> set es \<and> accepted es outs = delivered es outs"
    using bs_eof_iff [OF run(2)] fifo by (simp add: abs_eof_def)
  moreover have "length (bs_contents s') \<le> cap"
    using bs_bounds(3) [OF run(2)] arun_capacity [OF arun] new(2) by simp
  ultimately show ?thesis using run(1) fifo by blast
qed

theorem ByteStream_fifo_witness:
  "\<exists>outs s'. run stream_step (ByteStream_new 4) [Write [7, 8], Read 1, Write [9], EndInput] =
     Inr (outs, s') \<and> delivered [Write [7, 8], Read 1, Write [9], EndInput] outs @ bs_contents s' =
     accepted [Write [7, 8], Read 1, Write [9], EndInput] outs"
  using ByteStream_fifo [of 4 "[Write [7, 8], Read 1, Write [9], EndInput]"]
    ByteStream_new_ok [of 4] by (auto simp: abs_room_def abs_eof_def)

text \<open>A stream of capacity 0 cannot be used: every size query divides by zero, so even asking
  for the remaining capacity of \<open>ByteStream(0)\<close> faults.\<close>

theorem ByteStream_zero_capacity:
  "ByteStream_remaining_capacity (ByteStream_new 0) = Inl DivisionByZero \<and>
   ByteStream_write (ByteStream_new 0) d = Inl DivisionByZero \<and>
   ByteStream_end_input (ByteStream_new 0) = Inl DivisionByZero"
  by (simp add: ByteStream_remaining_capacity_def ByteStream_write_def ByteStream_end_input_def
      ByteStream_buffer_empty_def RingBuffer_remaining_size_def RingBuffer_size_def mod64_def
      ByteStream_new_def RingBuffer_init_def RingBuffer_default_def)

end
