(* ===== verification/Stream_Reassembler.thy ===== *)
theory Stream_Reassembler
  imports Byte_Stream
begin

text \<open>
  The class \<open>StreamReassembler\<close> of \<open>src/libsponge/stream_reassembler.hh\<close> and
  \<open>src/libsponge/stream_reassembler.cc\<close>: substrings of a stream, pushed in any order and
  overlapping in any way, are stored without overlap and written to a \<open>ByteStream\<close> in order.
  The state and the operations come first, then what each loop of \<open>insert_without_overlap\<close> does to
  the bytes the slices store.
\<close>

section \<open>State\<close>

record DataInfo =
  di_data :: bytes
  di_index :: size_t

definition DataInfo_size :: "DataInfo \<Rightarrow> size_t" where
  "DataInfo_size d = length (di_data d)"

definition DataInfo_end :: "DataInfo \<Rightarrow> size_t" where
  "DataInfo_end d = add64 (di_index d) (length (di_data d))"

record Range =
  rg_begin :: size_t
  rg_end :: size_t

definition Range_size :: "Range \<Rightarrow> size_t" where
  "Range_size r = sub64 (rg_end r) (rg_begin r)"

text \<open>\<open>std::map<size_t, DataInfo>\<close>: its nodes in the order of their keys.\<close>

type_synonym slices = "(size_t \<times> DataInfo) list"

fun slices_emplace :: "size_t \<Rightarrow> DataInfo \<Rightarrow> slices \<Rightarrow> slices" where
  "slices_emplace k v [] = [(k, v)]"
| "slices_emplace k v ((k', v') # ds) =
     (if k < k' then (k, v) # (k', v') # ds
      else if k = k' then (k', v') # ds
      else (k', v') # slices_emplace k v ds)"

fun slices_extract :: "size_t \<Rightarrow> slices \<Rightarrow> ((size_t \<times> DataInfo) \<times> slices) result" where
  "slices_extract k [] = Inl OutOfBounds"
| "slices_extract k ((k', v') # ds) =
     (if k = k' then Inr ((k', v'), ds)
      else and_then (slices_extract k ds) (\<lambda>(node, rest). Inr (node, (k', v') # rest)))"

record StreamReassembler =
  sr_output :: ByteStream
  sr_capacity :: size_t
  sr_unasm_bytes :: size_t
  sr_next_index :: size_t
  sr_datas :: slices
  sr_eof :: bool
  sr_eof_index :: size_t

definition StreamReassembler_new :: "size_t \<Rightarrow> StreamReassembler" where
  "StreamReassembler_new capacity =
     \<lparr>sr_output = ByteStream_new capacity, sr_capacity = capacity, sr_unasm_bytes = 0,
      sr_next_index = 0, sr_datas = [], sr_eof = False, sr_eof_index = 0\<rparr>"

section \<open>Operations\<close>

definition bytes_in_memory :: "StreamReassembler \<Rightarrow> size_t result" where
  "bytes_in_memory r =
     and_then (ByteStream_buffer_size (sr_output r)) (\<lambda>n. Inr (add64 (sr_unasm_bytes r) n))"

definition remaining_memory :: "StreamReassembler \<Rightarrow> size_t result" where
  "remaining_memory r = and_then (bytes_in_memory r) (\<lambda>n. Inr (sub64 (sr_capacity r) n))"

definition check_eof :: "StreamReassembler \<Rightarrow> StreamReassembler result" where
  "check_eof r =
     (if sr_eof r \<and> sr_next_index r = sr_eof_index r
      then and_then (ByteStream_end_input (sr_output r)) (\<lambda>out. Inr (r\<lparr>sr_output := out\<rparr>))
      else Inr r)"

text \<open>The three loops of \<open>insert_without_overlap\<close>: the overlap area, the needed area, the insertion.\<close>

fun unneeded_ranges :: "size_t \<Rightarrow> size_t \<Rightarrow> slices \<Rightarrow> Range list" where
  "unneeded_ranges begin end [] = []"
| "unneeded_ranges begin end ((existed_begin, info) # ds) =
     (let existed_end = DataInfo_end info in
      if existed_end \<le> begin then unneeded_ranges begin end ds
      else if existed_begin \<ge> end then []
      else \<lparr>rg_begin = max begin existed_begin, rg_end = min end existed_end\<rparr>
        # unneeded_ranges begin end ds)"

fun needed_ranges ::
  "size_t \<Rightarrow> Range list \<Rightarrow> size_t \<Rightarrow> size_t \<Rightarrow> Range list \<Rightarrow> size_t \<times> Range list" where
  "needed_ranges end [] prev_end insert_size needed =
     (if prev_end < end then
        (let range = \<lparr>rg_begin = prev_end, rg_end = end\<rparr>
         in (add64 insert_size (Range_size range), needed @ [range]))
      else (insert_size, needed))"
| "needed_ranges end (u # us) prev_end insert_size needed =
     (let range = \<lparr>rg_begin = prev_end, rg_end = rg_begin u\<rparr> in
      if rg_begin u > prev_end \<and> Range_size range \<noteq> 0
      then needed_ranges end us (rg_end u) (add64 insert_size (Range_size range)) (needed @ [range])
      else needed_ranges end us (rg_end u) insert_size needed)"

fun insert_ranges :: "bytes \<Rightarrow> size_t \<Rightarrow> Range list \<Rightarrow> slices \<Rightarrow> slices result" where
  "insert_ranges data index [] ds = Inr ds"
| "insert_ranges data index (g # gs) ds =
     (let slice_begin = sub64 (rg_begin g) index; slice_size = Range_size g in
      assert_that (slice_size \<noteq> 0) (
      and_then (substr data slice_begin slice_size) (\<lambda>slice.
      insert_ranges data index gs
        (slices_emplace (rg_begin g) \<lparr>di_data = slice, di_index = rg_begin g\<rparr> ds))))"

text \<open>
  The loop that discards from the largest index down; the slices come last first. It returns
  \<open>exceeded_size\<close>, \<open>insert_size\<close> and what is left.
\<close>

fun discard_exceeded :: "size_t \<Rightarrow> size_t \<Rightarrow> slices \<Rightarrow> size_t \<times> size_t \<times> slices" where
  "discard_exceeded exceeded insert_size [] = (exceeded, insert_size, [])"
| "discard_exceeded exceeded insert_size ((k, info) # rest) =
     (let rit_data_size = DataInfo_size info in
      if rit_data_size > exceeded then
        (sub64 exceeded exceeded, sub64 insert_size exceeded,
         (k, info\<lparr>di_data := take (sub64 rit_data_size exceeded) (di_data info)\<rparr>) # rest)
      else
        (let insert_size' = sub64 insert_size rit_data_size;
             exceeded' = sub64 exceeded rit_data_size
         in if exceeded' = 0 then (exceeded', insert_size', rest)
            else discard_exceeded exceeded' insert_size' rest))"

definition insert_without_overlap ::
  "StreamReassembler \<Rightarrow> bytes \<Rightarrow> size_t \<Rightarrow> StreamReassembler result" where
  "insert_without_overlap r data index =
     assert_that (index \<ge> sr_next_index r) (
     let begin = index;
         end = add64 begin (length data);
         unneeded = unneeded_ranges begin end (sr_datas r);
         (insert_size, needed) = needed_ranges end unneeded index 0 []
     in
     and_then (insert_ranges data index needed (sr_datas r)) (\<lambda>ds.
     and_then (remaining_memory r) (\<lambda>remaining_mem.
     let (exceeded, insert_size', ds') =
           (if insert_size > remaining_mem then
              (case discard_exceeded (sub64 insert_size remaining_mem) insert_size (rev ds) of
                 (x, n, left) \<Rightarrow> (x, n, rev left))
            else (0, insert_size, ds))
     in
     assert_that (exceeded = 0) (
     assert_that (insert_size' \<le> remaining_mem) (
     let r' = r\<lparr>sr_datas := ds', sr_unasm_bytes := add64 (sr_unasm_bytes r) insert_size'\<rparr> in
     and_then (bytes_in_memory r') (\<lambda>mem.
     assert_that (mem \<le> sr_capacity r') (Inr r')))))))"

text \<open>
  The loop of \<open>reassemble\<close>, with the nodes of \<open>datas_\<close> from the iterator on as its first
  argument: every node before it has been erased, so they are all of \<open>datas_\<close>. The branch for
  a slice that does not fit moves the node to a new key and leaves its data as it is.
\<close>

fun reassemble_loop :: "slices \<Rightarrow> StreamReassembler \<Rightarrow> StreamReassembler result" where
  "reassemble_loop [] r = Inr r"
| "reassemble_loop ((k, info) # ds) r =
     (if k = sr_next_index r then
        and_then (ByteStream_remaining_capacity (sr_output r)) (\<lambda>buf_remaining_capacity.
        let slice_size = DataInfo_size info in
        if slice_size \<le> buf_remaining_capacity then
          and_then (ByteStream_write (sr_output r) (di_data info)) (\<lambda>(_, out).
          and_then (check_eof (r\<lparr>sr_output := out,
                                 sr_unasm_bytes := sub64 (sr_unasm_bytes r) slice_size,
                                 sr_next_index := add64 (sr_next_index r) slice_size\<rparr>)) (\<lambda>r'.
          reassemble_loop ds (r'\<lparr>sr_datas := ds\<rparr>)))
        else
          and_then (ByteStream_write (sr_output r) (take buf_remaining_capacity (di_data info))) (\<lambda>(_, out).
          let index = di_index info;
              new_index = add64 index buf_remaining_capacity
          in and_then (slices_extract index ((k, info\<lparr>di_index := new_index\<rparr>) # ds)) (\<lambda>((_, moved), rest).
             Inr (r\<lparr>sr_output := out,
                    sr_datas := slices_emplace new_index moved rest,
                    sr_unasm_bytes := sub64 (sr_unasm_bytes r) buf_remaining_capacity,
                    sr_next_index := add64 (sr_next_index r) buf_remaining_capacity\<rparr>))))
      else Inr r)"

definition reassemble :: "StreamReassembler \<Rightarrow> StreamReassembler result" where
  "reassemble r =
     and_then (check_eof r) (\<lambda>r'.
     case sr_datas r' of
       [] \<Rightarrow> Inr r'
     | (k, info) # ds \<Rightarrow>
         assert_that (k \<ge> sr_next_index r') (reassemble_loop (sr_datas r') r'))"

definition push_substring ::
  "StreamReassembler \<Rightarrow> bytes \<Rightarrow> size_t \<Rightarrow> bool \<Rightarrow> StreamReassembler result" where
  "push_substring r data index eof =
     (let data_size = length data;
          data_end = add64 index data_size
      in
      and_then
        (if eof then
           and_then
             (if sr_eof r then assert_that (sr_eof_index r = data_end) (Inr r)
              else Inr (r\<lparr>sr_eof := True, sr_eof_index := data_end\<rparr>))
             check_eof
         else Inr r) (\<lambda>r'.
      if data_size = 0 then Inr r'
      else if data_end \<le> sr_next_index r' then Inr r'
      else
        (let begin = max index (sr_next_index r');
             len = sub64 data_end begin
         in and_then (substr data (sub64 begin index) len) (\<lambda>part.
            and_then (insert_without_overlap r' part begin) reassemble))))"

definition unassembled_bytes :: "StreamReassembler \<Rightarrow> size_t" where
  "unassembled_bytes r = sr_unasm_bytes r"

definition StreamReassembler_empty :: "StreamReassembler \<Rightarrow> bool" where
  "StreamReassembler_empty r \<longleftrightarrow> sr_unasm_bytes r = 0"

section \<open>What a list of slices stores\<close>

fun cells :: "slices \<Rightarrow> nat \<Rightarrow> byte option" where
  "cells [] i = None"
| "cells ((k, d) # ds) i =
     (if k \<le> i \<and> i < k + length (di_data d) then Some (di_data d ! (i - k)) else cells ds i)"

fun slices_total :: "slices \<Rightarrow> nat" where
  "slices_total [] = 0"
| "slices_total ((k, d) # ds) = length (di_data d) + slices_total ds"

text \<open>Slices from \<open>lo\<close> on: not empty, stored under their own index, in order, without overlap.\<close>

fun slices_wf :: "nat \<Rightarrow> slices \<Rightarrow> bool" where
  "slices_wf lo [] = True"
| "slices_wf lo ((k, d) # ds) =
     (lo \<le> k \<and> di_index d = k \<and> di_data d \<noteq> [] \<and> k + length (di_data d) < two64 \<and>
      slices_wf (k + length (di_data d)) ds)"

lemma slices_wf_mono: "slices_wf lo ds \<Longrightarrow> lo' \<le> lo \<Longrightarrow> slices_wf lo' ds"
  by (cases ds) auto

lemma cells_below: "slices_wf lo ds \<Longrightarrow> i < lo \<Longrightarrow> cells ds i = None"
  by (induction ds arbitrary: lo) force+

lemma cells_dom_bound: "slices_wf lo ds \<Longrightarrow> cells ds i = Some b \<Longrightarrow> lo \<le> i \<and> i < two64"
  using cells_below by (induction ds arbitrary: lo) (fastforce split: if_splits)+

lemma DataInfo_end_wf [simp]:
  "di_index d + length (di_data d) < two64 \<Longrightarrow> DataInfo_end d = di_index d + length (di_data d)"
  by (simp add: DataInfo_end_def)

lemma total_append [simp]: "slices_total (xs @ ys) = slices_total xs + slices_total ys"
  by (induction xs rule: slices_total.induct) simp_all

text \<open>The count of the stored bytes is the number of distinct stream positions.\<close>

lemma dom_cells_Cons:
  "slices_wf lo ((k, d) # ds) \<Longrightarrow>
   dom (cells ((k, d) # ds)) = {k ..< k + length (di_data d)} \<union> dom (cells ds)"
  by (auto split: if_splits)

lemma finite_dom_cells: "finite (dom (cells ds))"
proof (induction ds rule: slices_total.induct)
  case (2 k d ds)
  have "dom (cells ((k, d) # ds)) \<subseteq> {k ..< k + length (di_data d)} \<union> dom (cells ds)"
    by (auto split: if_splits)
  then show ?case using 2 finite_subset by blast
qed (simp add: dom_def)

lemma total_card: "slices_wf lo ds \<Longrightarrow> slices_total ds = card (dom (cells ds))"
proof (induction ds arbitrary: lo rule: slices_total.induct)
  case (2 k d ds)
  have wf: "slices_wf (k + length (di_data d)) ds" using "2.prems" by simp
  have "{k ..< k + length (di_data d)} \<inter> dom (cells ds) = {}"
    using cells_below [OF wf] by (force simp: dom_def)
  then have "card ({k ..< k + length (di_data d)} \<union> dom (cells ds)) = length (di_data d) + card (dom (cells ds))"
    by (subst card_Un_disjoint) (simp_all add: finite_dom_cells)
  then show ?case unfolding dom_cells_Cons [OF "2.prems"] using "2.IH" [OF wf] by simp
qed (simp add: dom_def)

section \<open>The needed area\<close>

text \<open>
  The accumulating loop is this recursion on the overlap ranges; what it returns are the parts of
  the interval that no stored slice covers.
\<close>

fun gaps :: "nat \<Rightarrow> Range list \<Rightarrow> nat \<Rightarrow> Range list" where
  "gaps end [] p = (if p < end then [\<lparr>rg_begin = p, rg_end = end\<rparr>] else [])"
| "gaps end (u # us) p =
     (if p < rg_begin u then \<lparr>rg_begin = p, rg_end = rg_begin u\<rparr> # gaps end us (rg_end u)
      else gaps end us (rg_end u))"

definition covered :: "Range list \<Rightarrow> nat set" where
  "covered gs = (\<Union>g\<in>set gs. {rg_begin g ..< rg_end g})"

fun ranges_wf :: "nat \<Rightarrow> Range list \<Rightarrow> bool" where
  "ranges_wf lo [] = True"
| "ranges_wf lo (g # gs) = (lo \<le> rg_begin g \<and> rg_begin g < rg_end g \<and> rg_end g < two64 \<and> ranges_wf (rg_end g) gs)"

lemma covered_simps [simp]:
  "covered [] = {}" "covered (g # gs) = {rg_begin g ..< rg_end g} \<union> covered gs"
  by (simp_all add: covered_def)

lemma ranges_wf_mono: "ranges_wf lo gs \<Longrightarrow> lo' \<le> lo \<Longrightarrow> ranges_wf lo' gs"
  by (cases gs) auto

lemma covered_below: "ranges_wf lo gs \<Longrightarrow> i \<in> covered gs \<Longrightarrow> lo \<le> i"
  by (induction gs arbitrary: lo) fastforce+

lemma Range_size_wf [simp]: "b \<le> e \<Longrightarrow> e < two64 \<Longrightarrow> Range_size \<lparr>rg_begin = b, rg_end = e\<rparr> = e - b"
  by (simp add: Range_size_def)

lemma gaps_of_slices:
  assumes "slices_wf lo ds" "begin \<le> p" "p \<le> end" "end < two64" "p = begin \<or> p \<le> lo"
  shows "ranges_wf p (gaps end (unneeded_ranges begin end ds) p) \<and>
    covered (gaps end (unneeded_ranges begin end ds) p) = {i \<in> {p ..< end}. cells ds i = None}"
  using assms
proof (induction ds arbitrary: lo p)
  case Nil
  then show ?case by auto
next
  case (Cons s ds)
  obtain k d where s: "s = (k, d)" by force
  define e where "e = k + length (di_data d)"
  have wf: "slices_wf e ds" "lo \<le> k" "k < e" "DataInfo_end d = e"
    using Cons.prems(1) s unfolding e_def by auto
  consider (skip) "e \<le> begin" | (stop) "begin < e" "end \<le> k" | (overlap) "begin < e" "k < end" by linarith
  then show ?case
  proof cases
    case skip
    with Cons.prems wf have p: "p = begin" by auto
    have "{i \<in> {p ..< end}. cells (s # ds) i = None} = {i \<in> {p ..< end}. cells ds i = None}"
      using skip s p e_def by auto
    with Cons.IH [OF wf(1), of p] Cons.prems p skip s wf show ?thesis by simp
  next
    case stop
    have "slices_wf k (s # ds)" using Cons.prems(1) s by simp
    then have "cells (s # ds) i = None" if "i < end" for i
      using cells_below that stop by simp
    with stop s wf Cons.prems show ?thesis by (auto simp: Let_def)
  next
    case overlap
    define q b where "q = min end e" and "b = max begin k"
    define G where "G = gaps end (unneeded_ranges begin end ds) q"
    have b: "begin \<le> b" "k \<le> b" "b = begin \<or> b = k" and q: "q \<le> end" "q \<le> e" "q = end \<or> q = e"
      unfolding q_def b_def by linarith+
    have le: "begin \<le> q" "b \<le> q" "p \<le> q" "b < two64"
      using Cons.prems(2-5) overlap wf(2,3) b q by linarith+
    have IH: "ranges_wf q G" "covered G = {i \<in> {q ..< end}. cells ds i = None}"
      unfolding G_def using Cons.IH [OF wf(1) le(1) q(1) Cons.prems(4)] q(2) by blast+
    have here: "cells (s # ds) i = None \<longleftrightarrow> i < k \<or> (e \<le> i \<and> cells ds i = None)" for i
      using cells_below [OF wf(1), of i] wf(3) by (simp add: s e_def not_le)
    have "i \<in> {p ..< end} \<and> cells (s # ds) i = None \<longleftrightarrow>
        i \<in> {p ..< b} \<or> (i \<in> {q ..< end} \<and> cells ds i = None)" for i
    proof (cases "i < k")
      case True
      then show ?thesis unfolding here using Cons.prems(2) b q wf(3) overlap by simp linarith
    next
      case False
      then have "\<not> (p \<le> i \<and> i < b)" using Cons.prems(2) b by linarith
      moreover have "p \<le> i \<and> i < end \<and> e \<le> i \<longleftrightarrow> q \<le> i \<and> i < end" using le(3) q by auto
      ultimately show ?thesis unfolding here using False by auto
    qed
    then have split: "{i \<in> {p ..< end}. cells (s # ds) i = None} =
        {p ..< b} \<union> {i \<in> {q ..< end}. cells ds i = None}" by blast
    have "gaps end (unneeded_ranges begin end (s # ds)) p =
        (if p < b then \<lparr>rg_begin = p, rg_end = b\<rparr> # G else G)"
      using overlap wf(4) unfolding s G_def q_def b_def by (simp add: Let_def)
    then show ?thesis
      unfolding split using IH le ranges_wf_mono [OF IH(1) le(2)] ranges_wf_mono [OF IH(1) le(3)] by simp
  qed
qed

fun gap_total :: "Range list \<Rightarrow> nat" where
  "gap_total [] = 0"
| "gap_total (g # gs) = (rg_end g - rg_begin g) + gap_total gs"

lemma gap_total_bound: "ranges_wf lo gs \<Longrightarrow> lo < two64 \<Longrightarrow> lo + gap_total gs < two64"
  by (induction gs arbitrary: lo) force+

lemma needed_ranges_gaps:
  assumes "ranges_wf lo (gaps end us p)" "n + gap_total (gaps end us p) < two64" "end < two64"
  shows "needed_ranges end us p n acc = (n + gap_total (gaps end us p), acc @ gaps end us p)"
  using assms
proof (induction us arbitrary: lo p n acc)
  case Nil
  then show ?case by (auto simp: Let_def)
next
  case (Cons u us)
  show ?case
  proof (cases "p < rg_begin u")
    case True
    with Cons.prems have wf: "ranges_wf (rg_begin u) (gaps end us (rg_end u))" "rg_begin u < two64"
      and n: "n + (rg_begin u - p) + gap_total (gaps end us (rg_end u)) < two64" by simp_all
    have "add64 n (rg_begin u - p) = n + (rg_begin u - p)" using n by simp
    with True wf(2) Cons.IH [OF wf(1) n Cons.prems(3)] show ?thesis by (simp add: Let_def)
  next
    case False
    with Cons show ?thesis by (simp add: Let_def)
  qed
qed

section \<open>Insertion\<close>

lemma emplace_slice:
  assumes "slices_wf lo ds" "lo \<le> a" "di_index d = a" "di_data d \<noteq> []" "a + length (di_data d) < two64"
    and "\<forall>i\<in>{a ..< a + length (di_data d)}. cells ds i = None"
  shows "slices_wf lo (slices_emplace a d ds) \<and>
    slices_total (slices_emplace a d ds) = slices_total ds + length (di_data d) \<and>
    (\<forall>i. cells (slices_emplace a d ds) i = cells ((a, d) # ds) i)"
  using assms
proof (induction ds arbitrary: lo)
  case Nil
  then show ?case by simp
next
  case (Cons s ds)
  obtain k v where s: "s = (k, v)" by force
  define e where "e = k + length (di_data v)"
  have wf: "lo \<le> k" "k < e" "slices_wf e ds" using Cons.prems(1) s unfolding e_def by auto
  have some: "cells (s # ds) j \<noteq> None" if "k \<le> j" "j < e" for j
    using that s by (simp add: e_def)
  have "a < a + length (di_data d)" using Cons.prems(4) by simp
  then have "\<not> (k \<le> a \<and> a < e)" using Cons.prems(6) some [of a] by auto
  then consider (before) "a < k" | (after) "e \<le> a" by linarith
  then show ?case
  proof cases
    case before
    have "\<not> k < a + length (di_data d)"
      using Cons.prems(6) some [of k] wf(2) before by auto
    with before Cons.prems s show ?thesis by simp
  next
    case after
    have "\<forall>i\<in>{a ..< a + length (di_data d)}. cells ds i = None"
      using Cons.prems(6) after s e_def by simp
    note IH = Cons.IH [OF wf(3) after Cons.prems(3-5) this]
    have "slices_emplace a d (s # ds) = s # slices_emplace a d ds"
      using after wf(2) s by simp
    with IH Cons.prems(1) after s e_def show ?thesis by auto
  qed
qed

lemma insert_ranges_ok:
  assumes "slices_wf lo ds" "ranges_wf p gs" "lo \<le> p" "index \<le> p"
    and "covered gs \<subseteq> {..< index + length data}" "covered gs \<inter> dom (cells ds) = {}"
  shows "\<exists>ds'. insert_ranges data index gs ds = Inr ds' \<and> slices_wf lo ds' \<and>
    slices_total ds' = slices_total ds + gap_total gs \<and>
    (\<forall>i. cells ds' i = (if i \<in> covered gs then Some (data ! (i - index)) else cells ds i))"
  using assms
proof (induction gs arbitrary: p ds)
  case Nil
  then show ?case by simp
next
  case (Cons g gs)
  define b e where "b = rg_begin g" and "e = rg_end g"
  have g: "p \<le> b" "b < e" "e < two64" "ranges_wf e gs" using Cons.prems(2) b_def e_def by auto
  have sub: "{b ..< e} \<subseteq> {..< index + length data}" "covered gs \<subseteq> {..< index + length data}"
    using Cons.prems(5) b_def e_def by auto
  then have "e - 1 \<in> {..< index + length data}" using g(2) by (intro subsetD [OF sub(1)]) simp
  then have e: "e \<le> index + length data" using g(2) by simp
  define d where "d = \<lparr>di_data = take (e - b) (drop (b - index) data), di_index = b\<rparr>"
  have d: "length (di_data d) = e - b" "di_index d = b" using e g(1) Cons.prems(4) by (auto simp: d_def)
  have emp: "slices_wf lo (slices_emplace b d ds)"
    "slices_total (slices_emplace b d ds) = slices_total ds + (e - b)"
    "\<And>i. cells (slices_emplace b d ds) i = cells ((b, d) # ds) i"
  proof -
    have "\<forall>i\<in>{b ..< b + length (di_data d)}. cells ds i = None"
      using Cons.prems(6) d(1) b_def e_def g(2) by auto
    moreover have "di_data d \<noteq> []" using d(1) g(2) by auto
    ultimately show "slices_wf lo (slices_emplace b d ds)"
      "slices_total (slices_emplace b d ds) = slices_total ds + (e - b)"
      "\<And>i. cells (slices_emplace b d ds) i = cells ((b, d) # ds) i"
      using emplace_slice [OF Cons.prems(1), of b d] Cons.prems(3) g d by auto
  qed
  have data: "di_data d ! (i - b) = data ! (i - index)" if "b \<le> i" "i < e" for i
    using that g(1) e Cons.prems(4) by (simp add: d_def)
  have new: "cells (slices_emplace b d ds) i =
      (if b \<le> i \<and> i < e then Some (data ! (i - index)) else cells ds i)" for i
    using emp(3) [of i] d(1) data [of i] g(2) by simp
  have "covered gs \<inter> dom (cells (slices_emplace b d ds)) = {}"
    using Cons.prems(6) by (auto simp: new dom_def split: if_splits dest: covered_below [OF g(4)])
  then obtain ds' where ds': "insert_ranges data index gs (slices_emplace b d ds) = Inr ds'"
    "slices_wf lo ds'" "slices_total ds' = slices_total (slices_emplace b d ds) + gap_total gs"
    "\<And>i. cells ds' i = (if i \<in> covered gs then Some (data ! (i - index)) else cells (slices_emplace b d ds) i)"
    using Cons.IH [OF emp(1) g(4) _ _ sub(2)] Cons.prems(3,4) g by auto
  have step: "insert_ranges data index (g # gs) ds = insert_ranges data index gs (slices_emplace b d ds)"
    using g Cons.prems(4) e by (simp add: Let_def Range_size_def d_def flip: b_def e_def)
  show ?case
    unfolding step using ds'(1-3) emp(2) by (simp add: ds'(4) new flip: b_def e_def)
qed

section \<open>Discarding\<close>

text \<open>What the discarding loop leaves: the first \<open>n\<close> stored bytes.\<close>

fun keep :: "nat \<Rightarrow> slices \<Rightarrow> slices" where
  "keep n [] = []"
| "keep n ((k, d) # ds) =
     (if n = 0 then []
      else if length (di_data d) \<le> n then (k, d) # keep (n - length (di_data d)) ds
      else [(k, d\<lparr>di_data := take n (di_data d)\<rparr>)])"

definition nonempty :: "slices \<Rightarrow> bool" where
  "nonempty ds \<longleftrightarrow> (\<forall>(k, d)\<in>set ds. di_data d \<noteq> [])"

lemma nonempty_simps [simp]:
  "nonempty []" "nonempty ((k, d) # ds) \<longleftrightarrow> di_data d \<noteq> [] \<and> nonempty ds"
  "nonempty (xs @ ys) \<longleftrightarrow> nonempty xs \<and> nonempty ys"
  by (auto simp: nonempty_def)

lemma slices_wf_nonempty: "slices_wf lo ds \<Longrightarrow> nonempty ds"
  by (induction ds arbitrary: lo rule: slices_total.induct) auto

lemma keep_0 [simp]: "keep 0 ds = []"
  by (cases "(0::nat, ds)" rule: keep.cases) auto

lemma keep_all: "slices_total ds \<le> n \<Longrightarrow> nonempty ds \<Longrightarrow> keep n ds = ds"
  by (induction n ds rule: keep.induct) (auto intro: Nat.gr0I)

lemma keep_append:
  "nonempty xs \<Longrightarrow> keep n (xs @ ys) = (if n \<le> slices_total xs then keep n xs else xs @ keep (n - slices_total xs) ys)"
  by (induction n xs rule: keep.induct) (auto simp: keep_all)

lemma discard_exceeded_keep:
  assumes "nonempty ds" "x \<le> slices_total ds" "x \<le> n" "n < two64" "slices_total ds < two64" "0 < x"
  shows "discard_exceeded x n (rev ds) = (0, n - x, rev (keep (slices_total ds - x) ds))"
  using assms
proof (induction ds arbitrary: x n rule: rev_induct)
  case Nil
  then show ?case by simp
next
  case (snoc s ds)
  obtain k d where s: "s = (k, d)" by force
  define m where "m = length (di_data d)"
  have m: "0 < m" "slices_total (ds @ [s]) = slices_total ds + m" "nonempty ds"
    using snoc.prems(1) s by (simp_all add: m_def)
  have bounds: "x < two64" "m < two64" "slices_total ds < two64" using snoc.prems m by linarith+
  show ?case
  proof (cases "x < m")
    case True
    then have "\<not> slices_total ds + m - x \<le> slices_total ds" "slices_total ds + m - x - slices_total ds = m - x"
      by linarith+
    then have "keep (slices_total ds + m - x) (ds @ [s]) = ds @ [(k, d\<lparr>di_data := take (m - x) (di_data d)\<rparr>)]"
      using True m snoc.prems(6) s by (simp add: keep_append m_def)
    then show ?thesis using True snoc.prems bounds s m(2) by (simp add: DataInfo_size_def Let_def flip: m_def)
  next
    case False
    have kp: "keep (slices_total ds + m - x) (ds @ [s]) = keep (slices_total ds - (x - m)) ds"
    proof -
      have "slices_total ds + m - x \<le> slices_total ds" "slices_total ds - (x - m) = slices_total ds + m - x"
        using False snoc.prems(2) m(2) by linarith+
      then show ?thesis using m(3) by (simp add: keep_append)
    qed
    have step: "discard_exceeded x n (rev (ds @ [s])) =
        (if x - m = 0 then (0, n - m, rev ds) else discard_exceeded (x - m) (n - m) (rev ds))"
      using False snoc.prems(3,4) bounds s by (simp add: DataInfo_size_def Let_def flip: m_def)
    show ?thesis
    proof (cases "x = m")
      case True
      then show ?thesis unfolding step m(2) kp by (simp add: keep_all m(3))
    next
      case neq: False
      have "discard_exceeded (x - m) (n - m) (rev ds) = (0, n - m - (x - m), rev (keep (slices_total ds - (x - m)) ds))"
        by (rule snoc.IH) (use m snoc.prems bounds False neq in linarith)+
      then show ?thesis unfolding step m(2) kp using False neq by simp
    qed
  qed
qed

lemma wf_total_bound: "slices_wf lo ds \<Longrightarrow> lo < two64 \<Longrightarrow> lo + slices_total ds < two64"
  by (induction ds arbitrary: lo rule: slices_total.induct) force+

lemma keep_wf: "slices_wf lo ds \<Longrightarrow> slices_wf lo (keep n ds)"
  by (induction n ds arbitrary: lo rule: keep.induct) auto

lemma keep_total: "slices_total (keep n ds) = min n (slices_total ds)"
  by (induction n ds rule: keep.induct) auto

lemma keep_cells_sub: "cells (keep n ds) i = Some b \<Longrightarrow> slices_wf lo ds \<Longrightarrow> cells ds i = Some b"
proof (induction n ds arbitrary: lo rule: keep.induct)
  case (2 n k d ds)
  then show ?case by (auto split: if_splits)
qed simp

text \<open>An initial run of stored bytes survives as far as there is room for it.\<close>

lemma keep_prefix:
  assumes "slices_wf lo ds" "\<forall>i\<in>{lo ..< hi}. cells ds i \<noteq> None" "hi \<le> lo + n"
  shows "\<forall>i\<in>{lo ..< hi}. cells (keep n ds) i \<noteq> None"
  using assms
proof (induction n ds arbitrary: lo rule: keep.induct)
  case (2 n k d ds)
  define e where "e = k + length (di_data d)"
  show ?case
  proof (cases "lo < hi")
    case True
    have wf: "slices_wf e ds" "lo \<le> k" "k < e" using "2.prems"(1) e_def by auto
    have "cells ((k, d) # ds) lo \<noteq> None" using "2.prems"(2) True by simp
    then have k: "k = lo" using cells_below [OF wf(1), of lo] wf by (auto split: if_splits)
    show ?thesis
    proof (cases "length (di_data d) \<le> n")
      case fits: True
      have "\<forall>i\<in>{e ..< hi}. cells ds i \<noteq> None"
      proof
        fix i assume "i \<in> {e ..< hi}"
        then show "cells ds i \<noteq> None" using bspec [OF "2.prems"(2), of i] wf k e_def by simp
      qed
      moreover have "hi \<le> e + (n - length (di_data d))" using "2.prems"(3) fits e_def k by simp
      ultimately have "\<forall>i\<in>{e ..< hi}. cells (keep (n - length (di_data d)) ds) i \<noteq> None"
        using "2.IH" [of e] wf(1) fits "2.prems"(3) True by auto
      then show ?thesis using fits True "2.prems"(3) k e_def by auto
    next
      case False
      then show ?thesis using True "2.prems"(3) k by auto
    qed
  qed simp
qed simp

end
