(* ===== verification/Reassembly.thy ===== *)
theory Reassembly
  imports Stream_Reassembler
begin

text \<open>
  The correctness of \<open>StreamReassembler\<close>: the invariant relative to the stream the substrings come
  from, what \<open>reassemble\<close>, \<open>insert_without_overlap\<close> and \<open>push_substring\<close> do under it, and the
  properties of whole histories of pushes and reads.
\<close>

section \<open>The invariant\<close>

text \<open>
  The stream the substrings come from is \<open>S\<close>. What is stored and what was written are bytes of
  \<open>S\<close> at their places. \<open>sr_weak\<close> allows the end of the input to be still unmarked; \<open>sr_pre\<close>
  does not; \<open>sr_inv\<close>, between calls, has the next byte not stored.
\<close>

definition genuine :: "bytes \<Rightarrow> bytes \<Rightarrow> size_t \<Rightarrow> bool \<Rightarrow> bool" where
  "genuine S data index eof \<longleftrightarrow>
     index + length data \<le> length S \<and> data = take (length data) (drop index S) \<and>
     (eof \<longrightarrow> index + length data = length S)"

definition agrees :: "bytes \<Rightarrow> slices \<Rightarrow> bool" where
  "agrees S ds \<longleftrightarrow> (\<forall>i b. cells ds i = Some b \<longrightarrow> i < length S \<and> b = S ! i)"

definition output_is :: "bytes \<Rightarrow> size_t \<Rightarrow> ByteStream \<Rightarrow> bool" where
  "output_is S n out \<longleftrightarrow>
     bs_inv out \<and> n \<le> length S \<and> length S < two64 \<and> bs_bytes_written out = n \<and>
     bs_bytes_read out \<le> n \<and> bs_contents out = drop (bs_bytes_read out) (take n S)"

definition sr_base :: "bytes \<Rightarrow> StreamReassembler \<Rightarrow> bool" where
  "sr_base S r \<longleftrightarrow>
     output_is S (sr_next_index r) (sr_output r) \<and> bs_capacity (sr_output r) = sr_capacity r \<and>
     slices_wf (sr_next_index r) (sr_datas r) \<and> agrees S (sr_datas r) \<and>
     sr_unasm_bytes r = slices_total (sr_datas r) \<and>
     slices_total (sr_datas r) + length (bs_contents (sr_output r)) \<le> sr_capacity r \<and>
     (sr_eof r \<longrightarrow> sr_eof_index r = length S)"

definition sr_weak :: "bytes \<Rightarrow> StreamReassembler \<Rightarrow> bool" where
  "sr_weak S r \<longleftrightarrow> sr_base S r \<and>
     (bs_input_ended (sr_output r) \<longrightarrow> sr_eof r \<and> sr_next_index r = length S)"

definition sr_pre :: "bytes \<Rightarrow> StreamReassembler \<Rightarrow> bool" where
  "sr_pre S r \<longleftrightarrow> sr_base S r \<and>
     (bs_input_ended (sr_output r) \<longleftrightarrow> sr_eof r \<and> sr_next_index r = length S)"

definition sr_inv :: "bytes \<Rightarrow> StreamReassembler \<Rightarrow> bool" where
  "sr_inv S r \<longleftrightarrow> sr_pre S r \<and> cells (sr_datas r) (sr_next_index r) = None"

text \<open>What no operation of the class changes, and what reading does not touch.\<close>

definition same_reader :: "StreamReassembler \<Rightarrow> StreamReassembler \<Rightarrow> bool" where
  "same_reader r r' \<longleftrightarrow> sr_capacity r' = sr_capacity r \<and>
     bs_bytes_read (sr_output r') = bs_bytes_read (sr_output r) \<and>
     bs_error (sr_output r') = bs_error (sr_output r)"

lemma same_reader_refl [simp]: "same_reader r r"
  by (simp add: same_reader_def)

lemma same_reader_trans: "same_reader r r' \<Longrightarrow> same_reader r' r'' \<Longrightarrow> same_reader r r''"
  by (simp add: same_reader_def)

lemma weak_bounds:
  assumes "sr_weak S r"
  shows "bs_inv (sr_output r)" "sr_capacity r < two63" "sr_next_index r \<le> length S" "length S < two64"
    "slices_total (sr_datas r) + length (bs_contents (sr_output r)) \<le> sr_capacity r"
    "0 < sr_capacity r"
  using assms bs_bounds [of "sr_output r"] unfolding sr_weak_def sr_base_def output_is_def by auto

lemma pre_slices:
  assumes "sr_pre S r"
  shows "slices_wf (sr_next_index r) (sr_datas r)" "agrees S (sr_datas r)"
    "sr_unasm_bytes r = slices_total (sr_datas r)" "sr_weak S r"
  using assms unfolding sr_pre_def sr_weak_def sr_base_def by blast+

lemma check_eof_ok:
  assumes "sr_weak S r"
  shows "\<exists>out. check_eof r = Inr (r\<lparr>sr_output := out\<rparr>) \<and> sr_pre S (r\<lparr>sr_output := out\<rparr>) \<and>
    bs_contents out = bs_contents (sr_output r) \<and> same_reader r (r\<lparr>sr_output := out\<rparr>)"
proof (cases "sr_eof r \<and> sr_next_index r = sr_eof_index r")
  case True
  obtain out where out: "ByteStream_end_input (sr_output r) = Inr out" "bs_inv out"
    "abs_step (bs_abs (sr_output r)) EndInput = (Done, bs_abs out)"
    using end_input_ok weak_bounds(1) [OF assms] by blast
  then have "bs_abs out = (bs_abs (sr_output r))\<lparr>as_ended := True\<rparr>" by simp
  then have fields: "bs_contents out = bs_contents (sr_output r)" "bs_capacity out = bs_capacity (sr_output r)"
    "bs_bytes_written out = bs_bytes_written (sr_output r)" "bs_bytes_read out = bs_bytes_read (sr_output r)"
    "bs_input_ended out" "bs_error out = bs_error (sr_output r)"
    by (simp_all add: bs_abs_def)
  have "check_eof r = Inr (r\<lparr>sr_output := out\<rparr>)" using True out by (simp add: check_eof_def)
  moreover have "sr_pre S (r\<lparr>sr_output := out\<rparr>)"
    using assms True out(2) fields unfolding sr_pre_def sr_weak_def sr_base_def output_is_def by auto
  ultimately show ?thesis using fields by (auto simp: same_reader_def)
next
  case False
  then have "check_eof r = Inr r" by (auto simp: check_eof_def)
  moreover have "sr_pre S r" using assms False unfolding sr_pre_def sr_weak_def sr_base_def by auto
  ultimately show ?thesis by (intro exI [of _ "sr_output r"]) simp
qed

lemma check_eof_datas:
  "check_eof (r\<lparr>sr_datas := ds\<rparr>) = and_then (check_eof r) (\<lambda>r'. Inr (r'\<lparr>sr_datas := ds\<rparr>))"
  by (cases "ByteStream_end_input (sr_output r)") (simp_all add: check_eof_def)

text \<open>Writing the bytes that follow in \<open>S\<close> keeps the output a window of \<open>S\<close>.\<close>

lemma write_some:
  assumes "output_is S n out" "\<not> bs_input_ended out" "d = take (length d) (drop n S)"
    and m: "m = min (length d) (bs_capacity out - length (bs_contents out))"
  shows "\<exists>out'. ByteStream_write out d = Inr (m, out') \<and> output_is S (n + m) out' \<and>
    bs_contents out' = bs_contents out @ take m d \<and> bs_capacity out' = bs_capacity out \<and>
    bs_bytes_read out' = bs_bytes_read out \<and> bs_input_ended out' = bs_input_ended out \<and>
    bs_error out' = bs_error out"
proof -
  have inv: "bs_inv out" "n \<le> length S" using assms(1) by (simp_all add: output_is_def)
  have room: "min (length d) (abs_room (bs_abs out)) = m" by (simp add: abs_room_def m)
  have le: "m \<le> length d" "n + length d \<le> length S" using arg_cong [OF assms(3), of length] inv(2) m by simp_all
  obtain out' where out': "ByteStream_write out d = Inr (m, out')" "bs_inv out'"
    "abs_step (bs_abs out) (Write d) = (Accepted m, bs_abs out')"
    using write_ok [OF inv(1) assms(2), of d] unfolding room by blast
  from out'(3) room have "bs_abs out' = (bs_abs out)\<lparr>as_contents := bs_contents out @ take m d,
      as_written := add64 (bs_bytes_written out) m\<rparr>" by (simp add: Let_def)
  then have fields: "bs_contents out' = bs_contents out @ take m d" "bs_capacity out' = bs_capacity out"
    "bs_bytes_written out' = add64 (bs_bytes_written out) m" "bs_bytes_read out' = bs_bytes_read out"
    "bs_input_ended out' = bs_input_ended out" "bs_error out' = bs_error out"
    by (simp_all add: bs_abs_def)
  have "take m d = take m (drop n S)" by (subst assms(3)) (simp add: min_absorb1 le(1))
  then have "take (n + m) S = take n S @ take m d" by (simp add: take_add)
  then have "output_is S (n + m) out'"
    using assms(1) le out'(2) fields unfolding output_is_def by simp
  then show ?thesis using out'(1) fields by blast
qed

lemma write_window:
  assumes "output_is S n out" "\<not> bs_input_ended out" "n + length d \<le> length S"
    "d = take (length d) (drop n S)" "length (bs_contents out) + length d \<le> bs_capacity out"
  shows "\<exists>out'. ByteStream_write out d = Inr (length d, out') \<and> output_is S (n + length d) out' \<and>
    bs_contents out' = bs_contents out @ d \<and> bs_capacity out' = bs_capacity out \<and>
    bs_bytes_read out' = bs_bytes_read out \<and> bs_input_ended out' = bs_input_ended out \<and>
    bs_error out' = bs_error out"
proof -
  have "length d = min (length d) (bs_capacity out - length (bs_contents out))" using assms(5) by simp
  from write_some [OF assms(1,2,4) this] show ?thesis by simp
qed

section \<open>Reassembly\<close>

lemma agrees_head:
  assumes "agrees S ((k, d) # ds)" "di_data d \<noteq> []"
  shows "k + length (di_data d) \<le> length S" "di_data d = take (length (di_data d)) (drop k S)"
proof -
  have at: "k + j < length S \<and> di_data d ! j = S ! (k + j)" if "j < length (di_data d)" for j
    using assms(1) that unfolding agrees_def by (elim allE [of _ "k + j"] allE [of _ "di_data d ! j"]) simp
  show "k + length (di_data d) \<le> length S"
    using at [of "length (di_data d) - 1"] assms(2) by (cases "di_data d") auto
  with at show "di_data d = take (length (di_data d)) (drop k S)"
    by (intro nth_equalityI) auto
qed

lemma agrees_tail: "agrees S ((k, d) # ds) \<Longrightarrow> slices_wf lo ((k, d) # ds) \<Longrightarrow> agrees S ds"
  unfolding agrees_def using cells_below [of "k + length (di_data d)" ds]
  by (metis cells.simps(2) option.distinct(1) slices_wf.simps(2))

text \<open>
  The loop writes exactly the stored bytes that follow without a gap. Its branch for a slice that
  does not fit the output is never taken: the capacity bounds stored and buffered bytes together.
\<close>

lemma write_first_slice:
  assumes pre: "sr_pre S r" and ds: "sr_datas r = (k, d) # ds" and k: "k = sr_next_index r"
  shows "\<exists>r'. reassemble_loop ((k, d) # ds) r = reassemble_loop ds r' \<and> sr_pre S r' \<and> sr_datas r' = ds \<and>
    sr_next_index r' = k + length (di_data d) \<and> sr_eof r' = sr_eof r \<and> same_reader r r'"
proof -
  define m where "m = length (di_data d)"
  have weak: "sr_weak S r" using pre by (rule pre_slices(4))
  have wf: "slices_wf k ((k, d) # ds)" and agr: "agrees S ((k, d) # ds)"
    using weak ds k by (simp_all add: sr_weak_def sr_base_def)
  have m: "0 < m" using wf by (simp add: m_def)
  have fits: "k + m \<le> length S" "di_data d = take m (drop k S)"
    using agrees_head [OF agr] wf unfolding m_def by simp_all
  have room: "length (bs_contents (sr_output r)) + m \<le> bs_capacity (sr_output r)"
    "sr_unasm_bytes r = m + slices_total ds" "output_is S k (sr_output r)"
    "\<not> bs_input_ended (sr_output r)" "sr_capacity r = bs_capacity (sr_output r)"
    using weak ds fits(1) m k unfolding sr_weak_def sr_base_def m_def by auto
  note bnd = weak_bounds [OF weak]
  obtain out where out: "ByteStream_write (sr_output r) (di_data d) = Inr (m, out)"
    "output_is S (k + m) out" "bs_contents out = bs_contents (sr_output r) @ di_data d"
    "bs_capacity out = bs_capacity (sr_output r)" "bs_bytes_read out = bs_bytes_read (sr_output r)"
    "\<not> bs_input_ended out" "bs_error out = bs_error (sr_output r)"
    using write_window [OF room(3,4), of "di_data d"] fits room(1,4) unfolding m_def by blast
  define r1 where "r1 = r\<lparr>sr_output := out, sr_unasm_bytes := slices_total ds, sr_next_index := k + m\<rparr>"
  have "sr_weak S (r1\<lparr>sr_datas := ds\<rparr>)"
    using weak wf agrees_tail [OF agr wf] out ds
    unfolding sr_weak_def sr_base_def r1_def by (simp add: m_def)
  from check_eof_ok [OF this] obtain out1 where
    c: "check_eof (r1\<lparr>sr_datas := ds\<rparr>) = Inr (r1\<lparr>sr_datas := ds, sr_output := out1\<rparr>)"
    "sr_pre S (r1\<lparr>sr_datas := ds, sr_output := out1\<rparr>)"
    "same_reader (r1\<lparr>sr_datas := ds\<rparr>) (r1\<lparr>sr_datas := ds, sr_output := out1\<rparr>)" by blast
  define r2 where "r2 = r1\<lparr>sr_datas := ds, sr_output := out1\<rparr>"
  obtain r' where r': "check_eof r1 = Inr r'" "r'\<lparr>sr_datas := ds\<rparr> = r2"
    using c(1) unfolding check_eof_datas r2_def and_then_Inr_iff by blast
  have nat: "sub64 (sr_unasm_bytes r) m = slices_total ds" "add64 k m = k + m"
    "m \<le> bs_capacity (sr_output r) - length (bs_contents (sr_output r))"
    using room(1,2) bnd(2,4,5) fits(1) ds unfolding room(5) by (simp_all add: m_def)
  have "reassemble_loop ((k, d) # ds) r = reassemble_loop ds r2"
    using bnd(1) out(1) r' nat k [symmetric]
    by (simp add: DataInfo_size_def Let_def r1_def m_def [symmetric])
  moreover have "same_reader r r2" using c(3) out(5,7) unfolding same_reader_def r1_def r2_def by simp
  ultimately show ?thesis using c(2) unfolding r2_def r1_def m_def
    by (intro exI [of _ r2]) (simp add: r2_def r1_def m_def)
qed

lemma reassemble_loop_ok:
  assumes "sr_pre S r" "sr_datas r = ds"
  shows "\<exists>r'. reassemble_loop ds r = Inr r' \<and> sr_inv S r' \<and> same_reader r r' \<and>
    sr_next_index r \<le> sr_next_index r' \<and> sr_eof r' = sr_eof r \<and>
    (\<forall>i\<in>{sr_next_index r ..< sr_next_index r'}. cells ds i \<noteq> None) \<and>
    (\<forall>i\<ge>sr_next_index r'. cells (sr_datas r') i = cells ds i)"
  using assms
proof (induction ds arbitrary: r)
  case Nil
  then show ?case by (simp add: sr_inv_def)
next
  case (Cons s ds)
  obtain k d where s: "s = (k, d)" by force
  define n m where "n = sr_next_index r" and "m = length (di_data d)"
  have wf: "slices_wf n ((k, d) # ds)"
    using pre_slices(1) [OF Cons.prems(1)] unfolding Cons.prems(2) s n_def .
  show ?case
  proof (cases "k = n")
    case False
    then have "cells (s # ds) n = None"
      using wf cells_below [of "k + m" ds n] s by (simp add: m_def)
    with False s Cons.prems show ?thesis by (simp add: sr_inv_def n_def)
  next
    case True
    obtain r2 where loop: "reassemble_loop (s # ds) r = reassemble_loop ds r2" and
      pre: "sr_pre S r2" "sr_datas r2 = ds" "sr_next_index r2 = n + m" "sr_eof r2 = sr_eof r"
      "same_reader r r2"
      using write_first_slice [OF Cons.prems(1), of k d ds] Cons.prems(2) True s
      unfolding n_def m_def by blast
    obtain r' where r': "reassemble_loop ds r2 = Inr r'" "sr_inv S r'" "same_reader r2 r'"
      "n + m \<le> sr_next_index r'" "sr_eof r' = sr_eof r"
      "\<forall>i\<in>{n + m ..< sr_next_index r'}. cells ds i \<noteq> None"
      "\<forall>i\<ge>sr_next_index r'. cells (sr_datas r') i = cells ds i"
      using Cons.IH [OF pre(1,2)] unfolding pre(3,4) by blast
    have "\<forall>i\<in>{n ..< sr_next_index r'}. cells (s # ds) i \<noteq> None"
      using r'(6) True unfolding s m_def by (metis atLeastLessThan_iff cells.simps(2) not_le option.distinct(1))
    moreover have "\<forall>i\<ge>sr_next_index r'. cells (sr_datas r') i = cells (s # ds) i"
      using r'(4,7) True unfolding s m_def by auto
    moreover have "n \<le> sr_next_index r'" using r'(4) by simp
    ultimately show ?thesis unfolding loop n_def [symmetric]
      using r'(1,2,5) same_reader_trans [OF pre(5) r'(3)] by (intro exI [of _ r'] conjI)
  qed
qed

lemma reassemble_ok:
  assumes "sr_pre S r"
  shows "\<exists>r'. reassemble r = Inr r' \<and> sr_inv S r' \<and> same_reader r r' \<and>
    sr_next_index r \<le> sr_next_index r' \<and> sr_eof r' = sr_eof r \<and>
    (\<forall>i\<in>{sr_next_index r ..< sr_next_index r'}. cells (sr_datas r) i \<noteq> None) \<and>
    (\<forall>i\<ge>sr_next_index r'. cells (sr_datas r') i = cells (sr_datas r) i)"
proof -
  obtain out where c: "check_eof r = Inr (r\<lparr>sr_output := out\<rparr>)" "sr_pre S (r\<lparr>sr_output := out\<rparr>)"
    "same_reader r (r\<lparr>sr_output := out\<rparr>)"
    using check_eof_ok [OF pre_slices(4) [OF assms]] by blast
  define r1 where "r1 = r\<lparr>sr_output := out\<rparr>"
  have r1: "sr_pre S r1" "same_reader r r1" "sr_next_index r1 = sr_next_index r" "sr_eof r1 = sr_eof r"
    "sr_datas r1 = sr_datas r"
    using c unfolding r1_def by simp_all
  have "reassemble r = reassemble_loop (sr_datas r) r1"
  proof (cases "sr_datas r")
    case Nil
    then show ?thesis using c(1) r1(5) unfolding reassemble_def r1_def by simp
  next
    case (Cons s ds)
    obtain k d where s: "s = (k, d)" by force
    have "sr_next_index r \<le> k" using pre_slices(1) [OF assms] unfolding Cons s by simp
    then show ?thesis using c(1) r1 Cons s unfolding reassemble_def r1_def by simp
  qed
  moreover obtain r' where "reassemble_loop (sr_datas r) r1 = Inr r'" "sr_inv S r'" "same_reader r1 r'"
    "sr_next_index r \<le> sr_next_index r'" "sr_eof r' = sr_eof r"
    "\<forall>i\<in>{sr_next_index r ..< sr_next_index r'}. cells (sr_datas r) i \<noteq> None"
    "\<forall>i\<ge>sr_next_index r'. cells (sr_datas r') i = cells (sr_datas r) i"
    using reassemble_loop_ok [OF r1(1,5)] unfolding r1(3,4) by blast
  ultimately show ?thesis using same_reader_trans [OF r1(2)] by (intro exI [of _ r'] conjI) simp_all
qed

section \<open>Storing a substring\<close>

definition sr_room :: "StreamReassembler \<Rightarrow> nat" where
  "sr_room r = sr_capacity r - length (bs_contents (sr_output r))"

text \<open>The stored bytes with the new ones added; a byte that is stored already stays as it is.\<close>

definition merges :: "StreamReassembler \<Rightarrow> bytes \<Rightarrow> size_t \<Rightarrow> slices \<Rightarrow> bool" where
  "merges r data index full \<longleftrightarrow> slices_wf (sr_next_index r) full \<and>
     (\<forall>i. cells full i = (if index \<le> i \<and> i < index + length data \<and> cells (sr_datas r) i = None
                           then Some (data ! (i - index)) else cells (sr_datas r) i))"

lemma merges_agrees:
  assumes "merges r data index full" "agrees S (sr_datas r)"
    "index + length data \<le> length S" "data = take (length data) (drop index S)"
  shows "agrees S full"
proof -
  have at: "data ! (i - index) = S ! i" if "index \<le> i" "i < index + length data" for i
  proof -
    have "data ! (i - index) = take (length data) (drop index S) ! (i - index)"
      by (rule arg_cong [OF assms(4)])
    also have "\<dots> = S ! i" using that assms(3) by simp
    finally show ?thesis .
  qed
  show ?thesis
    unfolding agrees_def
  proof (intro allI impI)
    fix i b
    assume some: "cells full i = Some b"
    have "cells full i = (if index \<le> i \<and> i < index + length data \<and> cells (sr_datas r) i = None
        then Some (data ! (i - index)) else cells (sr_datas r) i)"
      using assms(1) unfolding merges_def by blast
    with some consider "index \<le> i" "i < index + length data" "b = data ! (i - index)" | "cells (sr_datas r) i = Some b"
      by (metis option.inject)
    then show "i < length S \<and> b = S ! i"
      using at assms(2,3) unfolding agrees_def by cases auto
  qed
qed

lemma agrees_keep: "agrees S ds \<Longrightarrow> slices_wf lo ds \<Longrightarrow> agrees S (keep n ds)"
  unfolding agrees_def using keep_cells_sub by blast

text \<open>The first three loops merge the substring into the stored slices and count the new bytes.\<close>

lemma insertion_merges:
  assumes pre: "sr_pre S r" and le: "sr_next_index r \<le> index" and fits: "index + length data < two64"
    and nr: "needed_ranges (index + length data) (unneeded_ranges index (index + length data) (sr_datas r)) index 0 []
      = (n, needed)"
  shows "\<exists>full. insert_ranges data index needed (sr_datas r) = Inr full \<and> merges r data index full \<and>
    slices_total full = slices_total (sr_datas r) + n"
proof -
  define e where "e = index + length data"
  define G where "G = gaps e (unneeded_ranges index e (sr_datas r)) index"
  note wf = pre_slices(1) [OF pre]
  have G: "ranges_wf index G" "covered G = {i \<in> {index ..< e}. cells (sr_datas r) i = None}"
    unfolding G_def using gaps_of_slices [OF wf, of index index e] fits by (simp_all add: e_def)
  have "index + gap_total G < two64" using gap_total_bound [OF G(1)] fits by linarith
  then have "needed_ranges e (unneeded_ranges index e (sr_datas r)) index 0 [] = (gap_total G, G)"
    using needed_ranges_gaps [of index e _ index 0 "[]"] G(1) fits unfolding G_def e_def by simp
  with nr have n: "n = gap_total G" "needed = G" unfolding e_def by auto
  have "covered G \<subseteq> {..< index + length data}" "covered G \<inter> dom (cells (sr_datas r)) = {}"
    unfolding G(2) e_def by auto
  from insert_ranges_ok [OF wf G(1) le order_refl this]
  obtain full where full: "insert_ranges data index G (sr_datas r) = Inr full" "slices_wf (sr_next_index r) full"
    "slices_total full = slices_total (sr_datas r) + gap_total G"
    "\<And>i. cells full i = (if i \<in> covered G then Some (data ! (i - index)) else cells (sr_datas r) i)"
    by blast
  have "merges r data index full"
    unfolding merges_def using full(2,4) G(2) e_def by simp
  then show ?thesis using full(1,3) n by blast
qed

lemma discard_to_room:
  assumes "slices_wf lo full" "lo < two64" "slices_total full = u + n"
  shows "(if n > mem then (case discard_exceeded (sub64 n mem) n (rev full) of (x, n', l) \<Rightarrow> (x, n', rev l))
      else (0, n, full)) = (0, min mem n, keep (u + mem) full)"
proof (cases "n > mem")
  case True
  note ne = slices_wf_nonempty [OF assms(1)]
  have tot: "slices_total full < two64" using wf_total_bound [OF assms(1,2)] by linarith
  have "discard_exceeded (n - mem) n (rev full) = (0, n - (n - mem), rev (keep (slices_total full - (n - mem)) full))"
    by (rule discard_exceeded_keep [OF ne]) (use True assms(3) tot in linarith)+
  moreover have "slices_total full - (n - mem) = u + mem" "n - (n - mem) = min mem n"
    using True assms(3) by linarith+
  moreover have "sub64 n mem = n - mem" using True tot assms(3) by simp
  ultimately show ?thesis using True by simp
next
  case False
  then have "keep (u + mem) full = full"
    using assms(3) slices_wf_nonempty [OF assms(1)] by (intro keep_all) linarith+
  then show ?thesis using False by (simp add: min_def)
qed

lemma pre_replace_slices:
  assumes "sr_pre S r" "slices_wf (sr_next_index r) ds" "agrees S ds" "n = slices_total ds"
    "slices_total ds + length (bs_contents (sr_output r)) \<le> sr_capacity r"
  shows "sr_pre S (r\<lparr>sr_datas := ds, sr_unasm_bytes := n\<rparr>)"
  using assms unfolding sr_pre_def sr_weak_def sr_base_def by simp

lemma insert_without_overlap_ok:
  assumes pre: "sr_pre S r" and le: "sr_next_index r \<le> index"
    and gen: "index + length data \<le> length S" "data = take (length data) (drop index S)"
  shows "\<exists>full r'. insert_without_overlap r data index = Inr r' \<and> merges r data index full \<and>
    r' = r\<lparr>sr_datas := keep (sr_room r) full, sr_unasm_bytes := slices_total (keep (sr_room r) full)\<rparr> \<and>
    sr_pre S r'"
proof -
  note bnd = weak_bounds [OF pre_slices(4) [OF pre]]
  define u c where "u = slices_total (sr_datas r)" and "c = length (bs_contents (sr_output r))"
  obtain n needed where nr: "needed_ranges (index + length data)
      (unneeded_ranges index (index + length data) (sr_datas r)) index 0 [] = (n, needed)" by force
  have lt: "index + length data < two64" using gen bnd(4) by linarith
  obtain full where full: "insert_ranges data index needed (sr_datas r) = Inr full"
    "merges r data index full" "slices_total full = u + n"
    using insertion_merges [OF pre le lt nr] unfolding u_def by blast
  have wf: "slices_wf (sr_next_index r) full" using full(2) unfolding merges_def by blast
  define mem where "mem = sr_capacity r - (u + c)"
  have cap: "u + c \<le> sr_capacity r" "sr_capacity r < two64" using bnd(2,5) unfolding u_def c_def by linarith+
  have un: "sr_unasm_bytes r = u" using pre_slices(3) [OF pre] unfolding u_def .
  have size: "ByteStream_buffer_size (sr_output r) = Inr c" unfolding c_def using bnd(1) by simp
  have mem: "remaining_memory r = Inr mem"
    unfolding remaining_memory_def bytes_in_memory_def mem_def using cap un size by simp
  have room: "sr_room r = u + mem" unfolding sr_room_def mem_def c_def [symmetric] using cap(1) by linarith
  define kept where "kept = keep (sr_room r) full"
  have kt: "slices_total kept = u + min mem n" unfolding kept_def keep_total room full(3) by linarith
  have le_cap: "u + min mem n + c \<le> sr_capacity r" using cap unfolding mem_def by linarith
  define r' where "r' = r\<lparr>sr_datas := kept, sr_unasm_bytes := u + min mem n\<rparr>"
  have left: "(if n > mem then (case discard_exceeded (sub64 n mem) n (rev full) of (x, n', l) \<Rightarrow> (x, n', rev l))
      else (0, n, full)) = (0, min mem n, kept)"
    unfolding kept_def room by (rule discard_to_room [OF wf _ full(3)]) (use bnd(3,4) in linarith)
  have sums: "add64 index (length data) = index + length data" "add64 u (min mem n) = u + min mem n"
    "add64 (u + min mem n) c = u + min mem n + c"
    using lt le_cap cap(2) by simp_all
  have "insert_without_overlap r data index = Inr r'"
    unfolding insert_without_overlap_def Let_def sums(1) nr prod.case full(1) and_then.simps mem left
      un sums(2) bytes_in_memory_def
    using le size sums(3) le_cap by (simp add: r'_def)
  moreover have "sr_pre S r'"
    unfolding r'_def kept_def
    by (rule pre_replace_slices [OF pre keep_wf [OF wf]])
      (use agrees_keep [OF merges_agrees [OF full(2) pre_slices(2) [OF pre] gen] wf] kt le_cap
        in \<open>simp_all add: kept_def c_def\<close>)
  ultimately show ?thesis using full(2) kt unfolding r'_def kept_def by metis
qed

section \<open>Pushing a substring\<close>

text \<open>\<open>held r i\<close>: the byte at stream position \<open>i\<close> has been written to the output or is stored.\<close>

definition held :: "StreamReassembler \<Rightarrow> nat \<Rightarrow> bool" where
  "held r i \<longleftrightarrow> i < sr_next_index r \<or> cells (sr_datas r) i \<noteq> None"

definition new_positions :: "StreamReassembler \<Rightarrow> bytes \<Rightarrow> size_t \<Rightarrow> nat set" where
  "new_positions r data index = {i. index \<le> i \<and> i < index + length data \<and> \<not> held r i}"

text \<open>What a push does to the state, with what is dropped for lack of room in \<open>keep\<close>.\<close>

definition pushed :: "StreamReassembler \<Rightarrow> bytes \<Rightarrow> size_t \<Rightarrow> StreamReassembler \<Rightarrow> bool" where
  "pushed r data index r' \<longleftrightarrow>
     (\<exists>full. slices_wf (sr_next_index r) full \<and>
        (\<forall>i. i < sr_next_index r \<or> cells full i \<noteq> None \<longleftrightarrow> held r i \<or> (index \<le> i \<and> i < index + length data)) \<and>
        (\<forall>i. held r' i \<longleftrightarrow> i < sr_next_index r \<or> cells (keep (sr_room r) full) i \<noteq> None)) \<and>
     sr_next_index r \<le> sr_next_index r'"

lemma sr_inv_simps:
  assumes "sr_inv S r"
  shows "sr_pre S r" "slices_wf (sr_next_index r) (sr_datas r)" "slices_total (sr_datas r) \<le> sr_room r"
    "\<not> held r (sr_next_index r)"
proof -
  show pre: "sr_pre S r" and "\<not> held r (sr_next_index r)"
    using assms unfolding sr_inv_def held_def by auto
  show "slices_wf (sr_next_index r) (sr_datas r)" by (rule pre_slices(1) [OF pre])
  show "slices_total (sr_datas r) \<le> sr_room r"
    using weak_bounds(5) [OF pre_slices(4) [OF pre]] unfolding sr_room_def by linarith
qed

text \<open>Nothing new: an empty substring, or one that was written already.\<close>

lemma pushed_old:
  assumes "sr_inv S r" "index + length data \<le> sr_next_index r \<or> data = []"
    "sr_next_index r' = sr_next_index r" "sr_datas r' = sr_datas r"
  shows "pushed r data index r'"
proof -
  note inv = sr_inv_simps [OF assms(1)]
  have "keep (sr_room r) (sr_datas r) = sr_datas r"
    using inv(3) slices_wf_nonempty [OF inv(2)] by (rule keep_all)
  with assms(2-4) inv(2) show ?thesis
    unfolding pushed_def held_def by (intro conjI exI [of _ "sr_datas r"]) auto
qed

lemma mark_eof_ok:
  assumes "sr_inv S r" "genuine S data index eof"
  shows "\<exists>r'. (if eof then and_then
        (if sr_eof r then assert_that (sr_eof_index r = add64 index (length data)) (Inr r)
         else Inr (r\<lparr>sr_eof := True, sr_eof_index := add64 index (length data)\<rparr>)) check_eof
      else Inr r) = Inr r' \<and> sr_inv S r' \<and> sr_next_index r' = sr_next_index r \<and> sr_datas r' = sr_datas r \<and>
      sr_room r' = sr_room r \<and> same_reader r r' \<and> sr_eof r' = (sr_eof r \<or> eof)"
proof (cases eof)
  case False
  then show ?thesis using assms(1) by simp
next
  case True
  note pre = sr_inv_simps(1) [OF assms(1)]
  have idx: "add64 index (length data) = length S"
    using assms(2) True weak_bounds(4) [OF pre_slices(4) [OF pre]] by (simp add: genuine_def)
  define r1 where "r1 = r\<lparr>sr_eof := True, sr_eof_index := length S\<rparr>"
  have weak: "sr_weak S r1" using pre unfolding r1_def sr_pre_def sr_weak_def sr_base_def by simp
  have mark: "(if sr_eof r then assert_that (sr_eof_index r = length S) (Inr r)
      else Inr (r\<lparr>sr_eof := True, sr_eof_index := length S\<rparr>)) = Inr r1"
  proof (cases "sr_eof r")
    case True
    then have "sr_eof_index r = length S" using pre unfolding sr_pre_def sr_base_def by blast
    then show ?thesis using True unfolding r1_def by (cases r) simp
  qed (simp add: r1_def)
  obtain out where c: "check_eof r1 = Inr (r1\<lparr>sr_output := out\<rparr>)" "sr_pre S (r1\<lparr>sr_output := out\<rparr>)"
    "bs_contents out = bs_contents (sr_output r1)" "same_reader r1 (r1\<lparr>sr_output := out\<rparr>)"
    using check_eof_ok [OF weak] by blast
  have "sr_inv S (r1\<lparr>sr_output := out\<rparr>)"
    using c(2) assms(1) unfolding sr_inv_def r1_def by simp
  then show ?thesis
    using True c mark unfolding idx by (simp add: r1_def sr_room_def same_reader_def)
qed

lemma push_new:
  assumes inv: "sr_inv S r" and le: "sr_next_index r \<le> begin"
    and gen: "begin + length data \<le> length S" "data = take (length data) (drop begin S)"
  shows "\<exists>r'. and_then (insert_without_overlap r data begin) reassemble = Inr r' \<and> sr_inv S r' \<and>
    pushed r data begin r' \<and> same_reader r r' \<and> sr_eof r' = sr_eof r"
proof -
  note pre = sr_inv_simps(1) [OF inv]
  obtain full where ins: "insert_without_overlap r data begin =
      Inr (r\<lparr>sr_datas := keep (sr_room r) full, sr_unasm_bytes := slices_total (keep (sr_room r) full)\<rparr>)"
    and m: "merges r data begin full"
    and pre1: "sr_pre S (r\<lparr>sr_datas := keep (sr_room r) full,
      sr_unasm_bytes := slices_total (keep (sr_room r) full)\<rparr>)"
    using insert_without_overlap_ok [OF pre le gen] by blast
  define kept where "kept = keep (sr_room r) full"
  obtain r' where r': "reassemble (r\<lparr>sr_datas := kept, sr_unasm_bytes := slices_total kept\<rparr>) = Inr r'"
    "sr_inv S r'" "same_reader r r'" "sr_next_index r \<le> sr_next_index r'" "sr_eof r' = sr_eof r"
    "\<forall>i\<in>{sr_next_index r ..< sr_next_index r'}. cells kept i \<noteq> None"
    "\<forall>i\<ge>sr_next_index r'. cells (sr_datas r') i = cells kept i"
    using reassemble_ok [OF pre1] unfolding kept_def by (auto simp: same_reader_def)
  have below: "cells (sr_datas r') i = None" if "i < sr_next_index r'" for i
    using cells_below [OF sr_inv_simps(2) [OF r'(2)] that] .
  have "held r' i \<longleftrightarrow> i < sr_next_index r \<or> cells kept i \<noteq> None" for i
    unfolding held_def using r'(4,6,7) below [of i]
    by (cases "i < sr_next_index r'"; cases "i < sr_next_index r") auto
  moreover have "i < sr_next_index r \<or> cells full i \<noteq> None \<longleftrightarrow>
      held r i \<or> (begin \<le> i \<and> i < begin + length data)" for i
    using m le unfolding merges_def held_def by (cases "cells (sr_datas r) i") auto
  ultimately have "pushed r data begin r'"
    unfolding pushed_def kept_def using m r'(4) unfolding merges_def by blast
  then show ?thesis using r'(1,2,3,5) ins unfolding kept_def by auto
qed

text \<open>A push of a genuine substring succeeds, and does what \<open>pushed\<close> says.\<close>

lemma push_substring_ok:
  assumes inv: "sr_inv S r" and gen: "genuine S data index eof"
  shows "\<exists>r'. push_substring r data index eof = Inr r' \<and> sr_inv S r' \<and> pushed r data index r' \<and>
    same_reader r r' \<and> sr_eof r' = (sr_eof r \<or> eof)"
proof -
  note bnd = weak_bounds [OF pre_slices(4) [OF sr_inv_simps(1) [OF inv]]]
  have g: "index + length data \<le> length S" "data = take (length data) (drop index S)"
    using gen unfolding genuine_def by blast+
  have e: "add64 index (length data) = index + length data" using g(1) bnd(4) by simp
  obtain r1 where r1: "(if eof then and_then
        (if sr_eof r then assert_that (sr_eof_index r = add64 index (length data)) (Inr r)
         else Inr (r\<lparr>sr_eof := True, sr_eof_index := add64 index (length data)\<rparr>)) check_eof
      else Inr r) = Inr r1" "sr_inv S r1" "sr_next_index r1 = sr_next_index r" "sr_datas r1 = sr_datas r"
    "sr_room r1 = sr_room r" "same_reader r r1" "sr_eof r1 = (sr_eof r \<or> eof)"
    using mark_eof_ok [OF inv gen] by blast
  show ?thesis
  proof (cases "data = [] \<or> index + length data \<le> sr_next_index r")
    case True
    then have "push_substring r data index eof = Inr r1"
      unfolding push_substring_def Let_def r1(1) using r1(3) e by auto
    then show ?thesis using r1 pushed_old [OF inv _ r1(3,4), of index data] True by blast
  next
    case False
    define b where "b = max index (sr_next_index r)"
    define part where "part = drop (b - index) data"
    have b: "index \<le> b" "sr_next_index r \<le> b" "b < index + length data" "b = index \<or> b = sr_next_index r"
      unfolding b_def using False by auto
    have part: "b + length part = index + length data" "part = take (length part) (drop b S)"
    proof -
      show "b + length part = index + length data" using b by (simp add: part_def)
      have "part = drop (b - index) (take (length data) (drop index S))"
        unfolding part_def by (rule arg_cong [OF g(2)])
      also have "\<dots> = take (length data - (b - index)) (drop b S)" using b(1) by (simp add: drop_take)
      also have "length data - (b - index) = length part" by (simp add: part_def)
      finally show "part = take (length part) (drop b S)" .
    qed
    obtain r' where r': "and_then (insert_without_overlap r1 part b) reassemble = Inr r'" "sr_inv S r'"
      "pushed r1 part b r'" "same_reader r1 r'" "sr_eof r' = sr_eof r1"
      using push_new [OF r1(2) _ _ part(2)] b(2) r1(3) part(1) g(1) by auto
    have "sub64 b index = b - index" "sub64 (index + length data) b = length part"
      using b part(1) g(1) bnd(4) by simp_all
    moreover have "take (length part) (drop (b - index) data) = part" by (simp add: part_def)
    ultimately have "push_substring r data index eof = Inr r'"
      unfolding push_substring_def Let_def r1(1)
      unfolding and_then.simps r1(3) e
      using False b r'(1) by (simp flip: b_def)
    moreover have "pushed r data index r'"
    proof -
      have "held r1 = held r" using r1(3,4) by (intro ext) (simp add: held_def)
      moreover have "held r i \<or> (b \<le> i \<and> i < b + length part) \<longleftrightarrow> held r i \<or> (index \<le> i \<and> i < index + length data)" for i
        using b part(1) by (auto simp: held_def)
      ultimately show ?thesis using r'(3) unfolding pushed_def r1(3,5) by simp
    qed
    ultimately show ?thesis using r' r1(7) same_reader_trans [OF r1(6) r'(4)] by auto
  qed
qed

lemma pushed_progress:
  assumes "sr_inv S r'" "pushed r data index r'" "hi \<le> sr_next_index r + sr_room r"
    and "\<And>i. i < hi \<Longrightarrow> held r i \<or> (index \<le> i \<and> i < index + length data)"
  shows "hi \<le> sr_next_index r'"
proof (rule ccontr)
  assume less: "\<not> hi \<le> sr_next_index r'"
  obtain full where full: "slices_wf (sr_next_index r) full"
    "\<And>i. i < sr_next_index r \<or> cells full i \<noteq> None \<longleftrightarrow> held r i \<or> (index \<le> i \<and> i < index + length data)"
    "\<And>i. held r' i \<longleftrightarrow> i < sr_next_index r \<or> cells (keep (sr_room r) full) i \<noteq> None"
    using assms(2) unfolding pushed_def by blast
  have "\<forall>i\<in>{sr_next_index r ..< hi}. cells full i \<noteq> None"
    using full(2) assms(4) by (metis atLeastLessThan_iff not_less)
  from keep_prefix [OF full(1) this assms(3)] have "held r' (sr_next_index r')"
    unfolding full(3) using less by (metis atLeastLessThan_iff not_le)
  then show False using sr_inv_simps(4) [OF assms(1)] by blast
qed

lemma pushed_all:
  assumes inv: "sr_inv S r" and p: "pushed r data index r'"
    and room: "slices_total (sr_datas r) + card (new_positions r data index) \<le> sr_room r"
  shows "held r' i \<longleftrightarrow> held r i \<or> (index \<le> i \<and> i < index + length data)"
proof -
  obtain full where full: "slices_wf (sr_next_index r) full"
    "\<And>i. i < sr_next_index r \<or> cells full i \<noteq> None \<longleftrightarrow> held r i \<or> (index \<le> i \<and> i < index + length data)"
    "\<And>i. held r' i \<longleftrightarrow> i < sr_next_index r \<or> cells (keep (sr_room r) full) i \<noteq> None"
    using p unfolding pushed_def by blast
  note wf = sr_inv_simps(2) [OF inv]
  have "dom (cells full) \<subseteq> dom (cells (sr_datas r)) \<union> new_positions r data index"
  proof
    fix j assume j: "j \<in> dom (cells full)"
    then have "\<not> j < sr_next_index r" using cells_below [OF full(1), of j] by auto
    then show "j \<in> dom (cells (sr_datas r)) \<union> new_positions r data index"
      using full(2) [of j] j unfolding new_positions_def held_def by auto
  qed
  moreover have "finite (new_positions r data index)"
    by (rule finite_subset [of _ "{index ..< index + length data}"]) (auto simp: new_positions_def)
  ultimately have "card (dom (cells full)) \<le> card (dom (cells (sr_datas r))) + card (new_positions r data index)"
    by (meson card_Un_le card_mono dual_order.trans finite_Un finite_dom_cells)
  then have "slices_total full \<le> sr_room r"
    using room unfolding total_card [OF full(1)] total_card [OF wf] by linarith
  then have "keep (sr_room r) full = full" using slices_wf_nonempty [OF full(1)] by (rule keep_all)
  with full(2,3) show ?thesis by metis
qed

section \<open>Histories of pushes and reads\<close>

text \<open>The segment receiver pushes, the application reads the output; an event's output is what was read.\<close>

datatype reassembler_event = Push bytes size_t bool | ReadOutput size_t

fun sr_step :: "StreamReassembler \<Rightarrow> reassembler_event \<Rightarrow> (bytes \<times> StreamReassembler) result" where
  "sr_step r (Push data index eof) = and_then (push_substring r data index eof) (\<lambda>r'. Inr ([], r'))"
| "sr_step r (ReadOutput n) =
     and_then (ByteStream_read (sr_output r) n) (\<lambda>(d, out). Inr (d, r\<lparr>sr_output := out\<rparr>))"

fun sr_admissible :: "bytes \<Rightarrow> StreamReassembler \<Rightarrow> reassembler_event \<Rightarrow> bool" where
  "sr_admissible S r (Push data index eof) = genuine S data index eof"
| "sr_admissible S r (ReadOutput n) = (n \<le> length (bs_contents (sr_output r)))"

lemma output_read:
  assumes o: "output_is S w out" and m: "m \<le> length (bs_contents out)"
  shows "\<exists>out'. ByteStream_read out m = Inr (take m (drop (bs_bytes_read out) S), out') \<and> output_is S w out' \<and>
    bs_contents out' = drop m (bs_contents out) \<and> bs_bytes_read out' = bs_bytes_read out + m \<and>
    bs_capacity out' = bs_capacity out \<and> bs_input_ended out' = bs_input_ended out \<and> bs_error out' = bs_error out"
proof -
  define k where "k = bs_bytes_read out"
  have k: "k \<le> w" "w \<le> length S" "length S < two64" "bs_contents out = drop k (take w S)" "bs_inv out" "bs_bytes_written out = w"
    using o unfolding output_is_def k_def by blast+
  obtain d out' where out': "ByteStream_read out m = Inr (d, out')" "bs_inv out'"
    "abs_step (bs_abs out) (Read m) = (Bytes d, bs_abs out')"
    using read_ok [OF k(5), of m] m by blast
  have km: "k + m \<le> w" "add64 k m = k + m" using m k by auto
  have d: "d = take m (drop k S)"
    "bs_abs out' = (bs_abs out)\<lparr>as_contents := drop m (bs_contents out), as_read := k + m\<rparr>"
    using out'(3) m k km unfolding k_def
    by (auto simp: abs_eof_def bs_abs_def take_drop split: if_splits)
  then have fields: "bs_contents out' = drop m (bs_contents out)" "bs_bytes_read out' = k + m" "bs_bytes_written out' = w"
    "bs_capacity out' = bs_capacity out" "bs_input_ended out' = bs_input_ended out" "bs_error out' = bs_error out"
    using k(6) by (simp_all add: bs_abs_def)
  have "output_is S w out'"
    unfolding output_is_def using out'(2) k km fields by (simp add: add.commute)
  then show ?thesis using out'(1) d(1) fields unfolding k_def by simp
qed

lemma read_output_ok:
  assumes inv: "sr_inv S r" and n: "n \<le> length (bs_contents (sr_output r))"
  shows "\<exists>d out. ByteStream_read (sr_output r) n = Inr (d, out) \<and> sr_inv S (r\<lparr>sr_output := out\<rparr>) \<and>
    take (bs_bytes_read out) S = take (bs_bytes_read (sr_output r)) S @ d \<and> bs_error out = bs_error (sr_output r) \<and>
    bs_input_ended out = bs_input_ended (sr_output r)"
proof -
  have "output_is S (sr_next_index r) (sr_output r)"
    using sr_inv_simps(1) [OF inv] unfolding sr_pre_def sr_base_def by blast
  from output_read [OF this n] obtain out where out: "ByteStream_read (sr_output r) n = Inr (take n (drop (bs_bytes_read (sr_output r)) S), out)"
    "output_is S (sr_next_index r) out" "bs_contents out = drop n (bs_contents (sr_output r))"
    "bs_bytes_read out = bs_bytes_read (sr_output r) + n" "bs_capacity out = bs_capacity (sr_output r)"
    "bs_input_ended out = bs_input_ended (sr_output r)" "bs_error out = bs_error (sr_output r)" by blast
  then have "sr_inv S (r\<lparr>sr_output := out\<rparr>)" using inv unfolding sr_inv_def sr_pre_def sr_base_def by auto
  then show ?thesis using out(1,4,6,7) by (auto simp: take_add)
qed

lemma sr_step_ok:
  assumes "sr_inv S r" "sr_admissible S r e"
  shows "\<exists>d r'. sr_step r e = Inr (d, r') \<and> sr_inv S r' \<and>
    take (bs_bytes_read (sr_output r')) S = take (bs_bytes_read (sr_output r)) S @ d \<and>
    sr_capacity r' = sr_capacity r"
proof (cases e)
  case (Push data index eof)
  with push_substring_ok [OF assms(1), of data index eof] assms(2) show ?thesis
    by (auto simp: same_reader_def)
next
  case (ReadOutput n)
  with read_output_ok [OF assms(1), of n] assms(2) show ?thesis by auto
qed

interpretation reasm: safe_machine sr_step "sr_inv S" "sr_admissible S" for S
  by unfold_locales (use sr_step_ok in blast)

lemma run_delivers:
  assumes "sr_inv S r" "admissible_run sr_step (sr_admissible S) r es" "run sr_step r es = Inr (outs, r')"
  shows "take (bs_bytes_read (sr_output r')) S = take (bs_bytes_read (sr_output r)) S @ concat outs \<and>
    sr_capacity r' = sr_capacity r"
  using assms
proof (induction es arbitrary: r outs)
  case Nil
  then show ?case by simp
next
  case (Cons e es)
  obtain d r1 where st: "sr_step r e = Inr (d, r1)" "sr_inv S r1" "sr_capacity r1 = sr_capacity r"
    "take (bs_bytes_read (sr_output r1)) S = take (bs_bytes_read (sr_output r)) S @ d"
    using sr_step_ok [of S r e] Cons.prems(1,2) by auto
  obtain rest where rest: "run sr_step r1 es = Inr (rest, r')" "outs = d # rest"
    using Cons.prems(3) st(1) by (auto simp: and_then_Inr_iff)
  show ?case using Cons.IH [OF st(2) _ rest(1)] Cons.prems(2) st rest(2) by simp
qed

lemma StreamReassembler_new_inv:
  assumes "0 < cap" "cap < two63" "length S < two64"
  shows "sr_inv S (StreamReassembler_new cap)"
proof -
  note new = ByteStream_new_ok [OF assms(1,2)]
  have "bs_capacity (ByteStream_new cap) = cap" "bs_contents (ByteStream_new cap) = []"
    "bs_bytes_written (ByteStream_new cap) = 0" "bs_bytes_read (ByteStream_new cap) = 0"
    "\<not> bs_input_ended (ByteStream_new cap)"
    using new(2) by (simp_all add: bs_abs_def)
  then show ?thesis
    using new(1) assms(3)
    unfolding sr_inv_def sr_pre_def sr_base_def output_is_def StreamReassembler_new_def agrees_def by simp
qed

text \<open>With a capacity of at least the whole stream nothing is ever discarded.\<close>

fun event_positions :: "reassembler_event \<Rightarrow> nat set" where
  "event_positions (Push data index eof) = {index ..< index + length data}"
| "event_positions (ReadOutput n) = {}"

fun event_eof :: "reassembler_event \<Rightarrow> bool" where
  "event_eof (Push data index eof) = eof"
| "event_eof (ReadOutput n) = False"

lemma room_for_all:
  assumes inv: "sr_inv S r" and cap: "length S \<le> sr_capacity r" and gen: "genuine S data index eof"
  shows "slices_total (sr_datas r) + card (new_positions r data index) \<le> sr_room r"
proof -
  note pre = sr_inv_simps(1) [OF inv] and wf = sr_inv_simps(2) [OF inv]
  let ?D = "dom (cells (sr_datas r))" and ?N = "new_positions r data index"
  have fin: "finite ?N"
    by (rule finite_subset [of _ "{index ..< index + length data}"]) (auto simp: new_positions_def)
  have "?D \<subseteq> {sr_next_index r ..< length S}"
    using cells_below [OF wf] pre_slices(2) [OF pre] unfolding agrees_def by (fastforce simp: not_less [symmetric])
  moreover have "?N \<subseteq> {sr_next_index r ..< length S}"
    using gen unfolding new_positions_def genuine_def held_def by auto
  ultimately have "card (?D \<union> ?N) \<le> card {sr_next_index r ..< length S}"
    by (intro card_mono) auto
  moreover have "card (?D \<union> ?N) = card ?D + card ?N"
    by (rule card_Un_disjoint) (auto simp: finite_dom_cells fin new_positions_def held_def)
  moreover have "length (bs_contents (sr_output r)) \<le> sr_next_index r"
    using pre unfolding sr_pre_def sr_base_def output_is_def by simp
  ultimately show ?thesis
    using cap weak_bounds(3) [OF pre_slices(4) [OF pre]] unfolding total_card [OF wf] sr_room_def by simp
qed

lemma run_holds:
  assumes "sr_inv S r" "length S \<le> sr_capacity r"
    "admissible_run sr_step (sr_admissible S) r es" "run sr_step r es = Inr (outs, r')"
  shows "(\<forall>i. held r' i \<longleftrightarrow> held r i \<or> (\<exists>e\<in>set es. i \<in> event_positions e)) \<and>
    (sr_eof r' \<longleftrightarrow> sr_eof r \<or> list_ex event_eof es)"
  using assms
proof (induction es arbitrary: r outs)
  case Nil
  then show ?case by simp
next
  case (Cons e es)
  obtain d r1 where st: "sr_step r e = Inr (d, r1)" "sr_inv S r1" "sr_capacity r1 = sr_capacity r"
    using sr_step_ok [of S r e] Cons.prems(1,3) by auto
  obtain rest where rest: "run sr_step r1 es = Inr (rest, r')"
    using Cons.prems(4) st(1) by (auto simp: and_then_Inr_iff)
  have "(\<forall>i. held r1 i \<longleftrightarrow> held r i \<or> i \<in> event_positions e) \<and> (sr_eof r1 \<longleftrightarrow> sr_eof r \<or> event_eof e)"
  proof (cases e)
    case (Push data index eof)
    with Cons.prems(3) have gen: "genuine S data index eof" by simp
    from push_substring_ok [OF Cons.prems(1) gen] st(1) Push
    have "pushed r data index r1" "sr_eof r1 = (sr_eof r \<or> eof)" by auto
    with pushed_all [OF Cons.prems(1) _ room_for_all [OF Cons.prems(1,2) gen]] Push show ?thesis by auto
  next
    case (ReadOutput n)
    with st(1) show ?thesis by (auto simp: held_def and_then_Inr_iff)
  qed
  with Cons.IH [OF st(2) _ _ rest] Cons.prems(2,3) st show ?case by auto
qed

text \<open>The definitions that evaluate the reassembler on a concrete state.\<close>

lemmas reassembler_eval =
  StreamReassembler_new_def ByteStream_new_def RingBuffer_init_def RingBuffer_default_def
  push_substring_def insert_without_overlap_def reassemble_def check_eof_def Let_def substr_def
  remaining_memory_def bytes_in_memory_def DataInfo_end_def DataInfo_size_def Range_size_def
  ByteStream_buffer_size_def ByteStream_buffer_empty_def ByteStream_remaining_capacity_def
  ByteStream_push_str_def ByteStream_write_def ByteStream_end_input_def RingBuffer_size_def
  RingBuffer_remaining_size_def RingBuffer_copy_in_def RingBuffer_push_back_def mem_write_def mod64_def
  add64_def sub64_def assert_that_def

section \<open>Properties\<close>

text \<open>C6. Whatever order the substrings of a stream arrive in, however they overlap or repeat, and
  whenever the application reads: no operation faults, what the reads returned followed by what the
  output still holds is the beginning of the stream, stored and buffered bytes together never exceed
  the capacity, \<open>unassembled_bytes\<close> is the number of distinct stored positions, and the output ends
  exactly when the end is known and everything before it has been written.\<close>

theorem reassembler_delivers_prefix:
  assumes "0 < cap" "cap < two63" "length S < two64"
    and "admissible_run sr_step (sr_admissible S) (StreamReassembler_new cap) es"
  shows "\<exists>outs r. run sr_step (StreamReassembler_new cap) es = Inr (outs, r) \<and>
    concat outs @ bs_contents (sr_output r) = take (sr_next_index r) S \<and>
    unassembled_bytes r + length (bs_contents (sr_output r)) \<le> cap \<and>
    unassembled_bytes r = card (dom (cells (sr_datas r))) \<and>
    (bs_input_ended (sr_output r) \<longleftrightarrow> sr_eof r \<and> sr_next_index r = length S)"
proof -
  note init = StreamReassembler_new_inv [OF assms(1-3)]
  obtain outs r where run: "run sr_step (StreamReassembler_new cap) es = Inr (outs, r)" "sr_inv S r"
    using reasm.run_safe [OF init assms(4)] by blast
  note pre = sr_inv_simps(1) [OF run(2)] and del = run_delivers [OF init assms(4) run(1)]
  have "take (bs_bytes_read (sr_output r)) S = concat outs" and cap: "sr_capacity r = cap"
    using del by (simp_all add: StreamReassembler_new_def ByteStream_new_def)
  moreover have "bs_contents (sr_output r) = drop (bs_bytes_read (sr_output r)) (take (sr_next_index r) S)"
    "bs_bytes_read (sr_output r) \<le> sr_next_index r"
    using pre unfolding sr_pre_def sr_base_def output_is_def by blast+
  ultimately have "concat outs @ bs_contents (sr_output r) = take (sr_next_index r) S"
    by (metis append_take_drop_id min.absorb1 take_take)
  moreover have "unassembled_bytes r = slices_total (sr_datas r)"
    using pre_slices(3) [OF pre] by (simp add: unassembled_bytes_def)
  ultimately show ?thesis
    using run(1) cap weak_bounds(5) [OF pre_slices(4) [OF pre]] total_card [OF pre_slices(1) [OF pre]] pre
    unfolding sr_pre_def by auto
qed

theorem reassembler_delivers_prefix_witness:
  "\<exists>outs r. run sr_step (StreamReassembler_new 3) [Push [3, 4] 2 True, Push [1, 2, 3] 0 False] = Inr (outs, r) \<and>
     concat outs @ bs_contents (sr_output r) = take (sr_next_index r) [1, 2, 3, 4] \<and>
     unassembled_bytes r + length (bs_contents (sr_output r)) \<le> 3"
proof -
  let ?S = "[1, 2, 3, 4] :: bytes"
  have g: "genuine ?S [3, 4] 2 True" "genuine ?S [1, 2, 3] 0 False" by (simp_all add: genuine_def)
  have "admissible_run sr_step (sr_admissible ?S) (StreamReassembler_new 3)
      [Push [3, 4] 2 True, Push [1, 2, 3] 0 False]"
    using g by (auto split: sum.split)
  from reassembler_delivers_prefix [OF _ _ _ this] show ?thesis by force
qed

text \<open>A substring that begins at or before the next expected byte is written as far as the memory
  goes: afterwards everything up to its end is in the output, or the stored and buffered bytes
  filled the capacity. Nothing that was written is ever lost.\<close>

theorem push_in_order_progress:
  assumes "sr_inv S r" "genuine S data index eof" "index \<le> sr_next_index r"
  shows "\<exists>r'. push_substring r data index eof = Inr r' \<and> sr_inv S r' \<and>
    min (index + length data) (sr_next_index r + (sr_capacity r - length (bs_contents (sr_output r))))
      \<le> sr_next_index r' \<and> sr_next_index r \<le> sr_next_index r'"
proof -
  obtain r' where r': "push_substring r data index eof = Inr r'" "sr_inv S r'" "pushed r data index r'"
    using push_substring_ok [OF assms(1,2)] by blast
  have "min (index + length data) (sr_next_index r + sr_room r) \<le> sr_next_index r'"
    by (rule pushed_progress [OF r'(2,3)]) (use assms(3) in \<open>auto simp: held_def\<close>)
  moreover have "sr_next_index r \<le> sr_next_index r'" using r'(3) unfolding pushed_def by blast
  ultimately show ?thesis using r'(1,2) unfolding sr_room_def by blast
qed

theorem push_in_order_progress_witness:
  "\<exists>r'. push_substring (StreamReassembler_new 2) [7, 8, 9] 0 True = Inr r' \<and> 2 \<le> sr_next_index r'"
  using push_in_order_progress [of "[7, 8, 9]" "StreamReassembler_new 2" "[7, 8, 9]" 0 True]
    StreamReassembler_new_inv [of 2 "[7, 8, 9]"] ByteStream_new_ok(2) [of 2]
  by (auto simp: genuine_def StreamReassembler_new_def bs_abs_def)

text \<open>Nothing is discarded while there is room: if the new positions of a substring fit beside what
  is stored and buffered, then afterwards exactly the positions held before and those of the
  substring are held, in the output or in the store.\<close>

theorem push_no_loss:
  assumes "sr_inv S r" "genuine S data index eof"
    and "unassembled_bytes r + card (new_positions r data index) + length (bs_contents (sr_output r)) \<le> sr_capacity r"
  shows "\<exists>r'. push_substring r data index eof = Inr r' \<and>
    (\<forall>i. held r' i \<longleftrightarrow> held r i \<or> (index \<le> i \<and> i < index + length data))"
proof -
  obtain r' where r': "push_substring r data index eof = Inr r'" "pushed r data index r'"
    using push_substring_ok [OF assms(1,2)] by blast
  have "slices_total (sr_datas r) + card (new_positions r data index) \<le> sr_room r"
    using assms(3) pre_slices(3) [OF sr_inv_simps(1) [OF assms(1)]] unfolding unassembled_bytes_def sr_room_def by simp
  from pushed_all [OF assms(1) r'(2) this] r'(1) show ?thesis by blast
qed

theorem push_no_loss_witness:
  "\<exists>r'. push_substring (StreamReassembler_new 8) [5, 6] 1 False = Inr r' \<and> held r' 2 \<and> \<not> held r' 0"
proof -
  have inv: "sr_inv [4, 5, 6] (StreamReassembler_new 8)" by (rule StreamReassembler_new_inv) simp_all
  have gen: "genuine [4, 5, 6] [5, 6] 1 False" by (simp add: genuine_def)
  have "unassembled_bytes (StreamReassembler_new 8) + card (new_positions (StreamReassembler_new 8) [5, 6] 1) +
      length (bs_contents (sr_output (StreamReassembler_new 8))) \<le> sr_capacity (StreamReassembler_new 8)"
  proof -
    have "new_positions (StreamReassembler_new 8) [5, 6] 1 = {1, 2}"
      by (auto simp: new_positions_def held_def StreamReassembler_new_def)
    then show ?thesis using ByteStream_new_ok(2) [of 8]
      by (simp add: StreamReassembler_new_def unassembled_bytes_def bs_abs_def)
  qed
  from push_no_loss [OF inv gen this] obtain r' where
    r': "push_substring (StreamReassembler_new 8) [5, 6] 1 False = Inr r'"
    "\<And>i. held r' i \<longleftrightarrow> held (StreamReassembler_new 8) i \<or> (1 \<le> i \<and> i < 1 + length ([5, 6] :: bytes))" by blast
  have "\<not> held (StreamReassembler_new 8) i" for i by (simp add: held_def StreamReassembler_new_def)
  then show ?thesis using r'(1) by (intro exI [of _ r']) (simp add: r'(2))
qed

text \<open>C19. Every byte arrives: when the capacity is at least the length of the stream, once the pushed
  substrings together cover the stream, in whatever order, and one of them carried the end, the
  whole stream has been written to the output and the output has ended.\<close>

theorem reassembler_completes:
  assumes "0 < cap" "cap < two63" "length S \<le> cap"
    and ok: "admissible_run sr_step (sr_admissible S) (StreamReassembler_new cap) es"
    and all: "{..< length S} \<subseteq> (\<Union>e\<in>set es. event_positions e)" and eof: "list_ex event_eof es"
  shows "\<exists>outs r. run sr_step (StreamReassembler_new cap) es = Inr (outs, r) \<and>
    concat outs @ bs_contents (sr_output r) = S \<and> bs_input_ended (sr_output r) \<and> StreamReassembler_empty r"
proof -
  have init: "sr_inv S (StreamReassembler_new cap)"
    by (rule StreamReassembler_new_inv [OF assms(1,2)]) (use assms(2,3) in linarith)
  obtain outs r where run: "run sr_step (StreamReassembler_new cap) es = Inr (outs, r)" "sr_inv S r"
    using reasm.run_safe [OF init ok] by blast
  note pre = sr_inv_simps(1) [OF run(2)] and del = run_delivers [OF init ok run(1)]
  have cap: "sr_capacity (StreamReassembler_new cap) = cap" by (simp add: StreamReassembler_new_def)
  have held: "\<forall>i < length S. held r i" "sr_eof r"
    using run_holds [OF init _ ok run(1)] all eof assms(3) unfolding cap by auto
  have next_le: "sr_next_index r \<le> length S" by (rule weak_bounds(3) [OF pre_slices(4) [OF pre]])
  with held(1) sr_inv_simps(4) [OF run(2)] have n: "sr_next_index r = length S" by (metis le_neq_implies_less)
  have "dom (cells (sr_datas r)) = {}"
    using cells_below [OF pre_slices(1) [OF pre]] pre_slices(2) [OF pre] unfolding n agrees_def dom_def
    by (metis (mono_tags, lifting) Collect_empty_eq not_None_eq)
  then have "StreamReassembler_empty r"
    using total_card [OF pre_slices(1) [OF pre]] pre_slices(3) [OF pre]
    by (simp add: StreamReassembler_empty_def)
  moreover have "bs_input_ended (sr_output r)" using pre held(2) n unfolding sr_pre_def by blast
  moreover have "concat outs @ bs_contents (sr_output r) = S"
  proof -
    have "take (bs_bytes_read (sr_output r)) S = concat outs"
      using del by (simp add: StreamReassembler_new_def ByteStream_new_def)
    moreover have "bs_contents (sr_output r) = drop (bs_bytes_read (sr_output r)) (take (sr_next_index r) S)"
      using pre unfolding sr_pre_def sr_base_def output_is_def by blast
    ultimately show ?thesis using n by (metis append_take_drop_id order_refl take_all)
  qed
  ultimately show ?thesis using run(1) by blast
qed

theorem reassembler_completes_witness:
  "\<exists>outs r. run sr_step (StreamReassembler_new 3) [Push [3] 2 True, Push [1, 2] 0 False] = Inr (outs, r) \<and>
     concat outs @ bs_contents (sr_output r) = [1, 2, 3]"
proof -
  let ?S = "[1, 2, 3] :: bytes"
  have g: "genuine ?S [3] 2 True" "genuine ?S [1, 2] 0 False" by (simp_all add: genuine_def)
  have "admissible_run sr_step (sr_admissible ?S) (StreamReassembler_new 3) [Push [3] 2 True, Push [1, 2] 0 False]"
    using g by (auto split: sum.split)
  from reassembler_completes [OF _ _ _ this] show ?thesis by fastforce
qed


end
