(* ===== verification/Buffers.thy ===== *)
theory Buffers
  imports Prelude
begin

text \<open>
  The buffers of \<open>src/libsponge/util/buffer.hh\<close> and \<open>src/libsponge/util/buffer.cc\<close>: \<open>Buffer\<close>, a shared
  string that can discard bytes from its front, \<open>BufferList\<close>, a sequence of them that stands for
  one discontiguous string, and \<open>BufferViewList\<close>, a sequence of views. A buffer never writes to its
  storage, so sharing it cannot be observed and the storage is a value. Each class is a string
  that supports discarding from the front: the locale \<open>prefix_string\<close>.
\<close>

section \<open>Buffer\<close>

record Buffer =
  bf_storage :: "bytes option"
  bf_starting_offset :: size_t

definition Buffer_default :: Buffer where
  "Buffer_default = \<lparr>bf_storage = None, bf_starting_offset = 0\<rparr>"

definition Buffer_of :: "bytes \<Rightarrow> Buffer" where
  "Buffer_of s = \<lparr>bf_storage = Some s, bf_starting_offset = 0\<rparr>"

definition Buffer_str :: "Buffer \<Rightarrow> bytes" where
  "Buffer_str b =
     (case bf_storage b of None \<Rightarrow> [] | Some s \<Rightarrow> drop (bf_starting_offset b) s)"

definition Buffer_at :: "Buffer \<Rightarrow> size_t \<Rightarrow> byte result" where
  "Buffer_at b n = (if n < length (Buffer_str b) then Inr (Buffer_str b ! n) else Inl OutOfBounds)"

definition Buffer_size :: "Buffer \<Rightarrow> size_t" where
  "Buffer_size b = length (Buffer_str b)"

definition Buffer_copy :: "Buffer \<Rightarrow> bytes" where
  "Buffer_copy b = Buffer_str b"

definition Buffer_remove_prefix :: "Buffer \<Rightarrow> size_t \<Rightarrow> Buffer result" where
  "Buffer_remove_prefix b n =
     (if n > length (Buffer_str b) then Inl OutOfBounds
      else
        (let b' = b\<lparr>bf_starting_offset := add64 (bf_starting_offset b) n\<rparr> in
         case bf_storage b' of
           Some s \<Rightarrow> if bf_starting_offset b' = length s then Inr (b'\<lparr>bf_storage := None\<rparr>) else Inr b'
         | None \<Rightarrow> Inr b'))"

section \<open>BufferList\<close>

record BufferList =
  bl_buffers :: "Buffer list"

definition BufferList_of_Buffer :: "Buffer \<Rightarrow> BufferList" where
  "BufferList_of_Buffer b = \<lparr>bl_buffers = [b]\<rparr>"

definition BufferList_append :: "BufferList \<Rightarrow> BufferList \<Rightarrow> BufferList" where
  "BufferList_append self other = self\<lparr>bl_buffers := foldl (\<lambda>bs b. bs @ [b]) (bl_buffers self) (bl_buffers other)\<rparr>"

definition BufferList_of_string :: "bytes \<Rightarrow> BufferList" where
  "BufferList_of_string s = BufferList_append \<lparr>bl_buffers = []\<rparr> (BufferList_of_Buffer (Buffer_of s))"

definition BufferList_to_Buffer :: "BufferList \<Rightarrow> Buffer result" where
  "BufferList_to_Buffer l =
     (case bl_buffers l of
        [] \<Rightarrow> Inr Buffer_default
      | [b] \<Rightarrow> Inr b
      | _ \<Rightarrow> Inl (RuntimeError ''BufferList: please use concatenate() to combine a multi-Buffer BufferList into one Buffer''))"

definition BufferList_concatenate :: "BufferList \<Rightarrow> bytes" where
  "BufferList_concatenate l = foldl (\<lambda>ret b. ret @ Buffer_str b) [] (bl_buffers l)"

definition BufferList_size :: "BufferList \<Rightarrow> size_t" where
  "BufferList_size l = foldl (\<lambda>ret b. add64 ret (Buffer_size b)) 0 (bl_buffers l)"

text \<open>The loop drops whole buffers while they are not longer than what is left to discard.\<close>

fun buffers_remove_prefix :: "Buffer list \<Rightarrow> size_t \<Rightarrow> Buffer list result" where
  "buffers_remove_prefix [] n = (if n > 0 then Inl OutOfBounds else Inr [])"
| "buffers_remove_prefix (b # bs) n =
     (if n > 0 then
        if n < length (Buffer_str b) then and_then (Buffer_remove_prefix b n) (\<lambda>b'. Inr (b' # bs))
        else buffers_remove_prefix bs (sub64 n (length (Buffer_str b)))
      else Inr (b # bs))"

definition BufferList_remove_prefix :: "BufferList \<Rightarrow> size_t \<Rightarrow> BufferList result" where
  "BufferList_remove_prefix l n =
     and_then (buffers_remove_prefix (bl_buffers l) n) (\<lambda>bs. Inr (l\<lparr>bl_buffers := bs\<rparr>))"

section \<open>BufferViewList\<close>

record BufferViewList =
  bv_views :: "bytes list"

definition BufferViewList_of_string :: "bytes \<Rightarrow> BufferViewList" where
  "BufferViewList_of_string s = \<lparr>bv_views = [s]\<rparr>"

definition BufferViewList_of_BufferList :: "BufferList \<Rightarrow> BufferViewList" where
  "BufferViewList_of_BufferList l = \<lparr>bv_views = foldl (\<lambda>vs b. vs @ [Buffer_str b]) [] (bl_buffers l)\<rparr>"

fun views_remove_prefix :: "bytes list \<Rightarrow> size_t \<Rightarrow> bytes list result" where
  "views_remove_prefix [] n = (if n > 0 then Inl OutOfBounds else Inr [])"
| "views_remove_prefix (v # vs) n =
     (if n > 0 then
        if n < length v then Inr (drop n v # vs)
        else views_remove_prefix vs (sub64 n (length v))
      else Inr (v # vs))"

definition BufferViewList_remove_prefix :: "BufferViewList \<Rightarrow> size_t \<Rightarrow> BufferViewList result" where
  "BufferViewList_remove_prefix l n =
     and_then (views_remove_prefix (bv_views l) n) (\<lambda>vs. Inr (l\<lparr>bv_views := vs\<rparr>))"

definition BufferViewList_size :: "BufferViewList \<Rightarrow> size_t" where
  "BufferViewList_size l = foldl (\<lambda>ret v. add64 ret (length v)) 0 (bv_views l)"

text \<open>An \<open>iovec\<close> is the bytes it points at and their number.\<close>

definition BufferViewList_as_iovecs :: "BufferViewList \<Rightarrow> (bytes \<times> size_t) list" where
  "BufferViewList_as_iovecs l = foldl (\<lambda>ret x. ret @ [(x, length x)]) [] (bv_views l)"

section \<open>Well-formedness\<close>

definition buf_inv :: "Buffer \<Rightarrow> bool" where
  "buf_inv b \<longleftrightarrow> (case bf_storage b of None \<Rightarrow> True
     | Some s \<Rightarrow> bf_starting_offset b \<le> length s \<and> length s < two64)"

definition bl_inv :: "BufferList \<Rightarrow> bool" where
  "bl_inv l \<longleftrightarrow> (\<forall>b\<in>set (bl_buffers l). buf_inv b)"

definition bl_str :: "BufferList \<Rightarrow> bytes" where
  "bl_str l = concat (map Buffer_str (bl_buffers l))"

definition bv_str :: "BufferViewList \<Rightarrow> bytes" where
  "bv_str l = concat (bv_views l)"

lemma Buffer_of_simps [simp]:
  "Buffer_str (Buffer_of s) = s" "buf_inv (Buffer_of s) \<longleftrightarrow> length s < two64"
  "Buffer_str Buffer_default = []" "buf_inv Buffer_default"
  by (simp_all add: Buffer_of_def Buffer_default_def Buffer_str_def buf_inv_def)

lemma Buffer_at_ok [simp]: "n < length (Buffer_str b) \<Longrightarrow> Buffer_at b n = Inr (Buffer_str b ! n)"
  by (simp add: Buffer_at_def)

lemma Buffer_remove_prefix_ok:
  assumes "buf_inv b" "n \<le> length (Buffer_str b)"
  shows "\<exists>b'. Buffer_remove_prefix b n = Inr b' \<and> buf_inv b' \<and> Buffer_str b' = drop n (Buffer_str b)"
proof (cases "bf_storage b")
  case None
  with assms show ?thesis
    by (auto simp: Buffer_remove_prefix_def Buffer_str_def buf_inv_def Let_def)
next
  case (Some s)
  with assms have "bf_starting_offset b + n \<le> length s" "length s < two64"
    by (auto simp: Buffer_str_def buf_inv_def)
  with Some assms show ?thesis
    by (auto simp: Buffer_remove_prefix_def Buffer_str_def buf_inv_def Let_def add.commute)
qed

lemma snoc_fold: "foldl (\<lambda>bs b. bs @ [f b]) xs ys = xs @ map f ys"
  by (induction ys arbitrary: xs) simp_all

lemma append_fold: "foldl (\<lambda>ret b. ret @ f b) xs ys = xs @ concat (map f ys)"
  by (induction ys arbitrary: xs) simp_all

lemma size_fold:
  "n + length (concat (map f ys)) < two64 \<Longrightarrow>
   foldl (\<lambda>ret b. add64 ret (length (f b))) n ys = n + length (concat (map f ys))"
  by (induction ys arbitrary: n) (simp_all add: add.assoc)

lemma bl_append_str [simp]:
  "bl_str (BufferList_append a b) = bl_str a @ bl_str b" "bl_inv (BufferList_append a b) \<longleftrightarrow> bl_inv a \<and> bl_inv b"
  using snoc_fold [of "\<lambda>x. x" "bl_buffers a" "bl_buffers b"]
  by (auto simp: bl_str_def bl_inv_def BufferList_append_def)

lemma bl_of_str [simp]:
  "bl_str (BufferList_of_string s) = s" "bl_inv (BufferList_of_string s) \<longleftrightarrow> length s < two64"
  "bl_str (BufferList_of_Buffer b) = Buffer_str b" "bl_inv (BufferList_of_Buffer b) \<longleftrightarrow> buf_inv b"
  "bl_str \<lparr>bl_buffers = []\<rparr> = []" "bl_inv \<lparr>bl_buffers = []\<rparr>"
  by (simp_all add: BufferList_of_string_def BufferList_of_Buffer_def bl_str_def bl_inv_def BufferList_append_def)

lemma bl_concatenate [simp]: "BufferList_concatenate l = bl_str l"
  by (simp add: BufferList_concatenate_def bl_str_def append_fold)

lemma bl_size [simp]: "length (bl_str l) < two64 \<Longrightarrow> BufferList_size l = length (bl_str l)"
  unfolding BufferList_size_def bl_str_def Buffer_size_def using size_fold [of 0 Buffer_str] by simp

lemma bv_size [simp]: "length (bv_str l) < two64 \<Longrightarrow> BufferViewList_size l = length (bv_str l)"
  unfolding BufferViewList_size_def bv_str_def using size_fold [of 0 "\<lambda>x. x"] by simp

lemma bv_of_str [simp]:
  "bv_str (BufferViewList_of_string s) = s" "bv_str (BufferViewList_of_BufferList l) = bl_str l"
  by (simp_all add: BufferViewList_of_string_def BufferViewList_of_BufferList_def bv_str_def bl_str_def snoc_fold)

lemma buffers_remove_prefix_ok:
  "\<forall>b\<in>set bs. buf_inv b \<Longrightarrow> n \<le> length (concat (map Buffer_str bs)) \<Longrightarrow> n < two64 \<Longrightarrow>
   \<exists>bs'. buffers_remove_prefix bs n = Inr bs' \<and> (\<forall>b\<in>set bs'. buf_inv b) \<and>
     concat (map Buffer_str bs') = drop n (concat (map Buffer_str bs))"
proof (induction bs arbitrary: n)
  case Nil
  then show ?case by simp
next
  case (Cons b bs)
  consider "n = 0" | "0 < n" "n < length (Buffer_str b)" | "0 < n" "length (Buffer_str b) \<le> n" by linarith
  then show ?case
  proof cases
    case 1
    then show ?thesis using Cons.prems by simp
  next
    case 2
    then obtain b' where "Buffer_remove_prefix b n = Inr b'" "buf_inv b'" "Buffer_str b' = drop n (Buffer_str b)"
      using Buffer_remove_prefix_ok [of b n] Cons.prems(1) by auto
    then show ?thesis using 2 Cons.prems(1) by simp
  next
    case 3
    have "sub64 n (length (Buffer_str b)) = n - length (Buffer_str b)" using 3 Cons.prems(3) by simp
    with 3 Cons.IH [of "n - length (Buffer_str b)"] Cons.prems show ?thesis by auto
  qed
qed

lemma buffers_remove_prefix_short:
  "length (concat (map Buffer_str bs)) < n \<Longrightarrow> n < two64 \<Longrightarrow> buffers_remove_prefix bs n = Inl OutOfBounds"
  by (induction bs arbitrary: n) auto

lemma views_remove_prefix_ok:
  "n \<le> length (concat vs) \<Longrightarrow> n < two64 \<Longrightarrow>
   \<exists>vs'. views_remove_prefix vs n = Inr vs' \<and> concat vs' = drop n (concat vs)"
proof (induction vs arbitrary: n)
  case (Cons v vs)
  then show ?case using Cons.IH [of "n - length v"] by auto
qed simp

lemma views_remove_prefix_short:
  "length (concat vs) < n \<Longrightarrow> n < two64 \<Longrightarrow> views_remove_prefix vs n = Inl OutOfBounds"
  by (induction vs arbitrary: n) auto

section \<open>The contract of the three classes\<close>

text \<open>
  A string that can discard its front: discarding at most its length leaves the rest, discarding
  more throws. Inside: two discards are one, whatever pieces they are done in.
\<close>

locale prefix_string =
  fixes str :: "'b \<Rightarrow> bytes" and inv :: "'b \<Rightarrow> bool" and discard :: "'b \<Rightarrow> size_t \<Rightarrow> 'b result"
  assumes discard_ok: "inv b \<Longrightarrow> n \<le> length (str b) \<Longrightarrow> n < two64 \<Longrightarrow>
      \<exists>b'. discard b n = Inr b' \<and> inv b' \<and> str b' = drop n (str b)"
    and discard_short: "length (str b) < n \<Longrightarrow> n < two64 \<Longrightarrow> discard b n = Inl OutOfBounds"
begin

lemma discard_twice:
  assumes "inv b" "m + n \<le> length (str b)" "m + n < two64"
  shows "\<exists>b1 b2 b'. discard b m = Inr b1 \<and> discard b1 n = Inr b2 \<and> discard b (m + n) = Inr b' \<and> str b2 = str b'"
proof -
  obtain b1 where b1: "discard b m = Inr b1" "inv b1" "str b1 = drop m (str b)"
    using discard_ok [of b m] assms by auto
  moreover have "n \<le> length (str b1)" "n < two64" unfolding b1(3) length_drop using assms by linarith+
  then obtain b2 where "discard b1 n = Inr b2" "str b2 = drop n (str b1)"
    using discard_ok [OF b1(2)] by blast
  moreover obtain b' where "discard b (m + n) = Inr b'" "str b' = drop (m + n) (str b)"
    using discard_ok [OF assms] by blast
  ultimately show ?thesis by (simp add: add.commute)
qed

lemma discard_iff:
  assumes "inv b" "n < two64"
  shows "(\<exists>b'. discard b n = Inr b' \<and> str b' = drop n (str b)) \<longleftrightarrow> n \<le> length (str b)"
  using discard_ok [OF assms(1)] discard_short [of b n] assms(2) by fastforce

end

interpretation buffer: prefix_string Buffer_str buf_inv Buffer_remove_prefix
  by unfold_locales (use Buffer_remove_prefix_ok in \<open>auto simp: Buffer_remove_prefix_def\<close>)

interpretation buffer_list: prefix_string bl_str bl_inv BufferList_remove_prefix
proof
  fix l n
  assume *: "bl_inv l" "n \<le> length (bl_str l)" "n < two64"
  then obtain bs where "buffers_remove_prefix (bl_buffers l) n = Inr bs" "\<forall>b\<in>set bs. buf_inv b"
    "concat (map Buffer_str bs) = drop n (bl_str l)"
    using buffers_remove_prefix_ok [of "bl_buffers l" n] by (auto simp: bl_inv_def bl_str_def)
  then show "\<exists>l'. BufferList_remove_prefix l n = Inr l' \<and> bl_inv l' \<and> bl_str l' = drop n (bl_str l)"
    by (simp add: BufferList_remove_prefix_def bl_inv_def bl_str_def)
next
  fix l n
  assume "length (bl_str l) < n" "n < two64"
  then show "BufferList_remove_prefix l n = Inl OutOfBounds"
    by (simp add: BufferList_remove_prefix_def buffers_remove_prefix_short bl_str_def)
qed

interpretation view_list: prefix_string bv_str "\<lambda>l. True" BufferViewList_remove_prefix
proof
  fix l n
  assume "n \<le> length (bv_str l)" "n < two64"
  then obtain vs where "views_remove_prefix (bv_views l) n = Inr vs" "concat vs = drop n (bv_str l)"
    using views_remove_prefix_ok [of n "bv_views l"] by (auto simp: bv_str_def)
  then show "\<exists>l'. BufferViewList_remove_prefix l n = Inr l' \<and> True \<and> bv_str l' = drop n (bv_str l)"
    by (simp add: BufferViewList_remove_prefix_def bv_str_def)
next
  fix l n
  assume "length (bv_str l) < n" "n < two64"
  then show "BufferViewList_remove_prefix l n = Inl OutOfBounds"
    by (simp add: BufferViewList_remove_prefix_def views_remove_prefix_short bv_str_def)
qed

section \<open>Properties\<close>

text \<open>A \<open>BufferList\<close> and the \<open>BufferViewList\<close> made from it are one string: discarding \<open>n\<close> bytes from
  either leaves the string without its first \<open>n\<close> bytes, across the boundaries of the pieces, and
  throws exactly when there are fewer.\<close>

theorem remove_prefix_views_agree:
  assumes "bl_inv l" "n < two64"
  shows "(if n \<le> length (BufferList_concatenate l)
     then (\<exists>l' v'. BufferList_remove_prefix l n = Inr l' \<and>
             BufferViewList_remove_prefix (BufferViewList_of_BufferList l) n = Inr v' \<and>
             BufferList_concatenate l' = drop n (BufferList_concatenate l) \<and>
             concat (map fst (BufferViewList_as_iovecs v')) = BufferList_concatenate l')
     else BufferList_remove_prefix l n = Inl OutOfBounds \<and>
          BufferViewList_remove_prefix (BufferViewList_of_BufferList l) n = Inl OutOfBounds)"
proof (cases "n \<le> length (bl_str l)")
  case True
  obtain l' where "BufferList_remove_prefix l n = Inr l'" "bl_str l' = drop n (bl_str l)"
    using buffer_list.discard_ok [OF assms(1) True assms(2)] by blast
  moreover obtain v' where "BufferViewList_remove_prefix (BufferViewList_of_BufferList l) n = Inr v'"
    "bv_str v' = drop n (bl_str l)"
    using view_list.discard_ok [of n "BufferViewList_of_BufferList l"] True assms(2) by auto
  moreover have "concat (map fst (BufferViewList_as_iovecs v')) = bv_str v'" for v'
    by (simp add: BufferViewList_as_iovecs_def snoc_fold bv_str_def comp_def)
  ultimately show ?thesis using True by simp
next
  case False
  then show ?thesis
    using buffer_list.discard_short [of l n] view_list.discard_short [of "BufferViewList_of_BufferList l" n] assms(2)
    by simp
qed

theorem remove_prefix_views_agree_witness:
  "bl_inv (BufferList_append (BufferList_of_string [1, 2]) (BufferList_of_string [3, 4])) \<and>
   (\<exists>l'. BufferList_remove_prefix (BufferList_append (BufferList_of_string [1, 2]) (BufferList_of_string [3, 4])) 3
      = Inr l' \<and> BufferList_concatenate l' = [4])"
  using remove_prefix_views_agree
    [of "BufferList_append (BufferList_of_string [1, 2]) (BufferList_of_string [3, 4])" 3] by auto

end
