(* ===== verification/Net_Parser.thy ===== *)
theory Net_Parser
  imports Buffers
begin

text \<open>
  The parser and unparser of \<open>src/libsponge/util/parser.hh\<close> and \<open>src/libsponge/util/parser.cc\<close>: integers in
  network byte order read from the front of a \<open>Buffer\<close>, with a sticky error, and appended to a
  string. The locale \<open>field_codec\<close> is what a header relies on: a field that was written is read
  back and leaves the bytes after it.
\<close>

unbundle bit_operations_syntax

section \<open>ParseResult\<close>

datatype ParseResult =
    NoError
  | BadChecksum
  | PacketTooShort
  | WrongIPVersion
  | HeaderTooShort
  | TruncatedPacket
  | Unsupported

fun ParseResult_index :: "ParseResult \<Rightarrow> size_t" where
  "ParseResult_index NoError = 0"
| "ParseResult_index BadChecksum = 1"
| "ParseResult_index PacketTooShort = 2"
| "ParseResult_index WrongIPVersion = 3"
| "ParseResult_index HeaderTooShort = 4"
| "ParseResult_index TruncatedPacket = 5"
| "ParseResult_index Unsupported = 6"

definition ParseResult_names :: "string list" where
  "ParseResult_names =
     [''NoError'', ''BadChecksum'', ''PacketTooShort'', ''WrongIPVersion'', ''HeaderTooShort'', ''TruncatedPacket'']"

definition as_string :: "ParseResult \<Rightarrow> string result" where
  "as_string r =
     (if ParseResult_index r < length ParseResult_names then Inr (ParseResult_names ! ParseResult_index r)
      else Inl OutOfBounds)"

section \<open>NetParser\<close>

record NetParser =
  np_buffer :: Buffer
  np_error :: ParseResult

definition NetParser_of :: "Buffer \<Rightarrow> NetParser" where
  "NetParser_of b = \<lparr>np_buffer = b, np_error = NoError\<rparr>"

definition NetParser_check_size :: "NetParser \<Rightarrow> size_t \<Rightarrow> NetParser" where
  "NetParser_check_size p n =
     (if n > Buffer_size (np_buffer p) then p\<lparr>np_error := PacketTooShort\<rparr> else p)"

text \<open>The loop of \<open>_parse_int\<close> from \<open>i\<close> on, with \<open>k\<close> bytes to go; the width of \<open>T\<close> is that of the word.\<close>

fun parse_int_loop :: "Buffer \<Rightarrow> size_t \<Rightarrow> size_t \<Rightarrow> 'a :: len word \<Rightarrow> 'a word result" where
  "parse_int_loop b i 0 ret = Inr ret"
| "parse_int_loop b i (Suc k) ret =
     and_then (Buffer_at b i) (\<lambda>c. parse_int_loop b (Suc i) k (push_bit 8 ret + ucast c))"

definition NetParser_parse_int :: "size_t \<Rightarrow> NetParser \<Rightarrow> ('a :: len word \<times> NetParser) result" where
  "NetParser_parse_int len p =
     (let p' = NetParser_check_size p len in
      if np_error p' \<noteq> NoError then Inr (0, p')
      else
        and_then (parse_int_loop (np_buffer p') 0 len 0) (\<lambda>ret.
        and_then (Buffer_remove_prefix (np_buffer p') len) (\<lambda>b.
        Inr (ret, p'\<lparr>np_buffer := b\<rparr>))))"

definition NetParser_u32 :: "NetParser \<Rightarrow> (32 word \<times> NetParser) result" where
  "NetParser_u32 p = NetParser_parse_int 4 p"

definition NetParser_u16 :: "NetParser \<Rightarrow> (16 word \<times> NetParser) result" where
  "NetParser_u16 p = NetParser_parse_int 2 p"

definition NetParser_u8 :: "NetParser \<Rightarrow> (8 word \<times> NetParser) result" where
  "NetParser_u8 p = NetParser_parse_int 1 p"

definition NetParser_remove_prefix :: "NetParser \<Rightarrow> size_t \<Rightarrow> NetParser result" where
  "NetParser_remove_prefix p n =
     (let p' = NetParser_check_size p n in
      if np_error p' \<noteq> NoError then Inr p'
      else and_then (Buffer_remove_prefix (np_buffer p') n) (\<lambda>b. Inr (p'\<lparr>np_buffer := b\<rparr>)))"

section \<open>NetUnparser\<close>

definition unparse_int :: "size_t \<Rightarrow> bytes \<Rightarrow> 'a :: len word \<Rightarrow> bytes" where
  "unparse_int len s val =
     foldl (\<lambda>s i. s @ [ucast (drop_bit ((len - i - 1) * 8) val AND 0xff)]) s [0 ..< len]"

definition NetUnparser_u32 :: "bytes \<Rightarrow> 32 word \<Rightarrow> bytes" where
  "NetUnparser_u32 s val = unparse_int 4 s val"

definition NetUnparser_u16 :: "bytes \<Rightarrow> 16 word \<Rightarrow> bytes" where
  "NetUnparser_u16 s val = unparse_int 2 s val"

definition NetUnparser_u8 :: "bytes \<Rightarrow> 8 word \<Rightarrow> bytes" where
  "NetUnparser_u8 s val = unparse_int 1 s val"

section \<open>What the parser reads\<close>

definition np_inv :: "NetParser \<Rightarrow> bool" where
  "np_inv p \<longleftrightarrow> buf_inv (np_buffer p)"

abbreviation np_rest :: "NetParser \<Rightarrow> bytes" where
  "np_rest p \<equiv> Buffer_str (np_buffer p)"

text \<open>\<open>reading p bs\<close>: no error so far, and \<open>bs\<close> is what is left.\<close>

definition reading :: "NetParser \<Rightarrow> bytes \<Rightarrow> bool" where
  "reading p bs \<longleftrightarrow> np_inv p \<and> np_error p = NoError \<and> np_rest p = bs"

lemma reading_of [simp]: "buf_inv b \<Longrightarrow> reading (NetParser_of b) (Buffer_str b)"
  by (simp add: reading_def np_inv_def NetParser_of_def)

definition be_value :: "bytes \<Rightarrow> 'a :: len word" where
  "be_value bs = foldl (\<lambda>ret c. push_bit 8 ret + ucast c) 0 bs"

lemma parse_int_loop_eq:
  "i + k \<le> length (Buffer_str b) \<Longrightarrow>
   parse_int_loop b i k ret = Inr (foldl (\<lambda>ret c. push_bit 8 ret + ucast c) ret (take k (drop i (Buffer_str b))))"
  by (induction k arbitrary: i ret) (simp_all add: Cons_nth_drop_Suc [symmetric])

lemma NetParser_parse_int_ok:
  assumes "reading p bs" "len \<le> length bs"
  shows "yields (NetParser_parse_int len p) (\<lambda>(v, p'). v = be_value (take len bs) \<and> reading p' (drop len bs))"
proof -
  obtain b where b: "Buffer_remove_prefix (np_buffer p) len = Inr b" "buf_inv b" "Buffer_str b = drop len bs"
    using Buffer_remove_prefix_ok [of "np_buffer p" len] assms by (auto simp: reading_def np_inv_def)
  have "parse_int_loop (np_buffer p) 0 len (0 :: 'a word) = Inr (be_value (take len bs))"
    using assms by (simp add: parse_int_loop_eq be_value_def reading_def)
  then show ?thesis
    using assms b
    by (simp add: NetParser_parse_int_def NetParser_check_size_def Let_def Buffer_size_def reading_def np_inv_def)
qed

text \<open>Reading never throws: on too little data the error is set and zero returned.\<close>

lemma NetParser_parse_int_safe:
  assumes "np_inv p"
  shows "yields (NetParser_parse_int len p) (\<lambda>(v, p'). np_inv p' \<and>
    (np_error p' = NoError \<longrightarrow> np_error p = NoError \<and> np_rest p' = drop len (np_rest p) \<and> len \<le> length (np_rest p)))"
proof (cases "np_error p = NoError \<and> len \<le> length (np_rest p)")
  case True
  then have "reading p (np_rest p)" using assms by (simp add: reading_def)
  from NetParser_parse_int_ok [OF this, of len] True show ?thesis
    by (auto simp: reading_def elim!: yields_mono)
next
  case False
  then have "np_error (NetParser_check_size p len) \<noteq> NoError"
    by (auto simp: NetParser_check_size_def Buffer_size_def)
  then show ?thesis
    using assms by (simp add: NetParser_parse_int_def Let_def NetParser_check_size_def np_inv_def)
qed

lemma NetParser_remove_prefix_ok:
  assumes "reading p bs" "n \<le> length bs"
  shows "yields (NetParser_remove_prefix p n) (\<lambda>p'. reading p' (drop n bs))"
  using Buffer_remove_prefix_ok [of "np_buffer p" n] assms
  by (auto simp: NetParser_remove_prefix_def NetParser_check_size_def Let_def Buffer_size_def reading_def np_inv_def)

lemma NetParser_remove_prefix_safe:
  assumes "np_inv p"
  shows "yields (NetParser_remove_prefix p n) (\<lambda>p'. np_inv p' \<and>
    (np_error p' = NoError \<longrightarrow> np_error p = NoError \<and> np_rest p' = drop n (np_rest p) \<and> n \<le> length (np_rest p)))"
  using Buffer_remove_prefix_ok [of "np_buffer p" n] assms
  by (auto simp: NetParser_remove_prefix_def NetParser_check_size_def Let_def Buffer_size_def np_inv_def)

lemmas NetParser_safe [intro] =
  NetParser_parse_int_safe [where 'a = 32 and len = 4, folded NetParser_u32_def]
  NetParser_parse_int_safe [where 'a = 16 and len = 2, folded NetParser_u16_def]
  NetParser_parse_int_safe [where 'a = 8 and len = 1, folded NetParser_u8_def]
  NetParser_remove_prefix_safe

section \<open>Writing\<close>

definition be_bytes :: "size_t \<Rightarrow> 'a :: len word \<Rightarrow> bytes" where
  "be_bytes len val = map (\<lambda>i. ucast (drop_bit ((len - i - 1) * 8) val AND 0xff)) [0 ..< len]"

lemma unparse_int_eq: "unparse_int len s val = s @ be_bytes len val"
  by (simp add: unparse_int_def be_bytes_def snoc_fold)

lemma length_be_bytes [simp]: "length (be_bytes len val) = len"
  by (simp add: be_bytes_def)

lemma low_byte: "ucast (x AND 0xff) = (ucast (x :: 'a :: len word) :: byte)"
proof -
  have ff: "(0xff :: 'a word) = mask 8" by (simp add: mask_eq_exp_minus_1)
  show ?thesis unfolding ff by (intro bit_word_eqI) (auto simp: bit_simps dest: bit_imp_le_length)
qed

lemma byte_low_byte: "(v :: byte) AND 0xff = v"
  using low_byte [of v] by simp

lemma add_shifted: "push_bit 8 (x :: 'a :: len word) + ucast (c :: byte) = push_bit 8 x OR ucast c"
  by (rule disjunctive_add) (auto simp: bit_simps dest: bit_imp_le_length)

lemma be_bytes_eqs:
  "be_bytes (Suc 0) (v :: 8 word) = [v]"
  "be_bytes 2 (w :: 16 word) = [ucast (drop_bit 8 w), ucast w]"
  "be_bytes 4 (x :: 32 word) = [ucast (drop_bit 24 x), ucast (drop_bit 16 x), ucast (drop_bit 8 x), ucast x]"
  by (simp_all add: be_bytes_def upt_rec low_byte byte_low_byte)

lemma be_round_trip [simp]:
  "be_value (be_bytes (Suc 0) v) = (v :: 8 word)"
  "be_value (be_bytes 2 w) = (w :: 16 word)"
  "be_value (be_bytes 4 x) = (x :: 32 word)"
proof -
  show "be_value (be_bytes (Suc 0) v) = v" by (simp add: be_bytes_eqs be_value_def)
  show "be_value (be_bytes 2 w) = w"
    by (rule bit_word_eqI) (auto simp: be_bytes_eqs be_value_def add_shifted bit_simps)
  show "be_value (be_bytes 4 x) = x"
  proof (rule bit_word_eqI)
    fix n
    assume "n < LENGTH(32)"
    then have "n < 32" by simp
    then consider "n < 8" | "8 \<le> n" "n < 16" | "16 \<le> n" "n < 24" | "24 \<le> n" "n < 32" by linarith
    then show "bit (be_value (be_bytes 4 x) :: 32 word) n = bit x n"
      by cases (auto simp: be_bytes_eqs be_value_def add_shifted bit_simps)
  qed
qed

text \<open>Arrays of fields, as the loops over Ethernet addresses read and write them.\<close>

fun parse_array :: "(NetParser \<Rightarrow> ('v \<times> NetParser) result) \<Rightarrow> nat \<Rightarrow> NetParser \<Rightarrow> ('v list \<times> NetParser) result" where
  "parse_array f 0 p = Inr ([], p)"
| "parse_array f (Suc n) p =
     and_then (f p) (\<lambda>(v, p'). and_then (parse_array f n p') (\<lambda>(vs, p''). Inr (v # vs, p'')))"

definition unparse_array :: "(bytes \<Rightarrow> 'v \<Rightarrow> bytes) \<Rightarrow> bytes \<Rightarrow> 'v list \<Rightarrow> bytes" where
  "unparse_array g s vs = foldl g s vs"

locale field_codec =
  fixes parse :: "NetParser \<Rightarrow> ('v \<times> NetParser) result"
    and unparse :: "bytes \<Rightarrow> 'v \<Rightarrow> bytes"
    and enc :: "'v \<Rightarrow> bytes"
    and width :: nat
  assumes unparse_enc: "unparse s v = s @ enc v"
    and enc_width: "length (enc v) = width"
    and parse_enc: "reading p (enc v @ bs) \<Longrightarrow> yields (parse p) (\<lambda>(v', p'). v' = v \<and> reading p' bs)"
    and parse_short: "reading p bs \<Longrightarrow> length bs < width \<Longrightarrow>
      yields (parse p) (\<lambda>(v', p'). np_inv p' \<and> np_error p' = PacketTooShort)"
begin

lemma unparse_array_enc: "unparse_array unparse s vs = s @ concat (map enc vs)"
  unfolding unparse_array_def by (induction vs arbitrary: s) (simp_all add: unparse_enc)

lemma array_width: "length (concat (map enc vs)) = length vs * width"
  by (induction vs) (simp_all add: enc_width)

lemma read_step:
  assumes "reading p (enc v @ bs)" "\<And>p'. reading p' bs \<Longrightarrow> yields (f (v, p')) Q"
  shows "yields (and_then (parse p) f) Q"
  using parse_enc [OF assms(1)] assms(2) by (auto elim!: yields_cases)

lemma parse_array_enc:
  "reading p (concat (map enc vs) @ bs) \<Longrightarrow>
   yields (parse_array parse (length vs) p) (\<lambda>(vs', p'). vs' = vs \<and> reading p' bs)"
proof (induction vs arbitrary: p)
  case Nil
  then show ?case by simp
next
  case (Cons v vs)
  then obtain p1 where p1: "parse p = Inr (v, p1)" "reading p1 (concat (map enc vs) @ bs)"
    using parse_enc [of p v "concat (map enc vs) @ bs"] by (auto elim: yields_cases)
  then obtain p2 where "parse_array parse (length vs) p1 = Inr (vs, p2)" "reading p2 bs"
    using Cons.IH by (auto elim!: yields_cases)
  with p1 show ?case by simp
qed

end

lemma NetParser_parse_int_short:
  assumes "reading p bs" "length bs < len"
  shows "yields (NetParser_parse_int len p) (\<lambda>(v, p'). np_inv p' \<and> np_error p' = PacketTooShort)"
  using assms
  by (simp add: NetParser_parse_int_def NetParser_check_size_def Let_def Buffer_size_def reading_def np_inv_def)

lemma NetParser_parse_int_be:
  assumes "reading p (be_bytes len v @ bs)" "be_value (be_bytes len v) = v"
  shows "yields (NetParser_parse_int len p) (\<lambda>(v', p'). v' = v \<and> reading p' bs)"
  using NetParser_parse_int_ok [where 'a = 'a, OF assms(1), of len] assms(2) by simp

interpretation u8: field_codec NetParser_u8 NetUnparser_u8 "be_bytes 1" 1
  unfolding NetParser_u8_def NetUnparser_u8_def
  by unfold_locales
    (simp_all add: unparse_int_eq NetParser_parse_int_be NetParser_parse_int_short)

interpretation u16: field_codec NetParser_u16 NetUnparser_u16 "be_bytes 2" 2
  unfolding NetParser_u16_def NetUnparser_u16_def
  by unfold_locales (simp_all add: unparse_int_eq NetParser_parse_int_be NetParser_parse_int_short)

interpretation u32: field_codec NetParser_u32 NetUnparser_u32 "be_bytes 4" 4
  unfolding NetParser_u32_def NetUnparser_u32_def
  by unfold_locales (simp_all add: unparse_int_eq NetParser_parse_int_be NetParser_parse_int_short)

lemma parse_array_safe:
  assumes "\<And>p. np_inv p \<Longrightarrow> yields (f p) (\<lambda>(v, p'). np_inv p')" "np_inv p"
  shows "yields (parse_array f n p) (\<lambda>(vs, p'). length vs = n \<and> np_inv p')"
  using assms(2)
proof (induction n arbitrary: p)
  case (Suc n)
  obtain v p1 where "f p = Inr (v, p1)" "np_inv p1"
    using assms(1) [OF Suc.prems] by (auto simp: yields_def)
  moreover from Suc.IH [OF this(2)] obtain vs p2 where "parse_array f n p1 = Inr (vs, p2)" "length vs = n" "np_inv p2"
    by (auto simp: yields_def)
  ultimately show ?case by simp
qed simp

text \<open>Stepping through a sequence of reads that need only be safe.\<close>

lemma parse_int_safe_step:
  fixes f :: "'a :: len word \<times> NetParser \<Rightarrow> 'b result"
  assumes "np_inv p" "\<And>v p'. np_inv p' \<Longrightarrow> yields (f (v, p')) Q"
  shows "yields (and_then (NetParser_parse_int len p) f) Q"
  using NetParser_parse_int_safe [where 'a = 'a, OF assms(1), of len] assms(2) by (auto elim!: yields_cases)

lemmas read_safe_step =
  parse_int_safe_step [where 'a = 32 and len = 4, folded NetParser_u32_def]
  parse_int_safe_step [where 'a = 16 and len = 2, folded NetParser_u16_def]
  parse_int_safe_step [where 'a = 8 and len = 1, folded NetParser_u8_def]

text \<open>Stepping through a sequence of reads of given bytes.\<close>

lemma parse_int_any_step:
  fixes f :: "'a :: len word \<times> NetParser \<Rightarrow> 'b result"
  assumes "reading p bs" "len \<le> length bs"
    "\<And>p'. reading p' (drop len bs) \<Longrightarrow> yields (f (be_value (take len bs), p')) Q"
  shows "yields (and_then (NetParser_parse_int len p) f) Q"
  using NetParser_parse_int_ok [where 'a = 'a, OF assms(1,2)] assms(3) by (auto elim!: yields_cases)

lemmas read_any_step =
  parse_int_any_step [where 'a = 32 and len = 4, folded NetParser_u32_def]
  parse_int_any_step [where 'a = 16 and len = 2, folded NetParser_u16_def]
  parse_int_any_step [where 'a = 8 and len = 1, folded NetParser_u8_def]

lemma be_value_byte: "n < length bs \<Longrightarrow> be_value (take 1 (drop n bs)) = bs ! n"
  by (simp add: be_value_def take_Suc_conv_app_nth hd_drop_conv_nth take_Suc)

lemma parse_array_step:
  assumes "np_inv p" "\<And>vs p'. length vs = n \<Longrightarrow> np_inv p' \<Longrightarrow> yields (f (vs, p')) Q"
  shows "yields (and_then (parse_array NetParser_u8 n p) f) Q"
proof -
  have "yields (parse_array NetParser_u8 n p) (\<lambda>(vs, p'). length vs = n \<and> np_inv p')"
  proof (rule parse_array_safe [OF _ assms(1)])
    show "yields (NetParser_u8 q) (\<lambda>(v, p'). np_inv p')" if "np_inv q" for q
      using NetParser_safe(3) [OF that] by (auto elim!: yields_mono)
  qed
  then show ?thesis using assms(2) by (auto elim!: yields_cases)
qed

section \<open>Properties\<close>

text \<open>Integers survive the wire: an unsigned 8, 16 or 32 bit integer appended by \<open>NetUnparser\<close> occupies
  exactly 1, 2 or 4 bytes, and \<open>NetParser\<close> reads the same integer back from the front of whatever
  follows, without an error.\<close>

theorem unparse_parse_int:
  assumes "length rest + 4 < two64"
  shows "(\<exists>p. NetParser_u8 (NetParser_of (Buffer_of (NetUnparser_u8 [] a @ rest))) = Inr (a, p) \<and> reading p rest) \<and>
    (\<exists>p. NetParser_u16 (NetParser_of (Buffer_of (NetUnparser_u16 [] b @ rest))) = Inr (b, p) \<and> reading p rest) \<and>
    (\<exists>p. NetParser_u32 (NetParser_of (Buffer_of (NetUnparser_u32 [] c @ rest))) = Inr (c, p) \<and> reading p rest)"
proof -
  have r: "reading (NetParser_of (Buffer_of (NetUnparser_u8 [] a @ rest))) (be_bytes 1 a @ rest)"
    "reading (NetParser_of (Buffer_of (NetUnparser_u16 [] b @ rest))) (be_bytes 2 b @ rest)"
    "reading (NetParser_of (Buffer_of (NetUnparser_u32 [] c @ rest))) (be_bytes 4 c @ rest)"
    using assms by (simp_all add: u8.unparse_enc u16.unparse_enc u32.unparse_enc reading_def np_inv_def NetParser_of_def)
  from u8.parse_enc [OF r(1)] u16.parse_enc [OF r(2)] u32.parse_enc [OF r(3)] show ?thesis
    by (auto elim!: yields_cases)
qed

theorem unparse_parse_int_witness:
  "\<exists>p. NetParser_u16 (NetParser_of (Buffer_of (NetUnparser_u16 [] 0x806 @ [1, 2]))) = Inr (0x806, p) \<and> reading p [1, 2]"
  using unparse_parse_int [of "[1, 2]" 0 "0x806" 0] by simp

text \<open>\<open>as_string\<close> has no name for \<open>Unsupported\<close>: it reads past the end of its table exactly there.\<close>

theorem as_string_unsupported: "as_string r = Inl OutOfBounds \<longleftrightarrow> r = Unsupported"
  by (cases r) (simp_all add: as_string_def ParseResult_names_def)

end
