(* ===== verification/Checksum.thy ===== *)
theory Checksum
  imports Net_Parser
begin

text \<open>
  The class \<open>InternetChecksum\<close> of \<open>src/libsponge/util/util.hh\<close> and \<open>src/libsponge/util/util.cc\<close>: a 32-bit
  running sum with a byte parity, folded to 16 bits and complemented. Against it stands the
  arithmetic definition: the sum of the 16-bit words modulo 65535.
\<close>

record InternetChecksum =
  ic_sum :: "32 word"
  ic_parity :: bool

definition InternetChecksum_of :: "32 word \<Rightarrow> InternetChecksum" where
  "InternetChecksum_of initial_sum = \<lparr>ic_sum = initial_sum, ic_parity = False\<rparr>"

definition InternetChecksum_add_byte :: "InternetChecksum \<Rightarrow> byte \<Rightarrow> InternetChecksum" where
  "InternetChecksum_add_byte c b =
     (let val = (ucast b :: 16 word);
          val' = (if \<not> ic_parity c then push_bit 8 val else val)
      in c\<lparr>ic_sum := ic_sum c + ucast val', ic_parity := \<not> ic_parity c\<rparr>)"

definition InternetChecksum_add :: "InternetChecksum \<Rightarrow> bytes \<Rightarrow> InternetChecksum" where
  "InternetChecksum_add c data = foldl InternetChecksum_add_byte c data"

text \<open>One round of the folding loop loses no carry: both halves are below \<open>2 ^ 16\<close>.\<close>

lemma fold_round:
  "unat (drop_bit 16 (w :: 32 word) + (w AND 0xffff)) = unat w div 65536 + unat w mod 65536"
proof -
  have ff: "(0xffff :: 32 word) = mask 16" by (simp add: mask_eq_exp_minus_1)
  have hi: "unat (drop_bit 16 w) = unat w div 65536"
    by (subst unat_drop_bit_eq) (simp add: drop_bit_eq_div)
  have lo: "unat (w AND 0xffff) = unat w mod 65536"
    unfolding ff take_bit_eq_mask [symmetric] by (subst unsigned_take_bit_eq) (simp add: take_bit_eq_mod)
  have "unat w < 4294967296" using unsigned_less [where 'a = nat, of w] by simp
  then have "unat (drop_bit 16 w) + unat (w AND 0xffff) < 2 ^ LENGTH(32)"
    unfolding hi lo using mod_less_divisor [of 65536 "unat w"] by simp
  from iffD1 [OF unat_add_lem this] show ?thesis unfolding hi lo .
qed

function fold_sum :: "32 word \<Rightarrow> 32 word" where
  "fold_sum ret = (if ret > 0xffff then fold_sum (drop_bit 16 ret + (ret AND 0xffff)) else ret)"
  by auto

termination
proof (relation "measure unat")
  fix ret :: "32 word"
  assume "0xffff < ret"
  then have "65535 < unat ret" by (simp add: word_less_nat_alt)
  then have "0 < unat ret div 65536" by (simp add: div_greater_zero_iff)
  moreover have "unat ret = unat ret div 65536 * 65536 + unat ret mod 65536" by simp
  ultimately have "unat ret div 65536 + unat ret mod 65536 < unat ret" by linarith
  then show "(drop_bit 16 ret + (ret AND 0xffff), ret) \<in> measure unat" by (simp add: fold_round)
qed simp

declare fold_sum.simps [simp del]

definition InternetChecksum_value :: "InternetChecksum \<Rightarrow> 16 word" where
  "InternetChecksum_value c = ucast (NOT (fold_sum (ic_sum c)))"

section \<open>The sum as a number\<close>

fun byte_sum :: "bool \<Rightarrow> bytes \<Rightarrow> nat" where
  "byte_sum parity [] = 0"
| "byte_sum parity (b # bs) = (if parity then unat b else 256 * unat b) + byte_sum (\<not> parity) bs"

text \<open>The reference: zero stays zero, any other multiple of 65535 is represented by 65535.\<close>

definition ones_sum :: "nat \<Rightarrow> nat" where
  "ones_sum n = (if n = 0 then 0 else if n mod 65535 = 0 then 65535 else n mod 65535)"

lemma byte_sum_append [simp]:
  "byte_sum p (xs @ ys) = byte_sum p xs + byte_sum (p \<noteq> odd (length xs)) ys"
proof (induction xs arbitrary: p)
  case (Cons x xs)
  have "((\<not> p) \<noteq> odd (length xs)) = (p \<noteq> odd (length (x # xs)))" by auto
  with Cons.IH [of "\<not> p"] show ?case by simp
qed simp

lemma byte_sum_zeros [simp]: "byte_sum p (replicate n 0) = 0"
  by (induction n arbitrary: p) simp_all

lemma byte_unat_less: "unat (b :: byte) < 256"
  using unsigned_less [where 'a = nat, of b] by simp

lemma byte_sum_bound: "byte_sum p bs \<le> 65280 * length bs"
proof (induction bs arbitrary: p)
  case (Cons b bs)
  have "(if p then unat b else 256 * unat b) \<le> 65280" using byte_unat_less [of b] by simp
  then show ?case using Cons.IH [of "\<not> p"] by simp
qed simp

lemma add_byte_sum:
  assumes "unat (ic_sum c) + (if ic_parity c then unat b else 256 * unat b) < two32"
  shows "unat (ic_sum (InternetChecksum_add_byte c b)) = unat (ic_sum c) + (if ic_parity c then unat b else 256 * unat b)"
    and "ic_parity (InternetChecksum_add_byte c b) = (\<not> ic_parity c)"
proof -
  define v where "v = (if \<not> ic_parity c then push_bit 8 (ucast b :: 16 word) else ucast b)"
  have "unat (push_bit 8 (ucast b :: 16 word)) = 256 * unat b"
    using byte_unat_less [of b] by (simp add: push_bit_eq_mult unat_word_ariths unsigned_ucast_eq take_bit_eq_mod)
  then have v: "unat v = (if ic_parity c then unat b else 256 * unat b)"
    using byte_unat_less [of b] by (simp add: v_def unsigned_ucast_eq take_bit_eq_mod)
  have "unat (ucast v :: 32 word) = unat v"
    using unsigned_less [where 'a = nat, of v] by (simp add: unsigned_ucast_eq take_bit_eq_mod)
  with v assms show "unat (ic_sum (InternetChecksum_add_byte c b)) = unat (ic_sum c) + (if ic_parity c then unat b else 256 * unat b)"
    unfolding InternetChecksum_add_byte_def Let_def v_def [symmetric] by (simp add: unat_word_ariths)
  show "ic_parity (InternetChecksum_add_byte c b) = (\<not> ic_parity c)"
    by (simp add: InternetChecksum_add_byte_def Let_def)
qed

lemma add_sum:
  assumes "unat (ic_sum c) + byte_sum (ic_parity c) data < two32"
  shows "unat (ic_sum (InternetChecksum_add c data)) = unat (ic_sum c) + byte_sum (ic_parity c) data \<and>
    ic_parity (InternetChecksum_add c data) = (ic_parity c \<noteq> odd (length data))"
  using assms
proof (induction data arbitrary: c)
  case Nil
  then show ?case by (simp add: InternetChecksum_add_def)
next
  case (Cons b bs)
  let ?c = "InternetChecksum_add_byte c b"
  have b: "unat (ic_sum c) + (if ic_parity c then unat b else 256 * unat b) < two32" using Cons.prems by auto
  note step = add_byte_sum [OF b]
  have "unat (ic_sum ?c) + byte_sum (ic_parity ?c) bs < two32" using Cons.prems step by auto
  from Cons.IH [OF this] step show ?case by (auto simp: InternetChecksum_add_def)
qed

lemma mod_65535_fold: "(n div 65536 + n mod 65536) mod 65535 = n mod (65535 :: nat)"
proof -
  have "n = 65535 * (n div 65536) + (n div 65536 + n mod 65536)" by simp
  then show ?thesis by (metis mod_mult_self4)
qed

lemma ones_sum_fold: "n > 65535 \<Longrightarrow> ones_sum (n div 65536 + n mod 65536) = ones_sum n"
  unfolding ones_sum_def mod_65535_fold using div_greater_zero_iff [of n 65536] by simp

lemma ones_sum_small: "n \<le> 65535 \<Longrightarrow> ones_sum n = n"
  by (cases "n = 65535") (auto simp: ones_sum_def)

lemma fold_sum_ones: "unat (fold_sum w) = ones_sum (unat w)"
proof (induction w rule: fold_sum.induct)
  case (1 w)
  show ?case
  proof (cases "w > 0xffff")
    case True
    then have "unat w > 65535" by (simp add: word_less_nat_alt)
    with True 1 show ?thesis
      by (subst fold_sum.simps) (simp add: fold_round ones_sum_fold)
  next
    case False
    then have "unat w \<le> 65535" by (simp add: word_less_nat_alt)
    with False show ?thesis by (subst fold_sum.simps) (simp add: ones_sum_small)
  qed
qed

lemma ones_sum_le: "ones_sum n \<le> 65535"
  using mod_less_divisor [of 65535 n] by (simp add: ones_sum_def)

lemma value_unat: "unat (InternetChecksum_value c) = 65535 - ones_sum (unat (ic_sum c))"
proof -
  define w where "w = fold_sum (ic_sum c)"
  have w: "unat w \<le> 65535" by (simp add: w_def fold_sum_ones ones_sum_le)
  have "(ucast (NOT w) :: 16 word) = NOT (ucast w)"
    by (rule bit_word_eqI) (auto simp: bit_simps)
  moreover have "unat (NOT (ucast w :: 16 word)) = 65535 - unat (ucast w :: 16 word)"
  proof -
    have "NOT (ucast w :: 16 word) = - 1 - ucast w" by (simp add: not_eq_complement)
    moreover have "unat (- 1 :: 16 word) = 65535" by (simp add: unsigned_minus_1_eq_mask mask_eq_exp_minus_1)
    ultimately show ?thesis by (simp only: unat_sub [OF word_order.extremum])
  qed
  moreover have "unat (ucast w :: 16 word) = unat w" using w by (simp add: unsigned_ucast_eq take_bit_eq_mod)
  ultimately show ?thesis by (simp add: InternetChecksum_value_def w_def fold_sum_ones)
qed

lemma value_zero_iff:
  "InternetChecksum_value c = 0 \<longleftrightarrow> unat (ic_sum c) \<noteq> 0 \<and> unat (ic_sum c) mod 65535 = 0"
proof -
  have "InternetChecksum_value c = 0 \<longleftrightarrow> unat (InternetChecksum_value c) = 0" by (simp add: word_unat_eq_iff)
  also have "\<dots> \<longleftrightarrow> ones_sum (unat (ic_sum c)) = 65535"
    unfolding value_unat using ones_sum_le [of "unat (ic_sum c)"] by simp
  also have "\<dots> \<longleftrightarrow> unat (ic_sum c) \<noteq> 0 \<and> unat (ic_sum c) mod 65535 = 0"
    unfolding ones_sum_def using mod_less_divisor [of 65535 "unat (ic_sum c)"] by auto
  finally show ?thesis .
qed

text \<open>What makes a filled-in checksum verify.\<close>

lemma fill_in_sum: "(n + (65535 - ones_sum n)) mod 65535 = 0 \<and> n + (65535 - ones_sum n) \<noteq> 0"
proof (cases "n mod 65535 = 0")
  case True
  then show ?thesis by (auto simp: ones_sum_def)
next
  case False
  define q r where "q = n div 65535" and "r = n mod 65535"
  have n: "n = q * 65535 + r" "r < 65535" unfolding q_def r_def by simp_all
  have "n + (65535 - r) = (q + 1) * 65535" using n by simp
  then show ?thesis using False n by (simp add: ones_sum_def flip: r_def)
qed

text \<open>The sum of a whole message, and the bound under which the 32-bit counter does not wrap.\<close>

abbreviation cksum_of :: "32 word \<Rightarrow> bytes \<Rightarrow> 16 word" where
  "cksum_of s data \<equiv> InternetChecksum_value (InternetChecksum_add (InternetChecksum_of s) data)"

definition cksum_bound :: "32 word \<Rightarrow> bytes \<Rightarrow> bool" where
  "cksum_bound s data \<longleftrightarrow> unat s < 16777216 \<and> length data \<le> 65535"

lemma cksum_sum:
  assumes "cksum_bound s data"
  shows "unat (ic_sum (InternetChecksum_add (InternetChecksum_of s) data)) = unat s + byte_sum False data"
proof -
  have "65280 * length data \<le> 65280 * 65535" using assms unfolding cksum_bound_def by (intro mult_le_mono) simp_all
  then have "unat s + byte_sum False data < two32"
    using byte_sum_bound [of False data] assms unfolding cksum_bound_def by linarith
  then show ?thesis using add_sum [of "InternetChecksum_of s" data] by (simp add: InternetChecksum_of_def)
qed

lemma cksum_zero_iff:
  "cksum_bound s data \<Longrightarrow> cksum_of s data = 0 \<longleftrightarrow>
     unat s + byte_sum False data \<noteq> 0 \<and> (unat s + byte_sum False data) mod 65535 = 0"
  by (simp add: value_zero_iff cksum_sum)

lemma be_bytes_sum: "byte_sum False (be_bytes 2 (c :: 16 word)) = unat c"
proof -
  have lo: "unat (ucast c :: byte) = unat c mod 256"
    by (subst unsigned_ucast_eq) (simp add: take_bit_eq_mod)
  have "unat c < 65536" using unsigned_less [where 'a = nat, of c] by simp
  then have "unat (drop_bit 8 c) div 256 = 0" "unat (drop_bit 8 c) = unat c div 256"
    by (subst unat_drop_bit_eq, simp add: drop_bit_eq_div div_mult2_eq [symmetric])+
  then have hi: "unat (ucast (drop_bit 8 c) :: byte) = unat c div 256"
    by (subst unsigned_ucast_eq) (simp add: take_bit_eq_mod div_eq_0_iff)
  show ?thesis by (simp add: be_bytes_eqs hi lo)
qed

lemma cksum_fill_in:
  assumes "cksum_bound s (pre @ [0, 0] @ post)" "even (length pre)"
  shows "cksum_of s (pre @ be_bytes 2 (cksum_of s (pre @ [0, 0] @ post)) @ post) = 0"
proof -
  define n where "n = unat s + byte_sum False (pre @ [0, 0] @ post)"
  define c where "c = cksum_of s (pre @ [0, 0] @ post)"
  have c: "unat c = 65535 - ones_sum n" unfolding c_def n_def value_unat cksum_sum [OF assms(1)] ..
  have bound: "cksum_bound s (pre @ be_bytes 2 c @ post)" using assms(1) by (simp add: cksum_bound_def)
  have "unat s + byte_sum False (pre @ be_bytes 2 c @ post) = n + unat c"
    using assms(2) be_bytes_sum [of c] unfolding n_def by simp
  then have "unat s + byte_sum False (pre @ be_bytes 2 c @ post) = n + (65535 - ones_sum n)" unfolding c .
  then show ?thesis
    using fill_in_sum [of n] unfolding c_def [symmetric] cksum_zero_iff [OF bound] by metis
qed

section \<open>Properties\<close>

text \<open>C33. \<open>value()\<close> is the Internet checksum: for messages of up to 65535 bytes the folding loop ends with the
  one's complement of the sum of the message's 16-bit words modulo 65535, where a nonzero
  multiple of 65535 counts as 65535. The counter does not overflow.\<close>

theorem checksum_value_reference:
  assumes "cksum_bound s data"
  shows "unat (InternetChecksum_value (InternetChecksum_add (InternetChecksum_of s) data)) =
    65535 - ones_sum (unat s + byte_sum False data)"
  using assms by (simp add: value_unat cksum_sum)

theorem checksum_value_reference_witness:
  "cksum_bound 0 [0x45, 0, 0xff, 0xff] \<and>
   unat (InternetChecksum_value (InternetChecksum_add (InternetChecksum_of 0) [0x45, 0, 0xff, 0xff])) = 65535 - 0x4500"
  using checksum_value_reference [of 0 "[0x45, 0, 0xff, 0xff]"] by (simp add: cksum_bound_def ones_sum_def)

text \<open>A checksum that is computed with its field zero and then filled in verifies: with the value
  written at an even offset, the checksum over the whole message is zero.\<close>

theorem checksum_fill_in_verifies:
  assumes "cksum_bound s (pre @ [0, 0] @ post)" "even (length pre)"
    and "c = InternetChecksum_value (InternetChecksum_add (InternetChecksum_of s) (pre @ [0, 0] @ post))"
  shows "InternetChecksum_value (InternetChecksum_add (InternetChecksum_of s)
    (NetUnparser_u16 pre c @ post)) = 0"
  using cksum_fill_in [OF assms(1,2)] by (simp add: assms(3) u16.unparse_enc)

theorem checksum_fill_in_verifies_witness:
  "InternetChecksum_value (InternetChecksum_add (InternetChecksum_of 6) (NetUnparser_u16 [1, 2]
     (InternetChecksum_value (InternetChecksum_add (InternetChecksum_of 6) ([1, 2] @ [0, 0] @ [9]))) @ [9])) = 0"
  by (rule checksum_fill_in_verifies) (simp_all add: cksum_bound_def)

text \<open>C34. Every corruption of a single byte is detected: if a message verifies, no message that differs from it
  in one byte does.\<close>

theorem checksum_detects_byte:
  assumes "cksum_bound s (pre @ a # post)" "a \<noteq> b"
    and "InternetChecksum_value (InternetChecksum_add (InternetChecksum_of s) (pre @ a # post)) = 0"
  shows "InternetChecksum_value (InternetChecksum_add (InternetChecksum_of s) (pre @ b # post)) \<noteq> 0"
proof
  assume z: "cksum_of s (pre @ b # post) = 0"
  define f where "f = (if odd (length pre) then 1 else (256 :: nat))"
  define n where "n = unat s + byte_sum False pre + byte_sum (even (length pre)) post"
  have sums: "unat s + byte_sum False (pre @ x # post) = n + f * unat x" for x
    by (simp add: n_def f_def)
  have bound: "cksum_bound s (pre @ b # post)" using assms(1) by (simp add: cksum_bound_def)
  have "(n + f * unat a) mod 65535 = 0" "(n + f * unat b) mod 65535 = 0"
    using assms(3) z unfolding cksum_zero_iff [OF assms(1)] cksum_zero_iff [OF bound] sums by blast+
  then have "65535 dvd int (n + f * unat a) - int (n + f * unat b)"
    by (metis dvd_diff dvd_eq_mod_eq_0 int_dvd_int_iff of_nat_numeral)
  then have "65535 dvd int f * (int (unat a) - int (unat b))" by (simp add: right_diff_distrib)
  moreover have "coprime (65535 :: int) (int f)"
  proof -
    have "coprime (65535 :: int) (2 ^ 8)" unfolding coprime_power_right_iff by simp
    then show ?thesis by (simp add: f_def)
  qed
  ultimately have "65535 dvd int (unat a) - int (unat b)" using coprime_dvd_mult_right_iff by blast
  moreover have "\<bar>int (unat a) - int (unat b)\<bar> < 65535"
    using byte_unat_less [of a] byte_unat_less [of b] by linarith
  ultimately have "int (unat a) - int (unat b) = 0" by (metis abs_numeral dvd_imp_le_int not_less)
  then have "unat a = unat b" by linarith
  then show False using assms(2) word_unat_eq_iff by blast
qed

theorem checksum_detects_byte_witness:
  "InternetChecksum_value (InternetChecksum_add (InternetChecksum_of 0) [0xff, 0xff]) = 0 \<and>
   InternetChecksum_value (InternetChecksum_add (InternetChecksum_of 0) [0xff, 0xfe]) \<noteq> 0"
proof -
  have "cksum_bound 0 ([0xff] @ 0xff # [])" by (simp add: cksum_bound_def)
  moreover from cksum_zero_iff [OF this] have "cksum_of 0 ([0xff] @ 0xff # []) = 0" by simp
  ultimately show ?thesis using checksum_detects_byte [of 0 "[0xff]" "0xff" "[]" "0xfe"] by simp
qed

end
