(* ===== verification/Wrapping_Integers.thy ===== *)
theory Wrapping_Integers
  imports Prelude
begin

text \<open>
  The 32-bit sequence numbers of \<open>src/libsponge/wrapping_integers.hh\<close> and
  \<open>src/libsponge/wrapping_integers.cc\<close>: \<open>WrappingInt32\<close> with its operators, and the conversions
  \<open>wrap\<close> and \<open>unwrap\<close> between absolute 64-bit numbers and numbers relative to an initial
  sequence number. The locale \<open>sequence_space\<close> is the contract the sender and the receiver rely on.
\<close>

unbundle bit_operations_syntax

section \<open>WrappingInt32 and its operators\<close>

datatype WrappingInt32 = WrappingInt32 (raw_value: "32 word")

text \<open>\<open>operator-(WrappingInt32, WrappingInt32)\<close>, an \<open>int32_t\<close>.\<close>

definition wi_diff :: "WrappingInt32 \<Rightarrow> WrappingInt32 \<Rightarrow> int" where
  "wi_diff a b = sint (raw_value a - raw_value b)"

text \<open>\<open>operator+(WrappingInt32, uint32_t)\<close> and \<open>operator-(WrappingInt32, uint32_t)\<close>.\<close>

definition wi_plus :: "WrappingInt32 \<Rightarrow> 32 word \<Rightarrow> WrappingInt32" where
  "wi_plus a b = WrappingInt32 (raw_value a + b)"

definition wi_minus :: "WrappingInt32 \<Rightarrow> 32 word \<Rightarrow> WrappingInt32" where
  "wi_minus a b = wi_plus a (- b)"

section \<open>wrap and unwrap\<close>

definition FACTOR :: nat where
  "FACTOR = two32"

definition FACTOR_MASK :: nat where
  "FACTOR_MASK = 4294967295"

definition wrap :: "nat \<Rightarrow> WrappingInt32 \<Rightarrow> WrappingInt32" where
  "wrap n isn = wi_plus isn (word_of_nat (n AND FACTOR_MASK))"

definition dist :: "nat \<Rightarrow> nat \<Rightarrow> nat" where
  "dist checkpoint x = (if x > checkpoint then sub64 x checkpoint else sub64 checkpoint x)"

definition unwrap :: "WrappingInt32 \<Rightarrow> WrappingInt32 \<Rightarrow> nat \<Rightarrow> nat" where
  "unwrap n isn checkpoint =
     (let n_minus_isn = unat (raw_value n - raw_value isn);
          base = checkpoint div FACTOR * FACTOR;
          abs_n = add64 base n_minus_isn
      in if abs_n > checkpoint \<and> dist checkpoint (sub64 abs_n FACTOR) < dist checkpoint abs_n
         then sub64 abs_n FACTOR
         else if abs_n < checkpoint \<and> dist checkpoint (add64 abs_n FACTOR) < dist checkpoint abs_n
         then add64 abs_n FACTOR
         else abs_n)"

section \<open>Which absolute numbers wrap to a given sequence number\<close>

lemma FACTOR_MASK_mod: "n AND FACTOR_MASK = n mod two32"
proof -
  have "FACTOR_MASK = mask 32" by (simp add: FACTOR_MASK_def mask_eq_exp_minus_1)
  then have "n AND FACTOR_MASK = take_bit 32 n" by (simp add: take_bit_eq_mask)
  then show ?thesis by (simp add: take_bit_eq_mod)
qed

lemma unat_u32_less: "unat (w :: 32 word) < two32"
  using unsigned_less [where 'a = nat, of w] by simp

lemma wrap_eq_iff: "wrap n isn = k \<longleftrightarrow> n mod two32 = unat (raw_value k - raw_value isn)"
proof -
  have "wrap n isn = k \<longleftrightarrow> word_of_nat (n mod two32) = raw_value k - raw_value isn"
    by (cases k) (auto simp: wrap_def wi_plus_def FACTOR_MASK_mod algebra_simps)
  also have "\<dots> \<longleftrightarrow> n mod two32 = unat (raw_value k - raw_value isn)"
    by (simp add: word_unat_eq_iff unat_of_nat)
  finally show ?thesis .
qed

text \<open>
  The decision of \<open>unwrap\<close> with the wrap-around resolved: the interval of the checkpoint, or the
  one below or above it where that exists and is strictly closer.
\<close>

lemma unwrap_cases:
  assumes cp: "cp = q * two32 + r" "r < two32" "q < two32"
    and d: "d = unat (raw_value n - raw_value isn)"
  shows "unwrap n isn cp =
    (if r + two31 < d \<and> 0 < q then (q - 1) * two32 + d
     else if d + two31 < r \<and> q + 1 < two32 then (q + 1) * two32 + d
     else q * two32 + d)"
proof -
  have dlt: "d < two32" by (simp add: d unat_u32_less)
  have base: "cp div two32 * two32 = q * two32" using cp by simp
  have bound: "q * two32 + two32 \<le> two64" using cp(3) by simp
  have abs_n: "add64 (q * two32) d = q * two32 + d" using bound dlt by simp
  consider (below) "r < d" | (above) "d < r" | (same) "d = r" by linarith
  then show ?thesis
  proof cases
    case below
    show ?thesis
    proof (cases "q = 0")
      case True
      have "sub64 d two32 = two64 + d - two32" by (rule sub64_wrap) (use dlt in simp_all)
      with True below cp dlt show ?thesis
        unfolding unwrap_def Let_def FACTOR_def base d [symmetric] abs_n dist_def by simp
    next
      case False
      then obtain k where k: "q = Suc k" by (cases q) auto
      with below cp dlt bound show ?thesis
        unfolding unwrap_def Let_def FACTOR_def base d [symmetric] abs_n dist_def by simp arith
    qed
  next
    case above
    show ?thesis
    proof (cases "q + 1 < two32")
      case True
      then have "(q * two32 + d) + two32 < two64" using dlt by simp
      with above cp dlt bound True show ?thesis
        unfolding unwrap_def Let_def FACTOR_def base d [symmetric] abs_n dist_def by simp arith
    next
      case False
      with cp(3) have q: "q = two32 - 1" by linarith
      have "add64 (q * two32 + d) two32 = d"
        unfolding add64_def q using dlt by simp
      with above cp dlt q show ?thesis
        unfolding unwrap_def Let_def FACTOR_def base d [symmetric] abs_n dist_def by simp
    qed
  next
    case same
    with cp show ?thesis
      unfolding unwrap_def Let_def FACTOR_def base d [symmetric] abs_n dist_def by simp
  qed
qed

lemma split_cp:
  assumes "cp < two64"
  obtains q r where "cp = q * two32 + r" "r < two32" "q < two32"
proof (rule that [of "cp div two32" "cp mod two32"])
  show "cp = cp div two32 * two32 + cp mod two32" by simp
  show "cp mod two32 < two32" by simp
  show "cp div two32 < two32" using assms by (simp add: div_less_iff_less_mult)
qed

text \<open>The same as an interval number \<open>j\<close>, which is the checkpoint's own or a neighbour's.\<close>

lemma unwrap_interval:
  assumes "cp < two64"
  obtains j q r d where "cp = q * two32 + r" "r < two32" "q < two32" "d < two32" "j < two32"
    "d = unat (raw_value n - raw_value isn)" "unwrap n isn cp = j * two32 + d"
    "j + 1 = q \<and> r + two31 < d \<or> j = q + 1 \<and> d + two31 < r \<or>
     j = q \<and> (r + two31 < d \<longrightarrow> q = 0) \<and> (d + two31 < r \<longrightarrow> q + 1 = two32)"
proof -
  define d where "d = unat (raw_value n - raw_value isn)"
  obtain q r where qr: "cp = q * two32 + r" "r < two32" "q < two32"
    using assms by (rule split_cp)
  define j where "j = (if r + two31 < d \<and> 0 < q then q - 1
    else if d + two31 < r \<and> q + 1 < two32 then q + 1 else q)"
  have "unwrap n isn cp = j * two32 + d"
    unfolding j_def unwrap_cases [OF qr d_def] by presburger
  moreover have "d < two32" by (simp add: d_def unat_u32_less)
  moreover have "j < two32" unfolding j_def using qr(3) by presburger
  moreover have "j + 1 = q \<and> r + two31 < d \<or> j = q + 1 \<and> d + two31 < r \<or>
     j = q \<and> (r + two31 < d \<longrightarrow> q = 0) \<and> (d + two31 < r \<longrightarrow> q + 1 = two32)"
    unfolding j_def using qr(3) by presburger
  ultimately show ?thesis using qr d_def that by blast
qed

lemma wrap_unwrap:
  assumes "cp < two64"
  shows "wrap (unwrap n isn cp) isn = n"
proof -
  obtain j d where "unwrap n isn cp = j * two32 + d" "d < two32"
    "d = unat (raw_value n - raw_value isn)"
    using assms by (rule unwrap_interval)
  then show ?thesis by (simp add: wrap_eq_iff)
qed

lemma unwrap_less:
  assumes "cp < two64"
  shows "unwrap n isn cp < two64"
proof -
  obtain j d where "unwrap n isn cp = j * two32 + d" "d < two32" "j < two32"
    using assms by (rule unwrap_interval)
  then show ?thesis by linarith
qed

text \<open>Distances as integers: no absolute number that wraps to \<open>n\<close> is closer.\<close>

lemma unwrap_closest_int:
  assumes "cp < two64" and "m < two64" and "wrap m isn = n"
  shows "\<bar>int (unwrap n isn cp) - int cp\<bar> \<le> \<bar>int m - int cp\<bar>"
proof -
  obtain j q r d where qr: "cp = q * two32 + r" "r < two32" "q < two32" "d < two32" "j < two32"
    "d = unat (raw_value n - raw_value isn)" and u: "unwrap n isn cp = j * two32 + d"
    and near: "j + 1 = q \<and> r + two31 < d \<or> j = q + 1 \<and> d + two31 < r \<or>
     j = q \<and> (r + two31 < d \<longrightarrow> q = 0) \<and> (d + two31 < r \<longrightarrow> q + 1 = two32)"
    using assms(1) by (rule unwrap_interval)
  define k where "k = m div two32"
  from assms(3) qr(6) have "m mod two32 = d" by (simp add: wrap_eq_iff)
  then have m: "m = k * two32 + d" unfolding k_def using div_mult_mod_eq [of m two32] by simp
  have k: "k < two32" unfolding k_def using assms(2) by (simp add: div_less_iff_less_mult)
  have "\<bar>int j * 4294967296 + int d - (int q * 4294967296 + int r)\<bar>
      \<le> \<bar>int k * 4294967296 + int d - (int q * 4294967296 + int r)\<bar>"
    using near
  proof (elim disjE conjE)
    assume "j + 1 = q" "r + two31 < d"
    then show ?thesis using qr(2,4) by (cases "k < q") linarith+
  next
    assume "j = q + 1" "d + two31 < r"
    then show ?thesis using qr(2,4) by (cases "k < j") linarith+
  next
    assume "j = q" "r + two31 < d \<longrightarrow> q = 0" "d + two31 < r \<longrightarrow> q + 1 = two32"
    then show ?thesis using qr(2,4) k
      by (cases k q rule: linorder_cases) linarith+
  qed
  then show ?thesis unfolding u m by (simp add: qr(1))
qed

lemma near_mod_eq:
  assumes "\<bar>int u - int m\<bar> < int two32" "u mod two32 = m mod two32"
  shows "u = m"
proof -
  define a b c where "a = u div two32" and "b = m div two32" and "c = u mod two32"
  have u: "u = a * two32 + c" and m: "m = b * two32 + c"
    unfolding a_def b_def c_def using assms(2) by (metis div_mult_mod_eq)+
  have "a = b" using assms(1) unfolding u m by simp
  then show ?thesis by (simp add: u m)
qed

text \<open>Within half the sequence space of the checkpoint, \<open>unwrap\<close> inverts \<open>wrap\<close>.\<close>

lemma unwrap_wrap_near:
  assumes "cp < two64" "m < two64" and near: "\<bar>int m - int cp\<bar> < int two31"
  shows "unwrap (wrap m isn) isn cp = m"
proof -
  let ?u = "unwrap (wrap m isn) isn cp"
  have "\<bar>int ?u - int cp\<bar> \<le> \<bar>int m - int cp\<bar>"
    by (rule unwrap_closest_int) (use assms in auto)
  with near have "\<bar>int ?u - int m\<bar> < int two32" by simp
  moreover have "?u mod two32 = m mod two32"
    using wrap_unwrap [OF assms(1), of "wrap m isn" isn] wrap_eq_iff [of m isn "wrap m isn"]
      wrap_eq_iff [of ?u isn "wrap m isn"] by simp
  ultimately show ?thesis by (rule near_mod_eq)
qed

lemma wi_minus_plus [simp]: "wi_plus (wi_minus a b) b = a"
  by (cases a) (simp add: wi_plus_def wi_minus_def)

lemma wrap_Suc: "wrap (Suc n) isn = wi_plus (wrap n isn) 1"
proof -
  have "word_of_nat (Suc n mod two32) = (word_of_nat (n mod two32) + 1 :: 32 word)"
    by (simp add: word_unat_eq_iff unat_of_nat unat_word_ariths mod_simps)
  then show ?thesis by (simp add: wrap_def wi_plus_def FACTOR_MASK_mod)
qed

section \<open>The contract of the sequence space\<close>

text \<open>
  What the sender and the receiver use: \<open>decode\<close> gives back the absolute number that was encoded,
  as long as the checkpoint is less than half the space away. Inside: a sequence number that is
  encoded once and decoded against any close checkpoint has one meaning only.
\<close>

locale sequence_space =
  fixes encode :: "nat \<Rightarrow> 'i \<Rightarrow> 'w" and decode :: "'w \<Rightarrow> 'i \<Rightarrow> nat \<Rightarrow> nat"
    and limit :: nat and half :: nat
  assumes decode_encode: "cp < limit \<Longrightarrow> m < limit \<Longrightarrow> \<bar>int m - int cp\<bar> < int half \<Longrightarrow>
      decode (encode m i) i cp = m"
    and encode_decode: "cp < limit \<Longrightarrow> encode (decode w i cp) i = w"
    and decode_limit: "cp < limit \<Longrightarrow> decode w i cp < limit"
begin

lemma decode_agree:
  assumes "cp < limit" "cp' < limit" "m < limit"
    and "\<bar>int m - int cp\<bar> < int half" "\<bar>int m - int cp'\<bar> < int half"
  shows "decode (encode m i) i cp = decode (encode m i) i cp'"
  using assms by (simp add: decode_encode)

lemma encode_inj_near:
  assumes "m < limit" "m' < limit" "\<bar>int m' - int m\<bar> < int half" "0 < half"
    and "encode m i = encode m' i"
  shows "m = m'"
proof -
  have "decode (encode m' i) i m = m'" by (rule decode_encode) (use assms in auto)
  moreover have "decode (encode m i) i m = m" by (rule decode_encode) (use assms in auto)
  ultimately show ?thesis using assms(5) by simp
qed

lemma decode_again: "cp < limit \<Longrightarrow> cp' < limit \<Longrightarrow> \<bar>int (decode w i cp) - int cp'\<bar> < int half \<Longrightarrow>
    decode w i cp' = decode w i cp"
  using decode_encode [of cp' "decode w i cp" i] by (simp add: encode_decode decode_limit)

end

interpretation seqno: sequence_space wrap unwrap two64 two31
  by unfold_locales (simp_all add: unwrap_wrap_near wrap_unwrap unwrap_less)

section \<open>Properties\<close>

text \<open>C12. \<open>unwrap\<close> returns the absolute sequence number that wraps to \<open>n\<close> and is closest to the
  checkpoint: the result is a 64-bit number, wraps back to \<open>n\<close>, and no 64-bit number that wraps
  to \<open>n\<close> is closer. It holds for every checkpoint, also at both ends of the 64-bit range, where
  the additions and subtractions of the code wrap around.\<close>

theorem unwrap_correct:
  assumes "checkpoint < two64"
  shows "unwrap n isn checkpoint < two64 \<and> wrap (unwrap n isn checkpoint) isn = n \<and>
    (\<forall>m < two64. wrap m isn = n \<longrightarrow>
       \<bar>int (unwrap n isn checkpoint) - int checkpoint\<bar> \<le> \<bar>int m - int checkpoint\<bar>)"
  using assms unwrap_less wrap_unwrap unwrap_closest_int by blast

theorem unwrap_correct_witness:
  "(18446744073709551615 :: nat) < two64 \<and>
   wrap (unwrap (WrappingInt32 5) (WrappingInt32 7) 18446744073709551615) (WrappingInt32 7) = WrappingInt32 5"
  using unwrap_correct [of 18446744073709551615 "WrappingInt32 5" "WrappingInt32 7"] by simp

text \<open>Round trip: an absolute sequence number that is wrapped for the wire comes back from \<open>unwrap\<close>
  whenever the checkpoint of the receiving side is less than half the sequence space away.\<close>

theorem unwrap_wrap:
  assumes "checkpoint < two64" "m < two64" "\<bar>int m - int checkpoint\<bar> < int two31"
  shows "unwrap (wrap m isn) isn checkpoint = m"
  using assms by (rule seqno.decode_encode)

theorem unwrap_wrap_witness:
  "unwrap (wrap 4294967300 (WrappingInt32 4294967295)) (WrappingInt32 4294967295) 4294967290 = 4294967300"
  by (rule unwrap_wrap) simp_all

end
