(* ===== verification/TCP_Segment.thy ===== *)
theory TCP_Segment
  imports Checksum Wrapping_Integers
begin

text \<open>
  TCP headers and segments: \<open>src/libsponge/tcp_helpers/tcp_header.hh\<close>, \<open>tcp_header.cc\<close>, \<open>tcp_segment.hh\<close> and
  \<open>tcp_segment.cc\<close>. A segment that is serialized and parsed again is the same segment, its checksum
  verifies, and parsing throws on no input.
\<close>

section \<open>TCPHeader\<close>

record TCPHeader =
  th_sport :: "16 word"
  th_dport :: "16 word"
  th_seqno :: WrappingInt32
  th_ackno :: WrappingInt32
  th_doff :: "8 word"
  th_urg :: bool
  th_ack :: bool
  th_psh :: bool
  th_rst :: bool
  th_syn :: bool
  th_fin :: bool
  th_win :: "16 word"
  th_cksum :: "16 word"
  th_uptr :: "16 word"

definition TCPHeader_LENGTH :: size_t where
  "TCPHeader_LENGTH = 20"

definition TCPHeader_default :: TCPHeader where
  "TCPHeader_default =
     \<lparr>th_sport = 0, th_dport = 0, th_seqno = WrappingInt32 0, th_ackno = WrappingInt32 0,
      th_doff = word_of_nat (TCPHeader_LENGTH div 4),
      th_urg = False, th_ack = False, th_psh = False, th_rst = False, th_syn = False, th_fin = False,
      th_win = 0, th_cksum = 0, th_uptr = 0\<rparr>"

definition TCPHeader_parse :: "TCPHeader \<Rightarrow> NetParser \<Rightarrow> (ParseResult \<times> TCPHeader \<times> NetParser) result" where
  "TCPHeader_parse h p =
     and_then (NetParser_u16 p) (\<lambda>(sport, p).
     and_then (NetParser_u16 p) (\<lambda>(dport, p).
     and_then (NetParser_u32 p) (\<lambda>(seqno, p).
     and_then (NetParser_u32 p) (\<lambda>(ackno, p).
     and_then (NetParser_u8 p) (\<lambda>(off, p).
     and_then (NetParser_u8 p) (\<lambda>(fl_b, p).
     and_then (NetParser_u16 p) (\<lambda>(win, p).
     and_then (NetParser_u16 p) (\<lambda>(cksum, p).
     and_then (NetParser_u16 p) (\<lambda>(uptr, p).
     let doff = drop_bit 4 off;
         h' = h\<lparr>th_sport := sport, th_dport := dport,
                th_seqno := WrappingInt32 seqno, th_ackno := WrappingInt32 ackno, th_doff := doff,
                th_urg := (fl_b AND 32 \<noteq> 0), th_ack := (fl_b AND 16 \<noteq> 0), th_psh := (fl_b AND 8 \<noteq> 0),
                th_rst := (fl_b AND 4 \<noteq> 0), th_syn := (fl_b AND 2 \<noteq> 0), th_fin := (fl_b AND 1 \<noteq> 0),
                th_win := win, th_cksum := cksum, th_uptr := uptr\<rparr>
     in
     if doff < 5 then Inr (HeaderTooShort, h', p)
     else
       and_then (NetParser_remove_prefix p (sub64 (unat doff * 4) TCPHeader_LENGTH)) (\<lambda>p.
       if np_error p \<noteq> NoError then Inr (np_error p, h', p) else Inr (NoError, h', p)))))))))))"

definition flag_byte :: "TCPHeader \<Rightarrow> 8 word" where
  "flag_byte h = (if th_urg h then 32 else 0) OR (if th_ack h then 16 else 0) OR
     (if th_psh h then 8 else 0) OR (if th_rst h then 4 else 0) OR
     (if th_syn h then 2 else 0) OR (if th_fin h then 1 else 0)"

text \<open>\<open>std::string::resize\<close>, padding with zero characters.\<close>

definition string_resize :: "bytes \<Rightarrow> size_t \<Rightarrow> bytes" where
  "string_resize s n = take n s @ replicate (n - length s) 0"

definition TCPHeader_serialize :: "TCPHeader \<Rightarrow> bytes result" where
  "TCPHeader_serialize h =
     (if th_doff h < 5 then Inl (RuntimeError ''TCP header too short'')
      else
        (let ret = NetUnparser_u16 [] (th_sport h);
             ret = NetUnparser_u16 ret (th_dport h);
             ret = NetUnparser_u32 ret (raw_value (th_seqno h));
             ret = NetUnparser_u32 ret (raw_value (th_ackno h));
             ret = NetUnparser_u8 ret (push_bit 4 (th_doff h));
             ret = NetUnparser_u8 ret (flag_byte h);
             ret = NetUnparser_u16 ret (th_win h);
             ret = NetUnparser_u16 ret (th_cksum h);
             ret = NetUnparser_u16 ret (th_uptr h)
         in Inr (string_resize ret (4 * unat (th_doff h)))))"

definition TCPHeader_equal :: "TCPHeader \<Rightarrow> TCPHeader \<Rightarrow> bool" where
  "TCPHeader_equal a b \<longleftrightarrow>
     th_seqno a = th_seqno b \<and> th_ackno a = th_ackno b \<and> th_doff a = th_doff b \<and> th_urg a = th_urg b \<and>
     th_ack a = th_ack b \<and> th_psh a = th_psh b \<and> th_rst a = th_rst b \<and> th_syn a = th_syn b \<and>
     th_fin a = th_fin b \<and> th_win a = th_win b \<and> th_uptr a = th_uptr b"

section \<open>TCPSegment\<close>

record TCPSegment =
  sg_header :: TCPHeader
  sg_payload :: Buffer

definition TCPSegment_default :: TCPSegment where
  "TCPSegment_default = \<lparr>sg_header = TCPHeader_default, sg_payload = Buffer_default\<rparr>"

definition TCPSegment_parse ::
  "TCPSegment \<Rightarrow> Buffer \<Rightarrow> 32 word \<Rightarrow> (ParseResult \<times> TCPSegment) result" where
  "TCPSegment_parse seg buffer datagram_layer_checksum =
     (let check = InternetChecksum_add (InternetChecksum_of datagram_layer_checksum) (Buffer_str buffer) in
      if InternetChecksum_value check \<noteq> 0 then Inr (BadChecksum, seg)
      else
        and_then (TCPHeader_parse (sg_header seg) (NetParser_of buffer)) (\<lambda>(_, header, p).
        Inr (np_error p, seg\<lparr>sg_header := header, sg_payload := np_buffer p\<rparr>)))"

definition TCPSegment_length_in_sequence_space :: "TCPSegment \<Rightarrow> size_t" where
  "TCPSegment_length_in_sequence_space seg =
     add64 (add64 (length (Buffer_str (sg_payload seg))) (if th_syn (sg_header seg) then 1 else 0))
       (if th_fin (sg_header seg) then 1 else 0)"

definition TCPSegment_serialize :: "TCPSegment \<Rightarrow> 32 word \<Rightarrow> BufferList result" where
  "TCPSegment_serialize seg datagram_layer_checksum =
     (let header_out = (sg_header seg)\<lparr>th_cksum := 0\<rparr> in
      and_then (TCPHeader_serialize header_out) (\<lambda>zeroed.
      let check = InternetChecksum_add (InternetChecksum_of datagram_layer_checksum) zeroed;
          check = InternetChecksum_add check (Buffer_str (sg_payload seg));
          header_out = header_out\<lparr>th_cksum := InternetChecksum_value check\<rparr>
      in
      and_then (TCPHeader_serialize header_out) (\<lambda>filled.
      let ret = BufferList_append \<lparr>bl_buffers = []\<rparr> (BufferList_of_string filled)
      in Inr (BufferList_append ret (BufferList_of_Buffer (sg_payload seg))))))"

section \<open>The bytes of a header\<close>

definition header_bytes :: "TCPHeader \<Rightarrow> bytes" where
  "header_bytes h =
     (be_bytes 2 (th_sport h) @ be_bytes 2 (th_dport h) @ be_bytes 4 (raw_value (th_seqno h)) @
      be_bytes 4 (raw_value (th_ackno h)) @ be_bytes 1 (push_bit 4 (th_doff h)) @ be_bytes 1 (flag_byte h) @
      be_bytes 2 (th_win h)) @ be_bytes 2 (th_cksum h) @ (be_bytes 2 (th_uptr h) @
      replicate (4 * unat (th_doff h) - 20) 0)"

lemma TCPHeader_serialize_ok:
  assumes "5 \<le> th_doff h"
  shows "TCPHeader_serialize h = Inr (header_bytes h)" "length (header_bytes h) = 4 * unat (th_doff h)"
proof -
  have "5 \<le> unat (th_doff h)" using assms by (simp add: word_le_nat_alt)
  then show "TCPHeader_serialize h = Inr (header_bytes h)" "length (header_bytes h) = 4 * unat (th_doff h)"
    using assms unfolding TCPHeader_serialize_def header_bytes_def string_resize_def Let_def
    by (simp_all add: u8.unparse_enc [unfolded One_nat_def] u16.unparse_enc u32.unparse_enc not_less [symmetric])
qed

lemma flag_byte_bits:
  "flag_byte h AND 32 \<noteq> 0 \<longleftrightarrow> th_urg h" "flag_byte h AND 16 \<noteq> 0 \<longleftrightarrow> th_ack h"
  "flag_byte h AND 8 \<noteq> 0 \<longleftrightarrow> th_psh h" "flag_byte h AND 4 \<noteq> 0 \<longleftrightarrow> th_rst h"
  "flag_byte h AND 2 \<noteq> 0 \<longleftrightarrow> th_syn h" "flag_byte h AND 1 \<noteq> 0 \<longleftrightarrow> th_fin h"
  by (cases "th_urg h"; cases "th_ack h"; cases "th_psh h"; cases "th_rst h"; cases "th_syn h"; cases "th_fin h";
      simp add: flag_byte_def)+

lemma high_nibble:
  assumes "(d :: 8 word) < 16"
  shows "drop_bit 4 (push_bit 4 d) = d"
proof -
  have "unat d < 16" using assms by (simp add: word_less_nat_alt)
  then have "unat (push_bit 4 d) = 16 * unat d"
    by (simp add: push_bit_eq_mult unat_word_ariths mult.commute)
  moreover have "unat (drop_bit 4 (push_bit 4 d)) = unat (push_bit 4 d) div 16"
    by (subst unat_drop_bit_eq) (simp add: drop_bit_eq_div)
  ultimately show ?thesis by (simp add: word_unat_eq_iff)
qed

lemma TCPHeader_parse_bytes:
  assumes "reading p (header_bytes h @ bs)" "5 \<le> th_doff h" "th_doff h < 16"
  shows "yields (TCPHeader_parse h0 p) (\<lambda>(res, h', p'). res = NoError \<and> h' = h \<and> reading p' bs)"
proof -
  have off: "drop_bit 4 (push_bit 4 (th_doff h)) = th_doff h" using assms(3) by (rule high_nibble)
  have "5 \<le> unat (th_doff h)" "unat (th_doff h) < 16"
    using assms(2,3) by (simp_all add: word_le_nat_alt word_less_nat_alt)
  then have skip: "sub64 (unat (th_doff h) * 4) TCPHeader_LENGTH = 4 * unat (th_doff h) - 20"
    by (simp add: TCPHeader_LENGTH_def)
  have tail: "yields (and_then (NetParser_remove_prefix q (4 * unat (th_doff h) - 20)) (\<lambda>p.
      if np_error p \<noteq> NoError then Inr (np_error p, h, p) else Inr (NoError, h, p)))
      (\<lambda>(res, h', p'). res = NoError \<and> h' = h \<and> reading p' bs)"
    if "reading q (replicate (4 * unat (th_doff h) - 20) 0 @ bs)" for q
    using NetParser_remove_prefix_ok [OF that, of "4 * unat (th_doff h) - 20"]
    by (auto elim!: yields_cases simp: reading_def)
  have h: "h0\<lparr>th_sport := th_sport h, th_dport := th_dport h, th_seqno := th_seqno h, th_ackno := th_ackno h,
      th_doff := th_doff h, th_urg := th_urg h, th_ack := th_ack h, th_psh := th_psh h, th_rst := th_rst h,
      th_syn := th_syn h, th_fin := th_fin h, th_win := th_win h, th_cksum := th_cksum h, th_uptr := th_uptr h\<rparr> = h"
    by simp
  have nl: "\<not> th_doff h < 5" using assms(2) by (simp add: not_less)
  show ?thesis
    unfolding TCPHeader_parse_def
    using assms(1) unfolding header_bytes_def append_assoc
    by - ((rule u8.read_step u16.read_step u32.read_step, assumption, simp only: prod.case)+,
        simp only: Let_def off flag_byte_bits WrappingInt32.collapse h nl skip if_False, rule tail, assumption)
qed

lemma TCPHeader_parse_safe:
  assumes "np_inv p"
  shows "yields (TCPHeader_parse h p) (\<lambda>(res, h', p'). np_inv p' \<and> (res = NoError \<longrightarrow> 5 \<le> th_doff h'))"
proof -
  have skip: "yields (and_then (NetParser_remove_prefix q n) (\<lambda>p.
      if np_error p \<noteq> NoError then Inr (np_error p, h', p) else Inr (NoError, h', p)))
      (\<lambda>(res, h', p'). np_inv p' \<and> (res = NoError \<longrightarrow> 5 \<le> th_doff h'))"
    if "np_inv q" "5 \<le> th_doff h'" for q n h'
    using NetParser_remove_prefix_safe [OF that(1), of n] that(2) by (auto elim!: yields_cases)
  show ?thesis
    unfolding TCPHeader_parse_def Let_def using assms
    by - ((rule read_safe_step, assumption, simp only: prod.case)+, auto intro!: skip simp: not_less)
qed

section \<open>Segments on the wire\<close>

definition seg_ok :: "TCPSegment \<Rightarrow> bool" where
  "seg_ok seg \<longleftrightarrow> 5 \<le> th_doff (sg_header seg) \<and> th_doff (sg_header seg) < 16 \<and> buf_inv (sg_payload seg)"

definition wire_size :: "TCPSegment \<Rightarrow> nat" where
  "wire_size seg = 4 * unat (th_doff (sg_header seg)) + length (Buffer_str (sg_payload seg))"

lemma add_append: "InternetChecksum_add (InternetChecksum_add c xs) ys = InternetChecksum_add c (xs @ ys)"
  by (simp add: InternetChecksum_add_def)

text \<open>The serialized segment, its checksum field split off from what stands before and after it.\<close>

lemma header_bytes_cksum:
  obtains pre post where "even (length pre)" "\<And>c. header_bytes (h\<lparr>th_cksum := c\<rparr>) = pre @ be_bytes 2 c @ post"
proof (rule that)
  show "header_bytes (h\<lparr>th_cksum := c\<rparr>) =
      (be_bytes 2 (th_sport h) @ be_bytes 2 (th_dport h) @ be_bytes 4 (raw_value (th_seqno h)) @
      be_bytes 4 (raw_value (th_ackno h)) @ be_bytes 1 (push_bit 4 (th_doff h)) @ be_bytes 1 (flag_byte h) @
      be_bytes 2 (th_win h)) @ be_bytes 2 c @ (be_bytes 2 (th_uptr h) @ replicate (4 * unat (th_doff h) - 20) 0)" for c
    by (simp add: header_bytes_def flag_byte_def)
qed simp

lemma TCPSegment_serialize_ok:
  assumes "seg_ok seg" "unat ck < 16777216" "wire_size seg \<le> 65535"
  shows "\<exists>bl c. TCPSegment_serialize seg ck = Inr bl \<and> bl_inv bl \<and>
    bl_str bl = header_bytes ((sg_header seg)\<lparr>th_cksum := c\<rparr>) @ Buffer_str (sg_payload seg) \<and>
    length (bl_str bl) = wire_size seg \<and> cksum_of ck (bl_str bl) = 0"
proof -
  define h pay where "h = sg_header seg" and "pay = Buffer_str (sg_payload seg)"
  have d: "5 \<le> th_doff (h\<lparr>th_cksum := c\<rparr>)" for c using assms(1) by (simp add: seg_ok_def h_def)
  define c where "c = cksum_of ck (header_bytes (h\<lparr>th_cksum := 0\<rparr>) @ pay)"
  define bl where "bl = BufferList_append (BufferList_append \<lparr>bl_buffers = []\<rparr>
    (BufferList_of_string (header_bytes (h\<lparr>th_cksum := c\<rparr>)))) (BufferList_of_Buffer (sg_payload seg))"
  have len: "length (header_bytes (h\<lparr>th_cksum := c\<rparr>)) = 4 * unat (th_doff h)" for c
    using TCPHeader_serialize_ok(2) [OF d] by simp
  have str: "bl_str bl = header_bytes (h\<lparr>th_cksum := c\<rparr>) @ pay" by (simp add: bl_def pay_def)
  have ser: "TCPSegment_serialize seg ck = Inr bl"
    unfolding TCPSegment_serialize_def Let_def h_def [symmetric] TCPHeader_serialize_ok(1) [OF d] and_then.simps add_append
    by (simp add: TCPHeader_serialize_ok(1) [OF d] bl_def c_def pay_def)
  have size: "length (bl_str bl) = wire_size seg"
    unfolding str length_append len by (simp add: wire_size_def pay_def h_def)
  have inv: "bl_inv bl" using assms size len unfolding bl_def by (simp add: seg_ok_def wire_size_def h_def)
  obtain pre post where split: "even (length pre)" "\<And>c. header_bytes (h\<lparr>th_cksum := c\<rparr>) = pre @ be_bytes 2 c @ post"
    using header_bytes_cksum by blast
  have z: "be_bytes 2 (0 :: 16 word) = [0, 0]" by (simp add: be_bytes_eqs)
  have "cksum_bound ck (pre @ [0, 0] @ post @ pay)"
    using assms(2,3) size unfolding str split(2) cksum_bound_def by simp
  from cksum_fill_in [OF this split(1)] have "cksum_of ck (bl_str bl) = 0"
    unfolding str c_def split(2) z by simp
  with ser inv str size show ?thesis unfolding h_def pay_def by blast
qed

lemma TCPSegment_parse_wire:
  assumes "seg_ok seg" "length (header_bytes (sg_header seg) @ Buffer_str (sg_payload seg)) < two64"
    and "cksum_of ck (header_bytes (sg_header seg) @ Buffer_str (sg_payload seg)) = 0"
    and b: "buf_inv b" "Buffer_str b = header_bytes (sg_header seg) @ Buffer_str (sg_payload seg)"
  shows "\<exists>seg'. TCPSegment_parse seg0 b ck = Inr (NoError, seg') \<and> sg_header seg' = sg_header seg \<and>
    Buffer_str (sg_payload seg') = Buffer_str (sg_payload seg) \<and> buf_inv (sg_payload seg')"
proof -
  have "reading (NetParser_of b) (header_bytes (sg_header seg) @ Buffer_str (sg_payload seg))"
    using reading_of [OF b(1)] b(2) by simp
  from TCPHeader_parse_bytes [OF this, of "sg_header seg0"] assms(1) obtain p where
    "TCPHeader_parse (sg_header seg0) (NetParser_of b) = Inr (NoError, sg_header seg, p)"
    "reading p (Buffer_str (sg_payload seg))"
    by (auto simp: seg_ok_def elim!: yields_cases)
  then show ?thesis
    using assms(3) b(2) by (simp add: TCPSegment_parse_def Let_def reading_def np_inv_def)
qed

lemma TCPSegment_parse_safe:
  assumes "buf_inv b"
  shows "yields (TCPSegment_parse seg b ck) (\<lambda>(res, seg'). res \<noteq> BadChecksum \<longrightarrow> buf_inv (sg_payload seg'))"
proof (cases "cksum_of ck (Buffer_str b) = 0")
  case True
  have "np_inv (NetParser_of b)" using assms by (simp add: np_inv_def NetParser_of_def)
  from TCPHeader_parse_safe [OF this, of "sg_header seg"] True show ?thesis
    by (auto simp: TCPSegment_parse_def Let_def np_inv_def elim!: yields_cases)
qed (simp add: TCPSegment_parse_def Let_def)

section \<open>Properties\<close>

text \<open>C20. A TCP segment survives the wire: whatever its ports, numbers, flags, window, header length (5 to
  15 words) and payload, \<open>serialize\<close> does not throw, and \<open>parse\<close> of the bytes with the same
  pseudo-checksum succeeds with the same header, except for the checksum that was filled in,
  and the same payload.\<close>

theorem tcp_segment_round_trip:
  assumes "seg_ok seg" "unat ck < 16777216" "wire_size seg \<le> 65535"
  shows "\<exists>bl c seg'. TCPSegment_serialize seg ck = Inr bl \<and>
    TCPSegment_parse seg0 (Buffer_of (BufferList_concatenate bl)) ck = Inr (NoError, seg') \<and>
    sg_header seg' = (sg_header seg)\<lparr>th_cksum := c\<rparr> \<and>
    Buffer_str (sg_payload seg') = Buffer_str (sg_payload seg)"
proof -
  obtain bl c where bl: "TCPSegment_serialize seg ck = Inr bl"
    "bl_str bl = header_bytes ((sg_header seg)\<lparr>th_cksum := c\<rparr>) @ Buffer_str (sg_payload seg)"
    "length (bl_str bl) = wire_size seg" "cksum_of ck (bl_str bl) = 0"
    using TCPSegment_serialize_ok [OF assms] by blast
  have "seg_ok (seg\<lparr>sg_header := (sg_header seg)\<lparr>th_cksum := c\<rparr>\<rparr>)" using assms(1) by (simp add: seg_ok_def)
  from TCPSegment_parse_wire [OF this, of ck "Buffer_of (bl_str bl)" seg0] bl assms(3) show ?thesis by auto
qed

theorem tcp_segment_round_trip_witness:
  "\<exists>bl c seg'. TCPSegment_serialize \<lparr>sg_header = TCPHeader_default\<lparr>th_syn := True, th_win := 1000\<rparr>,
       sg_payload = Buffer_of [1, 2, 3]\<rparr> 77 = Inr bl \<and>
     TCPSegment_parse TCPSegment_default (Buffer_of (BufferList_concatenate bl)) 77 = Inr (NoError, seg') \<and>
     sg_header seg' = TCPHeader_default\<lparr>th_syn := True, th_win := 1000, th_cksum := c\<rparr> \<and>
     Buffer_str (sg_payload seg') = [1, 2, 3]"
  using tcp_segment_round_trip [of "\<lparr>sg_header = TCPHeader_default\<lparr>th_syn := True, th_win := 1000\<rparr>,
       sg_payload = Buffer_of [1, 2, 3]\<rparr>" 77 TCPSegment_default]
  by (simp add: seg_ok_def wire_size_def TCPHeader_default_def TCPHeader_LENGTH_def)

text \<open>C35. Parsing a segment throws on no input, whatever the bytes.\<close>

theorem tcp_segment_parse_total:
  assumes "buf_inv b"
  shows "\<exists>res seg'. TCPSegment_parse seg b ck = Inr (res, seg') \<and> (res \<noteq> BadChecksum \<longrightarrow> buf_inv (sg_payload seg'))"
  using TCPSegment_parse_safe [OF assms, of seg ck] by (auto elim!: yields_cases)

theorem tcp_segment_parse_total_witness:
  "buf_inv (Buffer_of [1, 2, 3]) \<and> (\<exists>res seg'. TCPSegment_parse TCPSegment_default (Buffer_of [1, 2, 3]) 0 = Inr (res, seg'))"
  using tcp_segment_parse_total [of "Buffer_of [1, 2, 3]" TCPSegment_default 0] by auto

text \<open>\<open>TCPSegment::parse\<close> drops the result of the header's parser: a segment whose data offset is below
  five words, which \<open>TCPHeader::parse\<close> rejects as \<open>HeaderTooShort\<close>, is returned as \<open>NoError\<close>, for every
  such header whose checksum verifies.\<close>

theorem tcp_segment_short_header_accepted:
  assumes "buf_inv b" "20 \<le> length (Buffer_str b)" "unat (Buffer_str b ! 12) < 80"
    and "InternetChecksum_value (InternetChecksum_add (InternetChecksum_of ck) (Buffer_str b)) = 0"
  shows "\<exists>seg'. TCPSegment_parse seg b ck = Inr (NoError, seg') \<and> th_doff (sg_header seg') < 5"
proof -
  define bs where "bs = Buffer_str b"
  have len: "20 \<le> length bs" using assms(2) by (simp add: bs_def)
  have off: "drop_bit 4 (bs ! 12) < 5"
  proof -
    have "unat (drop_bit 4 (bs ! 12)) = unat (bs ! 12) div 16"
      by (subst unat_drop_bit_eq) (simp add: drop_bit_eq_div)
    then show ?thesis using assms(3) by (simp add: bs_def word_less_nat_alt div_less_iff_less_mult)
  qed
  have nth: "be_value (take 1 (drop 12 bs)) = bs ! 12" using len by (intro be_value_byte) simp
  have "yields (TCPHeader_parse (sg_header seg) (NetParser_of b))
      (\<lambda>(res, h, p). res = HeaderTooShort \<and> th_doff h < 5 \<and> reading p (drop 20 bs))"
    unfolding TCPHeader_parse_def Let_def
    using reading_of [OF assms(1), folded bs_def]
    by - ((rule read_any_step, assumption, use len in simp, simp only: prod.case drop_drop)+,
        simp add: nth off One_nat_def [symmetric] del: One_nat_def)
  then show ?thesis
    using assms(4) by (auto simp: TCPSegment_parse_def Let_def reading_def elim!: yields_cases)
qed

theorem tcp_segment_short_header_accepted_witness:
  "\<exists>seg'. TCPSegment_parse TCPSegment_default (Buffer_of (replicate 18 0 @ [0xff, 0xff])) 0 = Inr (NoError, seg') \<and>
     th_doff (sg_header seg') < 5"
proof -
  have "cksum_bound 0 (replicate 18 0 @ [0xff, 0xff])" by (simp add: cksum_bound_def)
  from cksum_zero_iff [OF this] have "cksum_of 0 (replicate 18 0 @ [0xff, 0xff]) = 0" by simp
  then show ?thesis
    using tcp_segment_short_header_accepted [of "Buffer_of (replicate 18 0 @ [0xff, 0xff])" 0 TCPSegment_default]
    by (simp add: nth_append)
qed

end
