(* ===== verification/Peer_Stream.thy ===== *)
theory Peer_Stream
  imports Reassembly TCP_Segment
begin

text \<open>
  The segments of a byte stream, which the sender emits and the receiver is given: the part of the specification that
  \<open>TCPSender\<close> and \<open>TCPReceiver\<close> share.
\<close>

text \<open>
  \<open>seg_at S isn k seg\<close>: the segment carries the part of the stream \<open>S\<close> that begins at absolute sequence number
  \<open>k\<close>, where the SYN has number 0 and the byte at index \<open>i\<close> number \<open>i + 1\<close>. A segment that occupies no sequence number,
  which carries an acknowledgment only, may also stand just before the SYN or just after the FIN.
\<close>

abbreviation seg_bytes :: "TCPSegment \<Rightarrow> bytes" where
  "seg_bytes seg \<equiv> Buffer_str (sg_payload seg)"

definition bare :: "TCPSegment \<Rightarrow> bool" where
  "bare seg \<longleftrightarrow> seg_bytes seg = [] \<and> \<not> th_syn (sg_header seg) \<and> \<not> th_fin (sg_header seg)"

definition seg_at :: "bytes \<Rightarrow> WrappingInt32 \<Rightarrow> nat \<Rightarrow> TCPSegment \<Rightarrow> bool" where
  "seg_at S isn k seg \<longleftrightarrow> th_seqno (sg_header seg) = wrap k isn \<and>
     (if bare seg then k \<le> length S + 2
      else (th_syn (sg_header seg) \<longleftrightarrow> k = 0) \<and> genuine S (seg_bytes seg) (k - 1) (th_fin (sg_header seg)))"

lemma seg_at_bound: "seg_at S isn k seg \<Longrightarrow> k \<le> length S + 2"
  by (auto simp: seg_at_def genuine_def split: if_splits)

lemma wrap_zero: "wrap 0 isn = isn"
  by (simp add: wrap_eq_iff)

lemma unwrap_isn: "unwrap isn isn 0 = 0"
  using unwrap_wrap_near [of 0 0 isn] by (simp add: wrap_zero)

text \<open>Segments for concrete histories.\<close>

definition plain_segment :: "nat \<Rightarrow> bool \<Rightarrow> bool \<Rightarrow> bytes \<Rightarrow> TCPSegment" where
  "plain_segment k syn fin payload =
     \<lparr>sg_header = TCPHeader_default\<lparr>th_seqno := wrap k (WrappingInt32 0), th_syn := syn, th_fin := fin\<rparr>,
      sg_payload = Buffer_of payload\<rparr>"

lemma plain_segment_at:
  "syn \<longleftrightarrow> k = 0 \<Longrightarrow> genuine S payload (k - 1) fin \<Longrightarrow> seg_at S (WrappingInt32 0) k (plain_segment k syn fin payload)"
  by (auto simp: seg_at_def plain_segment_def bare_def genuine_def)

end
