(* ===== verification/TCP_Receiver.thy ===== *)
theory TCP_Receiver
  imports Peer_Stream
begin

text \<open>
  \<open>TCPReceiver\<close> of \<open>src/libsponge/tcp_receiver.hh\<close> and \<open>tcp_receiver.cc\<close>: it turns sequence numbers into stream
  indices, pushes the payload that falls into the window, and reports the acknowledgment number and the window.
  The proofs relate it, through the reassembler, to the byte stream and the initial sequence number of the peer.
\<close>

section \<open>State\<close>

record TCPReceiver =
  rc_reassembler :: StreamReassembler
  rc_capacity :: size_t
  rc_received_syn :: bool
  rc_received_fin :: bool
  rc_isn :: WrappingInt32
  rc_abs_fin_seqno :: nat
  rc_checkpoint :: nat

definition TCPReceiver_new :: "size_t \<Rightarrow> TCPReceiver" where
  "TCPReceiver_new capacity =
     \<lparr>rc_reassembler = StreamReassembler_new capacity, rc_capacity = capacity,
      rc_received_syn = False, rc_received_fin = False, rc_isn = WrappingInt32 0,
      rc_abs_fin_seqno = 0, rc_checkpoint = 0\<rparr>"

section \<open>Operations\<close>

definition TCPReceiver_stream_out :: "TCPReceiver \<Rightarrow> ByteStream" where
  "TCPReceiver_stream_out r = sr_output (rc_reassembler r)"

definition TCPReceiver_unassembled_bytes :: "TCPReceiver \<Rightarrow> size_t" where
  "TCPReceiver_unassembled_bytes r = unassembled_bytes (rc_reassembler r)"

definition get_abs_seqno :: "TCPReceiver \<Rightarrow> WrappingInt32 \<Rightarrow> nat" where
  "get_abs_seqno r seqno = unwrap seqno (rc_isn r) (rc_checkpoint r)"

definition stream_index_to_abs_seqno :: "nat \<Rightarrow> nat" where
  "stream_index_to_abs_seqno stream_index = add64 stream_index 1"

definition get_abs_ackno :: "TCPReceiver \<Rightarrow> nat" where
  "get_abs_ackno r =
     (let abs_ackno = add64 1 (bs_bytes_written (TCPReceiver_stream_out r)) in
      if rc_received_fin r \<and> abs_ackno = rc_abs_fin_seqno r then add64 abs_ackno 1 else abs_ackno)"

definition get_stream_index :: "TCPReceiver \<Rightarrow> WrappingInt32 \<Rightarrow> bool \<Rightarrow> (nat \<times> TCPReceiver) result" where
  "get_stream_index r seqno update_cp =
     (let abs_seqno = get_abs_seqno r seqno in
      assert_that (abs_seqno \<noteq> 0)
        (Inr (sub64 abs_seqno 1, if update_cp then r\<lparr>rc_checkpoint := abs_seqno\<rparr> else r)))"

definition TCPReceiver_ackno :: "TCPReceiver \<Rightarrow> WrappingInt32 option" where
  "TCPReceiver_ackno r = (if \<not> rc_received_syn r then None else Some (wrap (get_abs_ackno r) (rc_isn r)))"

definition TCPReceiver_window_size :: "TCPReceiver \<Rightarrow> size_t result" where
  "TCPReceiver_window_size r =
     and_then (ByteStream_buffer_size (TCPReceiver_stream_out r)) (\<lambda>n. Inr (sub64 (rc_capacity r) n))"

text \<open>The three stages of \<open>segment_received\<close> after the stream index is known, and the whole of it.\<close>

definition handle_fin :: "TCPReceiver \<Rightarrow> TCPSegment \<Rightarrow> nat \<Rightarrow> TCPReceiver result" where
  "handle_fin r seg stream_index =
     (if th_fin (sg_header seg) then
        (let abs_fin_seqno = add64 (stream_index_to_abs_seqno stream_index) (Buffer_size (sg_payload seg)) in
         if \<not> rc_received_fin r then Inr (r\<lparr>rc_received_fin := True, rc_abs_fin_seqno := abs_fin_seqno\<rparr>)
         else assert_that (rc_abs_fin_seqno r = abs_fin_seqno) (Inr r))
      else Inr r)"

definition push_in_window :: "TCPReceiver \<Rightarrow> TCPSegment \<Rightarrow> nat \<Rightarrow> TCPReceiver result" where
  "push_in_window r seg stream_index =
     and_then (TCPReceiver_window_size r) (\<lambda>window.
     let win_begin = get_abs_ackno r;
         win_end = add64 win_begin window
     in
     if add64 (add64 stream_index 1) (Buffer_size (sg_payload seg)) \<le> win_end then
       and_then (push_substring (rc_reassembler r) (Buffer_copy (sg_payload seg)) stream_index (th_fin (sg_header seg)))
         (\<lambda>reas. Inr (r\<lparr>rc_reassembler := reas\<rparr>))
     else if add64 stream_index 1 < win_end then
       and_then (substr (Buffer_copy (sg_payload seg)) 0 (sub64 win_end (add64 stream_index 1))) (\<lambda>part.
       and_then (push_substring (rc_reassembler r) part stream_index False)
         (\<lambda>reas. Inr (r\<lparr>rc_reassembler := reas\<rparr>)))
     else Inr r)"

definition segment_received :: "TCPReceiver \<Rightarrow> TCPSegment \<Rightarrow> TCPReceiver result" where
  "segment_received r seg =
     (let header = sg_header seg in
      if \<not> rc_received_syn r \<and> \<not> th_syn header then Inr r
      else
        (let r = (if \<not> rc_received_syn r then r\<lparr>rc_received_syn := True, rc_isn := th_seqno header\<rparr> else r) in
         if get_abs_seqno r (th_seqno header) \<noteq> 0 then
           and_then (get_stream_index r (th_seqno header) True) (\<lambda>(stream_index, r).
           and_then (handle_fin r seg stream_index) (\<lambda>r. push_in_window r seg stream_index))
         else if \<not> th_syn header then Inr r
         else and_then (handle_fin r seg 0) (\<lambda>r. push_in_window r seg 0)))"

section \<open>The invariant\<close>

text \<open>The sequence number is less than \<open>2 ^ 31\<close> away from the last one the receiver saw.\<close>

definition near_checkpoint :: "TCPReceiver \<Rightarrow> nat \<Rightarrow> bool" where
  "near_checkpoint r k \<longleftrightarrow> rc_received_syn r \<longrightarrow> \<bar>int k - int (rc_checkpoint r)\<bar> < int two31"

definition rc_inv :: "bytes \<Rightarrow> WrappingInt32 \<Rightarrow> TCPReceiver \<Rightarrow> bool" where
  "rc_inv S isn r \<longleftrightarrow> sr_inv S (rc_reassembler r) \<and> sr_capacity (rc_reassembler r) = rc_capacity r \<and>
     length S + 2 < two63 \<and> rc_checkpoint r \<le> length S + 2 \<and>
     (if rc_received_syn r then rc_isn r = isn else rc_checkpoint r = 0 \<and> \<not> rc_received_fin r) \<and>
     (rc_received_fin r \<longrightarrow> rc_abs_fin_seqno r = length S + 1) \<and>
     (sr_eof (rc_reassembler r) \<longrightarrow> rc_received_fin r)"

abbreviation rc_next :: "TCPReceiver \<Rightarrow> nat" where
  "rc_next r \<equiv> sr_next_index (rc_reassembler r)"

abbreviation rc_unread :: "TCPReceiver \<Rightarrow> bytes" where
  "rc_unread r \<equiv> bs_contents (TCPReceiver_stream_out r)"

abbreviation rc_read :: "TCPReceiver \<Rightarrow> nat" where
  "rc_read r \<equiv> bs_bytes_read (TCPReceiver_stream_out r)"

lemma rc_inv_output:
  assumes "rc_inv S isn r"
  shows "output_is S (rc_next r) (TCPReceiver_stream_out r)" "bs_capacity (TCPReceiver_stream_out r) = rc_capacity r"
    "rc_next r \<le> length S" "rc_capacity r < two63" "length S + 2 < two63" "length (rc_unread r) \<le> rc_capacity r"
    "length (rc_unread r) + rc_read r = rc_next r"
proof -
  have "sr_pre S (rc_reassembler r)" and c: "sr_capacity (rc_reassembler r) = rc_capacity r" "length S + 2 < two63"
    using assms unfolding rc_inv_def sr_inv_def by blast+
  then show o: "output_is S (rc_next r) (TCPReceiver_stream_out r)" "bs_capacity (TCPReceiver_stream_out r) = rc_capacity r"
    unfolding sr_pre_def sr_base_def TCPReceiver_stream_out_def by auto
  then show "rc_next r \<le> length S" "length S + 2 < two63" using c unfolding output_is_def by blast+
  have "bs_inv (TCPReceiver_stream_out r)" using o(1) unfolding output_is_def by blast
  from bs_bounds(2,3) [OF this] show "rc_capacity r < two63" "length (rc_unread r) \<le> rc_capacity r" unfolding o(2) by blast+
  show "length (rc_unread r) + rc_read r = rc_next r" using o(1) unfolding output_is_def by auto
qed

lemma window_size_ok:
  assumes "rc_inv S isn r"
  shows "TCPReceiver_window_size r = Inr (rc_capacity r - length (rc_unread r))"
  using rc_inv_output [OF assms] unfolding output_is_def TCPReceiver_window_size_def by simp

lemma get_abs_ackno_ok:
  assumes "rc_inv S isn r"
  shows "get_abs_ackno r = 1 + rc_next r + (if rc_received_fin r \<and> rc_next r = length S then 1 else 0)"
proof -
  note o = rc_inv_output [OF assms]
  have "add64 1 (bs_bytes_written (TCPReceiver_stream_out r)) = 1 + rc_next r"
    using o(1,3,5) unfolding output_is_def by simp
  moreover have "rc_received_fin r \<longrightarrow> rc_abs_fin_seqno r = length S + 1" using assms unfolding rc_inv_def by blast
  ultimately show ?thesis using o(3,5) unfolding get_abs_ackno_def Let_def by simp
qed

text \<open>The right edge of the window: it moves only when the application reads, or for the FIN.\<close>

lemma window_edge:
  assumes "rc_inv S isn r"
  shows "add64 (get_abs_ackno r) (rc_capacity r - length (rc_unread r)) =
    1 + rc_read r + rc_capacity r + (if rc_received_fin r \<and> rc_next r = length S then 1 else 0)"
  using rc_inv_output [OF assms] unfolding get_abs_ackno_ok [OF assms] by auto

section \<open>Receiving a segment\<close>

lemma handle_fin_ok:
  assumes "rc_inv S isn r" "rc_received_syn r" "genuine S (Buffer_str (sg_payload seg)) i (th_fin (sg_header seg))"
  shows "\<exists>a. let r' = r\<lparr>rc_received_fin := rc_received_fin r \<or> th_fin (sg_header seg), rc_abs_fin_seqno := a\<rparr>
    in handle_fin r seg i = Inr r' \<and> rc_inv S isn r'"
proof (cases "th_fin (sg_header seg) \<and> \<not> rc_received_fin r")
  case True
  note o = rc_inv_output [OF assms(1)]
  have "i + length (Buffer_str (sg_payload seg)) = length S" using assms(3) True unfolding genuine_def by simp
  then have "add64 (stream_index_to_abs_seqno i) (Buffer_size (sg_payload seg)) = length S + 1"
    using o(5) unfolding stream_index_to_abs_seqno_def Buffer_size_def by simp
  moreover have "rc_inv S isn (r\<lparr>rc_received_fin := True, rc_abs_fin_seqno := length S + 1\<rparr>)"
    using assms(1,2) unfolding rc_inv_def by simp
  ultimately show ?thesis using True unfolding handle_fin_def by (intro exI [of _ "length S + 1"]) (simp add: Let_def)
next
  case False
  have "rc_received_fin r \<longrightarrow> rc_abs_fin_seqno r = length S + 1" "length S + 2 < two63"
    "th_fin (sg_header seg) \<longrightarrow> i + length (Buffer_str (sg_payload seg)) = length S"
    using assms(1,3) unfolding rc_inv_def genuine_def by blast+
  with False have "handle_fin r seg i = Inr r"
    unfolding handle_fin_def stream_index_to_abs_seqno_def Buffer_size_def by (auto simp: Let_def)
  moreover have "r\<lparr>rc_received_fin := rc_received_fin r \<or> th_fin (sg_header seg), rc_abs_fin_seqno := rc_abs_fin_seqno r\<rparr> = r"
    using False by (cases r) auto
  ultimately show ?thesis using assms(1) by (intro exI [of _ "rc_abs_fin_seqno r"]) (simp add: Let_def)
qed

text \<open>What pushing does to the stream: progress as far as the window goes.\<close>

definition advances :: "TCPReceiver \<Rightarrow> nat \<Rightarrow> nat \<Rightarrow> TCPReceiver \<Rightarrow> bool" where
  "advances r i n r' \<longleftrightarrow> rc_next r \<le> rc_next r' \<and> rc_read r' = rc_read r \<and> rc_capacity r' = rc_capacity r \<and>
     bs_error (TCPReceiver_stream_out r') = bs_error (TCPReceiver_stream_out r) \<and>
     (sr_eof (rc_reassembler r) \<longrightarrow> sr_eof (rc_reassembler r')) \<and>
     (i \<le> rc_next r \<longrightarrow> min (i + n) (rc_read r + rc_capacity r) \<le> rc_next r')"

lemma push_advances:
  assumes inv: "rc_inv S isn r" and gen: "genuine S data i eof" and eof: "eof \<longrightarrow> rc_received_fin r"
    and n: "min (i + n) (rc_read r + rc_capacity r) \<le> i + length data \<or> i + n \<le> rc_next r"
  shows "\<exists>reas. push_substring (rc_reassembler r) data i eof = Inr reas \<and>
    rc_inv S isn (r\<lparr>rc_reassembler := reas\<rparr>) \<and> advances r i n (r\<lparr>rc_reassembler := reas\<rparr>)"
proof -
  have sr: "sr_inv S (rc_reassembler r)" using inv unfolding rc_inv_def by blast
  obtain reas where reas: "push_substring (rc_reassembler r) data i eof = Inr reas" "sr_inv S reas"
    "pushed (rc_reassembler r) data i reas" "same_reader (rc_reassembler r) reas"
    "sr_eof reas = (sr_eof (rc_reassembler r) \<or> eof)"
    using push_substring_ok [OF sr gen] by blast
  have room: "rc_next r + sr_room (rc_reassembler r) = rc_read r + rc_capacity r"
    using rc_inv_output [OF inv] inv unfolding sr_room_def TCPReceiver_stream_out_def rc_inv_def by simp
  have mono: "rc_next r \<le> sr_next_index reas" using reas(3) unfolding pushed_def by blast
  have "min (i + n) (rc_read r + rc_capacity r) \<le> sr_next_index reas" if "i \<le> rc_next r"
  proof (cases "i + n \<le> rc_next r")
    case False
    then have le: "min (i + n) (rc_read r + rc_capacity r) \<le> i + length data" using n by blast
    show ?thesis
      by (rule pushed_progress [OF reas(2,3)]) (use le that in \<open>auto simp: room held_def\<close>)
  qed (use mono in auto)
  then have "advances r i n (r\<lparr>rc_reassembler := reas\<rparr>)"
    using mono reas(4,5) unfolding advances_def same_reader_def TCPReceiver_stream_out_def by simp
  moreover have "rc_inv S isn (r\<lparr>rc_reassembler := reas\<rparr>)"
    using inv reas(2,4,5) eof unfolding rc_inv_def same_reader_def by simp
  ultimately show ?thesis using reas(1) by blast
qed

lemma push_in_window_ok:
  assumes inv: "rc_inv S isn r" and gen: "genuine S (Buffer_str (sg_payload seg)) i (th_fin (sg_header seg))"
    and fin: "th_fin (sg_header seg) \<longrightarrow> rc_received_fin r"
  shows "\<exists>reas. push_in_window r seg i = Inr (r\<lparr>rc_reassembler := reas\<rparr>) \<and> rc_inv S isn (r\<lparr>rc_reassembler := reas\<rparr>) \<and>
    advances r i (length (Buffer_str (sg_payload seg))) (r\<lparr>rc_reassembler := reas\<rparr>)"
proof -
  define pay where "pay = Buffer_str (sg_payload seg)"
  define win_end where "win_end = add64 (get_abs_ackno r) (rc_capacity r - length (rc_unread r))"
  note o = rc_inv_output [OF inv]
  have g: "i + length pay \<le> length S" "pay = take (length pay) (drop i S)" using gen unfolding genuine_def pay_def by blast+
  have a: "add64 i 1 = i + 1" "add64 (i + 1) (length pay) = i + 1 + length pay" using g(1) o(5) by simp_all
  have edge: "1 + rc_read r + rc_capacity r \<le> win_end" "win_end \<le> 2 + rc_read r + rc_capacity r" "win_end < two64"
    using window_edge [OF inv] o unfolding win_end_def by auto
  have op: "push_in_window r seg i =
    (if i + 1 + length pay \<le> win_end then
       and_then (push_substring (rc_reassembler r) pay i (th_fin (sg_header seg))) (\<lambda>reas. Inr (r\<lparr>rc_reassembler := reas\<rparr>))
     else if i + 1 < win_end then
       and_then (push_substring (rc_reassembler r) (take (win_end - (i + 1)) pay) i False) (\<lambda>reas. Inr (r\<lparr>rc_reassembler := reas\<rparr>))
     else Inr r)"
    unfolding push_in_window_def window_size_ok [OF inv] and_then.simps Let_def win_end_def [symmetric]
      Buffer_size_def Buffer_copy_def pay_def [symmetric] a
    using edge(3) by simp
  consider "i + 1 + length pay \<le> win_end" | "win_end < i + 1 + length pay" "i + 1 < win_end" | "win_end \<le> i + 1" "win_end < i + 1 + length pay"
    by linarith
  then show ?thesis
  proof cases
    case 1
    with push_advances [OF inv, of pay i "th_fin (sg_header seg)" "length pay"] gen fin op show ?thesis
      unfolding pay_def by auto
  next
    case 2
    define part where "part = take (win_end - (i + 1)) pay"
    have len: "length part = win_end - (i + 1)" using 2 by (simp add: part_def)
    have "part = take (length part) (drop i S)"
      unfolding len unfolding part_def using 2 by (subst g(2)) (simp add: min_def)
    then have "genuine S part i False" unfolding genuine_def using g(1) 2 len by auto
    from push_advances [OF inv this, of "length pay"] edge(1) len 2 op show ?thesis
      unfolding part_def pay_def by fastforce
  next
    case 3
    have "r\<lparr>rc_reassembler := rc_reassembler r\<rparr> = r" by simp
    moreover have "advances r i (length pay) r" using 3 edge o unfolding advances_def by auto
    ultimately show ?thesis using 3 op inv unfolding pay_def by (intro exI [of _ "rc_reassembler r"]) auto
  qed
qed

lemma get_abs_seqno_ok:
  assumes "rc_inv S isn r" "rc_received_syn r" "near_checkpoint r k" "k \<le> length S + 2"
  shows "get_abs_seqno r (wrap k isn) = k"
proof -
  have "rc_isn r = isn" "rc_checkpoint r \<le> length S + 2" "length S + 2 < two63" "\<bar>int k - int (rc_checkpoint r)\<bar> < int two31"
    using assms unfolding rc_inv_def near_checkpoint_def by auto
  with unwrap_wrap_near [of "rc_checkpoint r" k isn] assms(4) show ?thesis unfolding get_abs_seqno_def by simp
qed

text \<open>The stages after the index is known, together.\<close>

lemma receive_at_index:
  assumes "rc_inv S isn r" "rc_received_syn r" "genuine S (Buffer_str (sg_payload seg)) i (th_fin (sg_header seg))"
  shows "\<exists>r'. and_then (handle_fin r seg i) (\<lambda>r. push_in_window r seg i) = Inr r' \<and> rc_inv S isn r' \<and> rc_received_syn r' \<and>
    (rc_received_fin r' \<longleftrightarrow> rc_received_fin r \<or> th_fin (sg_header seg)) \<and> advances r i (length (Buffer_str (sg_payload seg))) r'"
proof -
  define f where "f \<longleftrightarrow> rc_received_fin r \<or> th_fin (sg_header seg)"
  obtain a where 1: "handle_fin r seg i = Inr (r\<lparr>rc_received_fin := f, rc_abs_fin_seqno := a\<rparr>)"
    "rc_inv S isn (r\<lparr>rc_received_fin := f, rc_abs_fin_seqno := a\<rparr>)"
    using handle_fin_ok [OF assms] unfolding f_def Let_def by blast
  obtain reas where 2: "push_in_window (r\<lparr>rc_received_fin := f, rc_abs_fin_seqno := a\<rparr>) seg i =
      Inr (r\<lparr>rc_received_fin := f, rc_abs_fin_seqno := a, rc_reassembler := reas\<rparr>)"
    "rc_inv S isn (r\<lparr>rc_received_fin := f, rc_abs_fin_seqno := a, rc_reassembler := reas\<rparr>)"
    "advances (r\<lparr>rc_received_fin := f, rc_abs_fin_seqno := a\<rparr>) i (length (Buffer_str (sg_payload seg)))
      (r\<lparr>rc_received_fin := f, rc_abs_fin_seqno := a, rc_reassembler := reas\<rparr>)"
    using push_in_window_ok [OF 1(2) assms(3)] f_def by auto
  then show ?thesis using 1 assms(2) f_def unfolding advances_def TCPReceiver_stream_out_def by simp
qed

text \<open>A segment that occupies no sequence number changes nothing but the checkpoint.\<close>

lemma bare_push:
  assumes "rc_inv S isn r" "bare seg"
  shows "and_then (handle_fin r seg i) (\<lambda>r. push_in_window r seg i) = Inr r"
proof -
  have "push_substring reas [] j False = Inr reas" for reas j by (simp add: push_substring_def Let_def)
  then show ?thesis
    using assms(2) by (simp add: bare_def handle_fin_def push_in_window_def window_size_ok [OF assms(1)] Let_def Buffer_copy_def substr_def)
qed

lemma segment_received_ok:
  assumes inv: "rc_inv S isn r" and at: "seg_at S isn k seg" and near: "near_checkpoint r k"
  shows "\<exists>r'. segment_received r seg = Inr r' \<and> rc_inv S isn r' \<and>
    (if rc_received_syn r \<or> th_syn (sg_header seg) then rc_received_syn r' \<and>
      (rc_received_fin r' \<longleftrightarrow> rc_received_fin r \<or> th_fin (sg_header seg)) \<and> advances r (k - 1) (length (seg_bytes seg)) r' else r' = r)"
proof (cases "rc_received_syn r \<or> th_syn (sg_header seg)")
  case False
  then show ?thesis using inv unfolding segment_received_def by simp
next
  case seen: True
  have h: "th_seqno (sg_header seg) = wrap k isn" "th_syn (sg_header seg) \<longrightarrow> k = 0" "k = 0 \<longrightarrow> bare seg \<or> th_syn (sg_header seg)"
    "\<not> bare seg \<longrightarrow> genuine S (seg_bytes seg) (k - 1) (th_fin (sg_header seg))"
    using at unfolding seg_at_def by (auto simp: bare_def split: if_splits)
  define r1 where "r1 = (if \<not> rc_received_syn r then r\<lparr>rc_received_syn := True, rc_isn := wrap k isn\<rparr> else r)"
  have r1: "rc_inv S isn r1" "rc_received_syn r1" "rc_received_fin r1 = rc_received_fin r"
    using inv seen h(2) wrap_zero [of isn] unfolding r1_def rc_inv_def by auto
  have near1: "near_checkpoint r1 k" using near inv seen h(2) unfolding near_checkpoint_def rc_inv_def r1_def by auto
  have kle: "k \<le> length S + 2" by (rule seg_at_bound [OF at])
  have abs: "get_abs_seqno r1 (wrap k isn) = k" by (rule get_abs_seqno_ok [OF r1(1,2) near1 kle])
  have S: "length S + 2 < two63" using inv unfolding rc_inv_def by blast
  define r2 where "r2 = (if k = 0 then r1 else r1\<lparr>rc_checkpoint := k\<rparr>)"
  have r2: "rc_inv S isn r2" "rc_received_syn r2" "rc_received_fin r2 = rc_received_fin r"
    using r1 kle unfolding r2_def rc_inv_def by auto
  have same: "advances r2 i n r' \<Longrightarrow> advances r i n r'" for i n r'
    unfolding advances_def TCPReceiver_stream_out_def r2_def r1_def by auto
  have op: "segment_received r seg = (if k = 0 \<and> \<not> th_syn (sg_header seg) then Inr r2
      else and_then (handle_fin r2 seg (k - 1)) (\<lambda>r. push_in_window r seg (k - 1)))"
    using seen abs h(2) kle S unfolding segment_received_def Let_def h(1) r1_def [symmetric]
    by (auto simp: get_stream_index_def r2_def)
  show ?thesis
  proof (cases "bare seg")
    case True
    then have "segment_received r seg = Inr r2" using op bare_push [OF r2(1) True] by simp
    moreover have "advances r2 (k - 1) 0 r2" by (auto simp: advances_def)
    ultimately show ?thesis using True seen r2 same by (auto simp: bare_def)
  next
    case False
    then have "segment_received r seg = and_then (handle_fin r2 seg (k - 1)) (\<lambda>r. push_in_window r seg (k - 1))"
      using op h(3) by auto
    then show ?thesis using seen receive_at_index [OF r2(1,2) mp [OF h(4) False]] r2(3) same by auto
  qed
qed

section \<open>Histories of segments and reads\<close>

datatype receiver_event = Arrive TCPSegment | ReadStream size_t

fun receiver_step :: "TCPReceiver \<Rightarrow> receiver_event \<Rightarrow> (bytes \<times> TCPReceiver) result" where
  "receiver_step r (Arrive seg) = and_then (segment_received r seg) (\<lambda>r'. Inr ([], r'))"
| "receiver_step r (ReadStream n) =
     and_then (ByteStream_read (TCPReceiver_stream_out r) n) (\<lambda>(d, out).
     Inr (d, r\<lparr>rc_reassembler := (rc_reassembler r)\<lparr>sr_output := out\<rparr>\<rparr>))"

fun receiver_admissible :: "bytes \<Rightarrow> WrappingInt32 \<Rightarrow> TCPReceiver \<Rightarrow> receiver_event \<Rightarrow> bool" where
  "receiver_admissible S isn r (Arrive seg) = (\<exists>k. seg_at S isn k seg \<and> near_checkpoint r k)"
| "receiver_admissible S isn r (ReadStream n) = (n \<le> length (rc_unread r))"

lemma receiver_read_ok:
  assumes "rc_inv S isn r" "n \<le> length (rc_unread r)"
  shows "\<exists>d r'. receiver_step r (ReadStream n) = Inr (d, r') \<and> rc_inv S isn r' \<and> take (rc_read r') S = take (rc_read r) S @ d \<and>
    rc_next r' = rc_next r \<and> rc_received_syn r' = rc_received_syn r \<and> rc_received_fin r' = rc_received_fin r \<and>
    rc_capacity r' = rc_capacity r \<and> bs_error (TCPReceiver_stream_out r') = bs_error (TCPReceiver_stream_out r) \<and>
    bs_input_ended (TCPReceiver_stream_out r') = bs_input_ended (TCPReceiver_stream_out r)"
proof -
  have "sr_inv S (rc_reassembler r)" using assms(1) unfolding rc_inv_def by blast
  from read_output_ok [OF this, of n] assms(2) obtain d out where
    "ByteStream_read (sr_output (rc_reassembler r)) n = Inr (d, out)" "sr_inv S ((rc_reassembler r)\<lparr>sr_output := out\<rparr>)"
    "take (bs_bytes_read out) S = take (bs_bytes_read (sr_output (rc_reassembler r))) S @ d"
    "bs_error out = bs_error (sr_output (rc_reassembler r))" "bs_input_ended out = bs_input_ended (sr_output (rc_reassembler r))"
    unfolding TCPReceiver_stream_out_def by blast
  then show ?thesis using assms(1) by (simp add: TCPReceiver_stream_out_def rc_inv_def)
qed

lemma take_read_le:
  assumes "rc_inv S isn r" "rc_inv S isn r'" "take (rc_read r') S = take (rc_read r) S @ d"
  shows "rc_read r \<le> rc_read r'"
  using arg_cong [OF assms(3), of length] rc_inv_output(3,7) [OF assms(1)] rc_inv_output(3,7) [OF assms(2)] by simp

lemma receiver_step_ok:
  assumes "rc_inv S isn r" "receiver_admissible S isn r e"
  shows "\<exists>d r'. receiver_step r e = Inr (d, r') \<and> rc_inv S isn r' \<and> take (rc_read r') S = take (rc_read r) S @ d \<and>
    rc_next r \<le> rc_next r' \<and> (rc_received_fin r \<longrightarrow> rc_received_fin r') \<and> rc_capacity r' = rc_capacity r"
proof (cases e)
  case (Arrive seg)
  with assms(2) obtain k where "seg_at S isn k seg" "near_checkpoint r k" by auto
  from segment_received_ok [OF assms(1) this] Arrive show ?thesis by (auto simp: advances_def split: if_splits)
next
  case (ReadStream n)
  with receiver_read_ok [OF assms(1), of n] assms(2) show ?thesis by fastforce
qed

interpretation recv: safe_machine receiver_step "rc_inv S isn" "receiver_admissible S isn" for S isn
  by unfold_locales (use receiver_step_ok in blast)

lemma receiver_run_delivers:
  assumes "rc_inv S isn r" "admissible_run receiver_step (receiver_admissible S isn) r es" "run receiver_step r es = Inr (outs, r')"
  shows "take (rc_read r') S = take (rc_read r) S @ concat outs \<and> rc_capacity r' = rc_capacity r"
  using assms
proof (induction es arbitrary: r outs)
  case Nil
  then show ?case by simp
next
  case (Cons e es)
  obtain d r1 where st: "receiver_step r e = Inr (d, r1)" "rc_inv S isn r1" "rc_capacity r1 = rc_capacity r"
    "take (rc_read r1) S = take (rc_read r) S @ d"
    using receiver_step_ok [of S isn r e] Cons.prems(1,2) by auto
  obtain rest where rest: "run receiver_step r1 es = Inr (rest, r')" "outs = d # rest"
    using Cons.prems(3) st(1) by (auto simp: and_then_Inr_iff)
  show ?case using Cons.IH [OF st(2) _ rest(1)] Cons.prems(2) st rest(2) by simp
qed

lemma TCPReceiver_new_inv:
  assumes "0 < cap" "cap < two63" "length S + 2 < two63"
  shows "rc_inv S isn (TCPReceiver_new cap)"
  using StreamReassembler_new_inv [of cap S] assms
  by (simp add: rc_inv_def TCPReceiver_new_def StreamReassembler_new_def)

lemma TCPReceiver_new_fields [simp]:
  "rc_capacity (TCPReceiver_new cap) = cap" "rc_read (TCPReceiver_new cap) = 0" "rc_next (TCPReceiver_new cap) = 0"
  "\<not> rc_received_syn (TCPReceiver_new cap)" "\<not> rc_received_fin (TCPReceiver_new cap)" "rc_checkpoint (TCPReceiver_new cap) = 0"
  by (simp_all add: TCPReceiver_new_def TCPReceiver_stream_out_def StreamReassembler_new_def ByteStream_new_def)

text \<open>Over a stream shorter than half the sequence space no segment is too far from the checkpoint.\<close>

lemma near_checkpoint_short:
  assumes "rc_inv S isn r" "length S + 2 < two31" "seg_at S isn k seg"
  shows "near_checkpoint r k"
  using assms seg_at_bound [OF assms(3)] unfolding near_checkpoint_def rc_inv_def by auto

lemma arrivals_admissible:
  assumes "rc_inv S isn r" "length S + 2 < two31" "\<And>seg. seg \<in> set segs \<Longrightarrow> \<exists>k. seg_at S isn k seg"
  shows "admissible_run receiver_step (receiver_admissible S isn) r (map Arrive segs)"
  using assms
proof (induction segs arbitrary: r)
  case Nil
  then show ?case by simp
next
  case (Cons seg segs)
  have ok: "receiver_admissible S isn r (Arrive seg)"
    using Cons.prems(3) [of seg] near_checkpoint_short [OF Cons.prems(1,2)] by auto
  then obtain d r' where "receiver_step r (Arrive seg) = Inr (d, r')" "rc_inv S isn r'"
    using receiver_step_ok [OF Cons.prems(1)] by blast
  with Cons.IH [of r'] Cons.prems(2,3) ok show ?case by auto
qed

section \<open>Properties\<close>



text \<open>C18. Progress: a segment that begins at or before the acknowledgment number moves it to the end of the segment,
  SYN and FIN included, or to the end of the window, whichever comes first.\<close>

theorem receiver_progress:
  assumes "rc_inv S isn r" "seg_at S isn k seg" "near_checkpoint r k" "rc_received_syn r \<or> th_syn (sg_header seg)"
    "k \<le> get_abs_ackno r" "TCPReceiver_window_size r = Inr w"
  shows "\<exists>r'. segment_received r seg = Inr r' \<and> rc_inv S isn r' \<and>
    min (k + TCPSegment_length_in_sequence_space seg) (get_abs_ackno r + w) \<le> get_abs_ackno r'"
proof -
  define n where "n = length (Buffer_str (sg_payload seg))"
  obtain r' where r': "segment_received r seg = Inr r'" "rc_inv S isn r'"
    "rc_received_fin r' \<longleftrightarrow> rc_received_fin r \<or> th_fin (sg_header seg)" "advances r (k - 1) n r'"
    using segment_received_ok [OF assms(1-3)] assms(4) unfolding n_def by auto
  note o = rc_inv_output [OF assms(1)] and o' = rc_inv_output [OF r'(2)]
  have mono: "rc_next r \<le> rc_next r'" using r'(4) unfolding advances_def by blast
  have "min (k + TCPSegment_length_in_sequence_space seg) (get_abs_ackno r + w) \<le> get_abs_ackno r'"
  proof (cases "bare seg")
    case True
    then have "TCPSegment_length_in_sequence_space seg = 0" by (simp add: bare_def TCPSegment_length_in_sequence_space_def)
    moreover have "get_abs_ackno r \<le> get_abs_ackno r'"
      using mono r'(3) o(3) o'(3) unfolding get_abs_ackno_ok [OF assms(1)] get_abs_ackno_ok [OF r'(2)] by auto
    ultimately show ?thesis using assms(5) by simp
  next
    case False
    then have g: "k - 1 + n \<le> length S" "th_fin (sg_header seg) \<longrightarrow> k - 1 + n = length S" "th_syn (sg_header seg) \<longleftrightarrow> k = 0"
      using assms(2) unfolding seg_at_def genuine_def n_def by auto
    have "k - 1 \<le> rc_next r" using assms(5) g(1) get_abs_ackno_ok [OF assms(1)] by (auto split: if_splits)
    with r'(4) have adv: "min (k - 1 + n) (rc_read r + rc_capacity r) \<le> rc_next r'" unfolding advances_def by blast
    have len: "k + TCPSegment_length_in_sequence_space seg = 1 + (k - 1 + n) + (if th_fin (sg_header seg) then 1 else 0)"
      using g o(5) unfolding TCPSegment_length_in_sequence_space_def n_def [symmetric] by auto
    have "get_abs_ackno r + w = 1 + rc_read r + rc_capacity r + (if rc_received_fin r \<and> rc_next r = length S then 1 else 0)"
      using window_size_ok [OF assms(1)] assms(6) o(6,7) unfolding get_abs_ackno_ok [OF assms(1)] by auto
    then show ?thesis
      using r'(3) adv mono g(1,2) o(3) o'(3) unfolding len get_abs_ackno_ok [OF r'(2)] by (auto simp: min_def split: if_splits)
  qed
  then show ?thesis using r'(1,2) by blast
qed

theorem receiver_progress_witness:
  "\<exists>r'. segment_received (TCPReceiver_new 2) (plain_segment 0 True True [7]) = Inr r' \<and> 3 \<le> get_abs_ackno r'"
proof -
  have inv: "rc_inv [7] (WrappingInt32 0) (TCPReceiver_new 2)" by (intro TCPReceiver_new_inv) simp_all
  have at: "seg_at [7] (WrappingInt32 0) 0 (plain_segment 0 True True [7])" by (rule plain_segment_at) (simp_all add: genuine_def)
  have near: "near_checkpoint (TCPReceiver_new 2) 0" by (simp add: near_checkpoint_def)
  have syn: "th_syn (sg_header (plain_segment 0 True True [7]))" by (simp add: plain_segment_def)
  have "rc_unread (TCPReceiver_new 2) = []" using rc_inv_output(7) [OF inv] by simp
  with syn show ?thesis using receiver_progress [OF inv at near _ _ window_size_ok [OF inv]] get_abs_ackno_ok [OF inv]
    by (auto simp: TCPSegment_length_in_sequence_space_def plain_segment_def)
qed

text \<open>C23. The receiver never takes back window it has offered: no event moves the right edge of the window to the left.\<close>

theorem receiver_window_never_shrinks:
  assumes "rc_inv S isn r" "receiver_admissible S isn r e"
  shows "\<exists>d r' w w'. receiver_step r e = Inr (d, r') \<and> TCPReceiver_window_size r = Inr w \<and>
    TCPReceiver_window_size r' = Inr w' \<and> get_abs_ackno r \<le> get_abs_ackno r' \<and> get_abs_ackno r + w \<le> get_abs_ackno r' + w'"
proof -
  obtain d r' where r': "receiver_step r e = Inr (d, r')" "rc_inv S isn r'" "take (rc_read r') S = take (rc_read r) S @ d"
    "rc_next r \<le> rc_next r'" "rc_received_fin r \<longrightarrow> rc_received_fin r'" "rc_capacity r' = rc_capacity r"
    using receiver_step_ok [OF assms] by blast
  note o = rc_inv_output [OF assms(1)] and o' = rc_inv_output [OF r'(2)]
  have "get_abs_ackno r \<le> get_abs_ackno r'" "get_abs_ackno r + (rc_capacity r - length (rc_unread r)) \<le>
      get_abs_ackno r' + (rc_capacity r' - length (rc_unread r'))"
    using r'(4-6) o(3,6,7) o'(3,6,7) take_read_le [OF assms(1) r'(2,3)]
    unfolding get_abs_ackno_ok [OF assms(1)] get_abs_ackno_ok [OF r'(2)] by auto
  then show ?thesis using r'(1) window_size_ok [OF assms(1)] window_size_ok [OF r'(2)] by blast
qed

theorem receiver_window_never_shrinks_witness:
  "\<exists>d r'. receiver_step (TCPReceiver_new 2) (Arrive (plain_segment 0 True False [])) = Inr (d, r') \<and>
     get_abs_ackno (TCPReceiver_new 2) \<le> get_abs_ackno r'"
proof -
  have inv: "rc_inv [7] (WrappingInt32 0) (TCPReceiver_new 2)" by (intro TCPReceiver_new_inv) simp_all
  have at: "seg_at [7] (WrappingInt32 0) 0 (plain_segment 0 True False [])" by (rule plain_segment_at) (simp_all add: genuine_def)
  have "receiver_admissible [7] (WrappingInt32 0) (TCPReceiver_new 2) (Arrive (plain_segment 0 True False []))"
    using at by (auto simp: near_checkpoint_def)
  from receiver_window_never_shrinks [OF inv this] show ?thesis by blast
qed


end
