(* ===== verification/TCP_Sender.thy ===== *)
theory TCP_Sender
  imports Peer_Stream
begin

text \<open>
  \<open>TCPSender\<close> of \<open>src/libsponge/tcp_sender.hh\<close> and \<open>tcp_sender.cc\<close>, with \<open>TCPConfig\<close>: segmentation of the outgoing stream,
  the window, the segments in flight and the retransmission timer. The timer's \<open>unsigned int\<close> values are naturals below
  \<open>2 ^ 32\<close> with the wrap-around written out; the initial sequence number drawn from the random device is an argument
  of the constructor. The proofs are in \<open>Sending\<close>.
\<close>

section \<open>TCPConfig\<close>

definition DEFAULT_CAPACITY :: size_t where
  "DEFAULT_CAPACITY = 64000"

definition MAX_PAYLOAD_SIZE :: size_t where
  "MAX_PAYLOAD_SIZE = 1000"

definition TIMEOUT_DFLT :: "16 word" where
  "TIMEOUT_DFLT = 1000"

definition MAX_RETX_ATTEMPTS :: nat where
  "MAX_RETX_ATTEMPTS = 8"

record TCPConfig =
  tc_rt_timeout :: "16 word"
  tc_recv_capacity :: size_t
  tc_send_capacity :: size_t
  tc_fixed_isn :: "WrappingInt32 option"

definition TCPConfig_default :: TCPConfig where
  "TCPConfig_default =
     \<lparr>tc_rt_timeout = TIMEOUT_DFLT, tc_recv_capacity = DEFAULT_CAPACITY,
      tc_send_capacity = DEFAULT_CAPACITY, tc_fixed_isn = None\<rparr>"

section \<open>State\<close>

record OutstandingSegment =
  os_seg :: TCPSegment
  os_abs_seqno :: nat

definition OutstandingSegment_length :: "OutstandingSegment \<Rightarrow> nat" where
  "OutstandingSegment_length x = TCPSegment_length_in_sequence_space (os_seg x)"

definition abs_seqno_at_end :: "OutstandingSegment \<Rightarrow> nat" where
  "abs_seqno_at_end x = add64 (os_abs_seqno x) (OutstandingSegment_length x)"

record TCPSender =
  sn_isn :: WrappingInt32
  sn_segments_out :: "TCPSegment list"
  sn_initial_retransmission_timeout :: nat
  sn_rto :: nat
  sn_countdown :: nat
  sn_timing :: bool
  sn_stream :: ByteStream
  sn_next_seqno :: nat
  sn_sent_syn :: bool
  sn_window_begin :: nat
  sn_window_size :: nat
  sn_actual_zero_window_size :: bool
  sn_bytes_in_flight :: nat
  sn_outstanding_segs :: "OutstandingSegment list"
  sn_checkpoint :: nat
  sn_consecutive_rx :: nat
  sn_sent_all :: bool

definition TCPSender_new :: "32 word \<Rightarrow> size_t \<Rightarrow> 16 word \<Rightarrow> WrappingInt32 option \<Rightarrow> TCPSender" where
  "TCPSender_new random capacity retx_timeout fixed_isn =
     \<lparr>sn_isn = (case fixed_isn of Some isn \<Rightarrow> isn | None \<Rightarrow> WrappingInt32 random),
      sn_segments_out = [], sn_initial_retransmission_timeout = unat retx_timeout,
      sn_rto = unat retx_timeout, sn_countdown = unat retx_timeout, sn_timing = False,
      sn_stream = ByteStream_new capacity, sn_next_seqno = 0, sn_sent_syn = False,
      sn_window_begin = 0, sn_window_size = 1, sn_actual_zero_window_size = False,
      sn_bytes_in_flight = 0, sn_outstanding_segs = [], sn_checkpoint = 0,
      sn_consecutive_rx = 0, sn_sent_all = False\<rparr>"

definition TCPSender_next_seqno :: "TCPSender \<Rightarrow> WrappingInt32" where
  "TCPSender_next_seqno s = wrap (sn_next_seqno s) (sn_isn s)"

definition TCPSender_get_abs_seqno :: "TCPSender \<Rightarrow> WrappingInt32 \<Rightarrow> nat" where
  "TCPSender_get_abs_seqno s seqno = unwrap seqno (sn_isn s) (sn_checkpoint s)"

definition get_next_stream_index :: "TCPSender \<Rightarrow> nat result" where
  "get_next_stream_index s = assert_that (sn_next_seqno s > 0) (Inr (sub64 (sn_next_seqno s) 1))"

definition TCPSender_bytes_in_flight :: "TCPSender \<Rightarrow> nat" where
  "TCPSender_bytes_in_flight s = sn_bytes_in_flight s"

definition consecutive_retransmissions :: "TCPSender \<Rightarrow> nat" where
  "consecutive_retransmissions s = sn_consecutive_rx s"

section \<open>The timer\<close>

definition timeout :: "TCPSender \<Rightarrow> bool" where
  "timeout s \<longleftrightarrow> sn_countdown s = 0"

definition begin_timing :: "TCPSender \<Rightarrow> TCPSender" where
  "begin_timing s = s\<lparr>sn_countdown := sn_rto s, sn_timing := True, sn_consecutive_rx := 0\<rparr>"

definition reset_timer :: "TCPSender \<Rightarrow> TCPSender" where
  "reset_timer s =
     s\<lparr>sn_rto := sn_initial_retransmission_timeout s, sn_countdown := sn_initial_retransmission_timeout s,
       sn_timing := False, sn_consecutive_rx := 0\<rparr>"

definition update_timer_after_timeout :: "TCPSender \<Rightarrow> TCPSender" where
  "update_timer_after_timeout s =
     (let s = s\<lparr>sn_consecutive_rx := (sn_consecutive_rx s + 1) mod two32\<rparr>;
          s = (if \<not> sn_actual_zero_window_size s then s\<lparr>sn_rto := (sn_rto s * 2) mod two32\<rparr> else s)
      in s\<lparr>sn_countdown := sn_rto s\<rparr>)"

section \<open>Sending\<close>

definition push_outstanding_seg :: "TCPSender \<Rightarrow> TCPSegment \<Rightarrow> TCPSender" where
  "push_outstanding_seg s seg =
     s\<lparr>sn_outstanding_segs := sn_outstanding_segs s @ [\<lparr>os_seg = seg, os_abs_seqno = sn_next_seqno s\<rparr>],
       sn_bytes_in_flight := add64 (sn_bytes_in_flight s) (TCPSegment_length_in_sequence_space seg)\<rparr>"

definition pop_outstanding_seg :: "TCPSender \<Rightarrow> TCPSender result" where
  "pop_outstanding_seg s =
     (case sn_outstanding_segs s of
        [] \<Rightarrow> assert_that (sn_bytes_in_flight s = 0) (Inr s)
      | x # xs \<Rightarrow> Inr (s\<lparr>sn_bytes_in_flight := sub64 (sn_bytes_in_flight s) (OutstandingSegment_length x),
                       sn_outstanding_segs := xs\<rparr>))"

definition send :: "TCPSender \<Rightarrow> TCPSegment \<Rightarrow> TCPSender result" where
  "send s seg =
     assert_that (TCPSegment_length_in_sequence_space seg > 0) (
     let s = (if \<not> sn_timing s then begin_timing s else s);
         s = s\<lparr>sn_segments_out := sn_segments_out s @ [seg]\<rparr>
     in Inr (push_outstanding_seg s seg))"

definition resend :: "TCPSender \<Rightarrow> TCPSegment \<Rightarrow> TCPSender result" where
  "resend s seg =
     assert_that (TCPSegment_length_in_sequence_space seg > 0) (
     let s = (if \<not> sn_timing s then begin_timing s else s)
     in Inr (s\<lparr>sn_segments_out := sn_segments_out s @ [seg]\<rparr>))"

definition TCPSender_connect :: "TCPSender \<Rightarrow> TCPSender result" where
  "TCPSender_connect s =
     assert_that (\<not> sn_sent_syn s) (
     assert_that (sn_window_begin s = 0) (
     assert_that (sn_window_size s = 1) (
     assert_that (sn_next_seqno s = 0) (
     let seg = TCPSegment_default\<lparr>sg_header := TCPHeader_default\<lparr>th_syn := True, th_seqno := sn_isn s\<rparr>\<rparr> in
     and_then (send s seg) (\<lambda>s. Inr (s\<lparr>sn_sent_syn := True, sn_next_seqno := 1\<rparr>))))))"

definition send_empty_segment :: "TCPSender \<Rightarrow> TCPSender" where
  "send_empty_segment s =
     (let seg = TCPSegment_default\<lparr>sg_header := TCPHeader_default\<lparr>th_seqno := TCPSender_next_seqno s\<rparr>\<rparr>
      in s\<lparr>sn_segments_out := sn_segments_out s @ [seg]\<rparr>)"

text \<open>The body of the loop of \<open>fill_window\<close>: it returns what is left of the window.\<close>

definition fill_step :: "nat \<Rightarrow> TCPSender \<Rightarrow> (nat \<times> TCPSender) result" where
  "fill_step remaining_window_size s =
     and_then (ByteStream_buffer_size (sn_stream s)) (\<lambda>buffered.
     let max_read_size = min remaining_window_size MAX_PAYLOAD_SIZE;
         read_size = min max_read_size buffered
     in
     and_then (ByteStream_read (sn_stream s) read_size) (\<lambda>(data, stream).
     let s = s\<lparr>sn_stream := stream\<rparr>;
         send_eof = (bs_eof stream \<and> read_size < remaining_window_size);
         seg = TCPSegment_default\<lparr>sg_payload := Buffer_of data,
                 sg_header := TCPHeader_default\<lparr>th_seqno := TCPSender_next_seqno s, th_fin := send_eof\<rparr>\<rparr>;
         s = (if send_eof then s\<lparr>sn_sent_all := True\<rparr> else s);
         len = read_size + (if send_eof then 1 else 0)
     in
     and_then (send s seg) (\<lambda>s.
     Inr (sub64 remaining_window_size len, s\<lparr>sn_next_seqno := add64 (sn_next_seqno s) len\<rparr>))))"

lemma fill_step_decreases:
  assumes "0 < remaining" "ByteStream_buffer_empty (sn_stream s) = Inr False" "fill_step remaining s = Inr (remaining', s')"
  shows "remaining' < remaining"
proof -
  obtain n where n: "ByteStream_buffer_size (sn_stream s) = Inr n" "0 < n"
    using assms(2) unfolding ByteStream_buffer_empty_def ByteStream_buffer_size_def by (auto simp: and_then_Inr_iff)
  define k where "k = min (min remaining MAX_PAYLOAD_SIZE) n"
  have k: "0 < k" "k \<le> remaining" using assms(1) n(2) unfolding k_def MAX_PAYLOAD_SIZE_def by auto
  obtain b where b: "remaining' = sub64 remaining (k + (if b \<and> k < remaining then 1 else 0))"
    using assms(3) unfolding fill_step_def n(1) and_then.simps Let_def k_def [symmetric]
    by (auto simp: and_then_Inr_iff split: prod.splits)
  define m where "m = k + (if b \<and> k < remaining then 1 else 0 :: nat)"
  have "0 < m" "m \<le> remaining" using k unfolding m_def by auto
  then show ?thesis unfolding b m_def [symmetric]
    using sub64_no_wrap [of m remaining] sub64_less [of remaining m] by linarith
qed

function fill_loop :: "nat \<Rightarrow> TCPSender \<Rightarrow> TCPSender result" where
  "fill_loop remaining_window_size s =
     (if remaining_window_size > 0 then
        and_then (ByteStream_buffer_empty (sn_stream s)) (\<lambda>empty.
        if \<not> empty \<and> \<not> sn_sent_all s then
          and_then (fill_step remaining_window_size s) (\<lambda>x. fill_loop (fst x) (snd x))
        else Inr s)
      else Inr s)"
  by pat_completeness auto

termination
  by (relation "measure fst") (auto intro: fill_step_decreases)

declare fill_loop.simps [simp del]

definition fill_window :: "TCPSender \<Rightarrow> TCPSender result" where
  "fill_window s =
     (if \<not> sn_sent_syn s then
        assert_that (sn_window_begin s = 0) (
        assert_that (sn_window_size s = 1) (
        assert_that (sn_next_seqno s = 0) (TCPSender_connect s)))
      else if sn_sent_all s then Inr s
      else if add64 (sn_window_begin s) (sn_window_size s) \<le> sn_next_seqno s then Inr s
      else
        (let remaining_window_size = sub64 (add64 (sn_window_begin s) (sn_window_size s)) (sn_next_seqno s) in
         assert_that (remaining_window_size > 0) (
         if bs_eof (sn_stream s) then
           (let seg = TCPSegment_default\<lparr>sg_header := TCPHeader_default\<lparr>th_seqno := TCPSender_next_seqno s, th_fin := True\<rparr>\<rparr> in
            and_then (send s seg) (\<lambda>s.
            Inr (s\<lparr>sn_next_seqno := add64 (sn_next_seqno s) 1, sn_sent_all := True\<rparr>)))
         else fill_loop remaining_window_size s)))"

section \<open>Acknowledgments and time\<close>

text \<open>The loop that removes acknowledged segments, over the list of the outstanding ones.\<close>

fun pop_acknowledged :: "nat \<Rightarrow> OutstandingSegment list \<Rightarrow> TCPSender \<Rightarrow> TCPSender result" where
  "pop_acknowledged abs_ackno [] s = Inr s"
| "pop_acknowledged abs_ackno (x # xs) s =
     (if abs_seqno_at_end x \<le> abs_ackno
      then and_then (pop_outstanding_seg s) (pop_acknowledged abs_ackno xs)
      else Inr s)"

text \<open>The timer, the checkpoint and the end of the flight, after the loop.\<close>

definition after_ack :: "nat \<Rightarrow> TCPSender \<Rightarrow> TCPSender result" where
  "after_ack abs_ackno s =
     (let s = (if abs_ackno > 1 \<and> abs_ackno > sn_checkpoint s
               then (let s = reset_timer s in if sn_outstanding_segs s \<noteq> [] then begin_timing s else s)
               else s);
          s = (if abs_ackno > sn_checkpoint s then s\<lparr>sn_checkpoint := abs_ackno\<rparr> else s)
      in
      if sn_outstanding_segs s = []
      then assert_that (sn_bytes_in_flight s = 0) (Inr (s\<lparr>sn_timing := False\<rparr>))
      else Inr s)"

definition ack_received :: "TCPSender \<Rightarrow> WrappingInt32 \<Rightarrow> 16 word \<Rightarrow> TCPSender result" where
  "ack_received s ackno window_size =
     (let abs_ackno = TCPSender_get_abs_seqno s ackno in
      if abs_ackno > sn_next_seqno s then Inr s
      else
        (let s = s\<lparr>sn_window_begin := abs_ackno, sn_actual_zero_window_size := (window_size = 0)\<rparr>;
             s = s\<lparr>sn_window_size := (if sn_actual_zero_window_size s then 1 else unat window_size)\<rparr>
         in and_then (pop_acknowledged abs_ackno (sn_outstanding_segs s) s) (after_ack abs_ackno)))"

definition TCPSender_tick :: "TCPSender \<Rightarrow> size_t \<Rightarrow> TCPSender result" where
  "TCPSender_tick s ms_since_last_tick =
     (if \<not> sn_timing s then assert_that (sn_outstanding_segs s = []) (Inr s)
      else
        assert_that (sn_outstanding_segs s \<noteq> []) (
        assert_that (\<not> timeout s) (
        if sn_countdown s > ms_since_last_tick then Inr (s\<lparr>sn_countdown := sn_countdown s - ms_since_last_tick\<rparr>)
        else
          and_then (resend (s\<lparr>sn_countdown := 0\<rparr>) (os_seg (hd (sn_outstanding_segs s)))) (\<lambda>s.
          Inr (update_timer_after_timeout s)))))"

end
