(* ===== verification/Sending.thy ===== *)
theory Sending
  imports TCP_Sender
begin

text \<open>
  The correctness of \<open>TCPSender\<close>: the invariant relative to the stream the application writes, what every operation does
  under it, and the properties of whole histories.
\<close>

section \<open>The invariant\<close>

text \<open>The outstanding segments follow one another without gaps, from \<open>a\<close> to \<open>z\<close>.\<close>

fun chain :: "nat \<Rightarrow> OutstandingSegment list \<Rightarrow> nat \<Rightarrow> bool" where
  "chain a [] z = (a = z)"
| "chain a (x # xs) z =
     (os_abs_seqno x = a \<and> 0 < OutstandingSegment_length x \<and> chain (a + OutstandingSegment_length x) xs z)"

definition timer_ok :: "TCPSender \<Rightarrow> bool" where
  "timer_ok s \<longleftrightarrow> 0 < sn_initial_retransmission_timeout s \<and> sn_initial_retransmission_timeout s < 65536 \<and>
     0 < sn_rto s \<and> sn_rto s < two32 \<and> sn_countdown s < two32 \<and> (sn_timing s \<longrightarrow> 0 < sn_countdown s)"

text \<open>\<open>flight S s n\<close>: what is in flight ends at absolute sequence number \<open>n\<close>.\<close>

definition flight :: "bytes \<Rightarrow> TCPSender \<Rightarrow> nat \<Rightarrow> bool" where
  "flight S s n \<longleftrightarrow> length S + 2 < two63 \<and> n \<le> length S + 2 \<and> sn_bytes_in_flight s \<le> n \<and>
     chain (n - sn_bytes_in_flight s) (sn_outstanding_segs s) n \<and>
     (\<forall>x\<in>set (sn_outstanding_segs s). seg_at S (sn_isn s) (os_abs_seqno x) (os_seg x) \<and> sn_checkpoint s < abs_seqno_at_end x) \<and>
     (\<forall>seg\<in>set (sn_segments_out s). \<exists>k. seg_at S (sn_isn s) k seg) \<and>
     (sn_timing s \<longleftrightarrow> sn_outstanding_segs s \<noteq> []) \<and> timer_ok s \<and>
     sn_checkpoint s \<le> n \<and> (sn_outstanding_segs s = [] \<longrightarrow> sn_checkpoint s = n) \<and> sn_window_begin s \<le> n \<and> 0 < sn_window_size s \<and> sn_window_size s < 65536"

text \<open>\<open>written S out\<close>: the application writes \<open>S\<close> into the stream, and ends it only at the end of \<open>S\<close>.\<close>

definition written :: "bytes \<Rightarrow> ByteStream \<Rightarrow> bool" where
  "written S out \<longleftrightarrow> output_is S (bs_bytes_written out) out \<and> (bs_input_ended out \<longrightarrow> bs_bytes_written out = length S)"

text \<open>What is queued or in flight carries no acknowledgment, and no FIN before everything has been sent.\<close>

definition tame :: "bool \<Rightarrow> TCPSegment \<Rightarrow> bool" where
  "tame all seg \<longleftrightarrow> (th_fin (sg_header seg) \<longrightarrow> all) \<and> \<not> th_ack (sg_header seg)"

definition fin_last :: "TCPSender \<Rightarrow> bool" where
  "fin_last s \<longleftrightarrow> (\<forall>seg\<in>set (sn_segments_out s). tame (sn_sent_all s) seg) \<and>
     (\<forall>x\<in>set (sn_outstanding_segs s). tame (sn_sent_all s) (os_seg x))"

definition sn_inv :: "bytes \<Rightarrow> TCPSender \<Rightarrow> bool" where
  "sn_inv S s \<longleftrightarrow> flight S s (sn_next_seqno s) \<and> written S (sn_stream s) \<and> fin_last s \<and>
     sn_next_seqno s = (if sn_sent_syn s then 1 + bs_bytes_read (sn_stream s) + (if sn_sent_all s then 1 else 0) else 0) \<and>
     (\<not> sn_sent_syn s \<longrightarrow> bs_bytes_read (sn_stream s) = 0 \<and> \<not> sn_sent_all s \<and> sn_window_begin s = 0 \<and> sn_window_size s = 1) \<and>
     (sn_sent_all s \<longrightarrow> bs_eof (sn_stream s))"

lemma written_eof:
  assumes "written S out" "bs_eof out"
  shows "bs_bytes_read out = length S" "bs_contents out = []" "bs_input_ended out"
proof -
  have "bs_inv out" using assms(1) unfolding written_def output_is_def by blast
  then show "bs_contents out = []" "bs_input_ended out" using assms(2) unfolding bs_inv_def by blast+
  then show "bs_bytes_read out = length S" using assms(1) unfolding written_def output_is_def by auto
qed

lemma chain_snoc: "chain a xs z \<Longrightarrow> os_abs_seqno x = z \<Longrightarrow> 0 < OutstandingSegment_length x \<Longrightarrow>
  chain a (xs @ [x]) (z + OutstandingSegment_length x)"
  by (induction xs arbitrary: a) auto

lemma chain_le: "chain a xs z \<Longrightarrow> a \<le> z"
  by (induction xs arbitrary: a) fastforce+

lemma chain_sum: "chain a xs z \<Longrightarrow> z = a + sum_list (map OutstandingSegment_length xs)"
  by (induction xs arbitrary: a) fastforce+

lemma chain_end:
  assumes "chain a xs z" "z < two64" "x \<in> set xs"
  shows "abs_seqno_at_end x = os_abs_seqno x + OutstandingSegment_length x \<and> abs_seqno_at_end x \<le> z \<and> a < abs_seqno_at_end x"
  using assms
proof (induction xs arbitrary: a)
  case Nil
  then show ?case by simp
next
  case (Cons y ys)
  then have rest: "chain (a + OutstandingSegment_length y) ys z" by simp
  show ?case
  proof (cases "x = y")
    case True
    with Cons.prems chain_le [OF rest] show ?thesis by (auto simp: abs_seqno_at_end_def)
  next
    case False
    with Cons.IH [OF rest] Cons.prems show ?thesis by auto
  qed
qed

section \<open>Sending a segment\<close>

definition sent :: "TCPSender \<Rightarrow> TCPSegment \<Rightarrow> TCPSender" where
  "sent s seg = push_outstanding_seg ((if \<not> sn_timing s then begin_timing s else s)
     \<lparr>sn_segments_out := sn_segments_out s @ [seg]\<rparr>) seg"

lemma send_eq: "0 < TCPSegment_length_in_sequence_space seg \<Longrightarrow> send s seg = Inr (sent s seg)"
  by (simp add: send_def sent_def Let_def begin_timing_def)

lemma sent_fields [simp]:
  "sn_isn (sent s seg) = sn_isn s" "sn_stream (sent s seg) = sn_stream s" "sn_next_seqno (sent s seg) = sn_next_seqno s"
  "sn_sent_syn (sent s seg) = sn_sent_syn s" "sn_window_begin (sent s seg) = sn_window_begin s"
  "sn_window_size (sent s seg) = sn_window_size s" "sn_actual_zero_window_size (sent s seg) = sn_actual_zero_window_size s"
  "sn_checkpoint (sent s seg) = sn_checkpoint s" "sn_sent_all (sent s seg) = sn_sent_all s"
  "sn_segments_out (sent s seg) = sn_segments_out s @ [seg]" "sn_timing (sent s seg)"
  "sn_outstanding_segs (sent s seg) = sn_outstanding_segs s @ [\<lparr>os_seg = seg, os_abs_seqno = sn_next_seqno s\<rparr>]"
  "sn_bytes_in_flight (sent s seg) = add64 (sn_bytes_in_flight s) (TCPSegment_length_in_sequence_space seg)"
  "sn_rto (sent s seg) = sn_rto s"
  "sn_initial_retransmission_timeout (sent s seg) = sn_initial_retransmission_timeout s"
  "sn_timing s \<Longrightarrow> sn_consecutive_rx (sent s seg) = sn_consecutive_rx s" "sn_consecutive_rx (sent s seg) \<le> sn_consecutive_rx s"
  by (simp_all add: sent_def push_outstanding_seg_def begin_timing_def)

lemma sent_timer: "timer_ok s \<Longrightarrow> timer_ok (sent s seg)"
  by (simp add: timer_ok_def) (simp add: sent_def push_outstanding_seg_def begin_timing_def)

lemma flight_sent:
  assumes f: "flight S s n" and n: "sn_next_seqno s = n" and at: "seg_at S (sn_isn s) n seg"
    and len: "TCPSegment_length_in_sequence_space seg = m" "0 < m" "n + m \<le> length S + 2"
  shows "flight S (sent s seg) (n + m)"
proof -
  let ?x = "\<lparr>os_seg = seg, os_abs_seqno = n\<rparr>"
  have b: "length S + 2 < two63" "sn_bytes_in_flight s \<le> n" "sn_checkpoint s \<le> n" "timer_ok s"
    "chain (n - sn_bytes_in_flight s) (sn_outstanding_segs s) n"
    using f unfolding flight_def by blast+
  have bif: "add64 (sn_bytes_in_flight s) m = sn_bytes_in_flight s + m" using b(1,2) len(3) by simp
  have x: "OutstandingSegment_length ?x = m" "abs_seqno_at_end ?x = n + m"
    using len b(1) by (simp_all add: OutstandingSegment_length_def abs_seqno_at_end_def)
  have "chain (n - sn_bytes_in_flight s) (sn_outstanding_segs s @ [?x]) (n + m)"
    using chain_snoc [OF b(5), of ?x] x(1) len(2) by simp
  moreover have "n + m - (sn_bytes_in_flight s + m) = n - sn_bytes_in_flight s" by simp
  ultimately show ?thesis
    using f n at len x(2) bif sent_timer [OF b(4)] b(2,3) unfolding flight_def by auto
qed

lemma flight_updates [simp]:
  "flight S (s\<lparr>sn_next_seqno := a\<rparr>) n = flight S s n" "flight S (s\<lparr>sn_sent_all := b\<rparr>) n = flight S s n"
  "flight S (s\<lparr>sn_sent_syn := b\<rparr>) n = flight S s n" "flight S (s\<lparr>sn_stream := out\<rparr>) n = flight S s n"
  by (simp_all add: flight_def timer_ok_def)

lemma fin_last_updates [simp]:
  "fin_last (s\<lparr>sn_next_seqno := a\<rparr>) = fin_last s" "fin_last (s\<lparr>sn_sent_syn := b\<rparr>) = fin_last s"
  "fin_last (s\<lparr>sn_stream := out\<rparr>) = fin_last s"
  by (simp_all add: fin_last_def)

lemma fin_last_sent: "fin_last s \<Longrightarrow> tame (sn_sent_all s) seg \<Longrightarrow> fin_last (sent s seg)"
  by (auto simp: fin_last_def)

lemma fin_last_open: "fin_last s \<Longrightarrow> \<not> sn_sent_all s \<Longrightarrow> fin_last (s\<lparr>sn_sent_all := b\<rparr>)"
  by (auto simp: fin_last_def tame_def)

section \<open>Filling the window\<close>

text \<open>What sending new segments leaves alone, and the segments it adds.\<close>

definition extends :: "TCPSender \<Rightarrow> TCPSegment list \<Rightarrow> TCPSender \<Rightarrow> bool" where
  "extends s segs s' \<longleftrightarrow> sn_segments_out s' = sn_segments_out s @ segs \<and> sn_isn s' = sn_isn s \<and>
     sn_window_begin s' = sn_window_begin s \<and> sn_window_size s' = sn_window_size s \<and> sn_checkpoint s' = sn_checkpoint s \<and>
     sn_rto s' = sn_rto s \<and> sn_actual_zero_window_size s' = sn_actual_zero_window_size s \<and>
     sn_initial_retransmission_timeout s' = sn_initial_retransmission_timeout s \<and>
     (sn_timing s \<longrightarrow> sn_timing s' \<and> sn_consecutive_rx s' = sn_consecutive_rx s) \<and> sn_consecutive_rx s' \<le> sn_consecutive_rx s \<and>
     bs_bytes_written (sn_stream s') = bs_bytes_written (sn_stream s) \<and>
     bs_input_ended (sn_stream s') = bs_input_ended (sn_stream s) \<and> bs_error (sn_stream s') = bs_error (sn_stream s) \<and>
     bs_contents (sn_stream s) = concat (map seg_bytes segs) @ bs_contents (sn_stream s') \<and>
     (\<forall>seg\<in>set segs. length (seg_bytes seg) \<le> MAX_PAYLOAD_SIZE)"

lemma extends_trans: "extends s xs s' \<Longrightarrow> extends s' ys s'' \<Longrightarrow> extends s (xs @ ys) s''"
  unfolding extends_def by auto

lemma extends_refl: "extends s [] s"
  by (simp add: extends_def)

lemma sn_inv_open:
  assumes "sn_inv S s" "sn_sent_syn s" "\<not> sn_sent_all s"
  shows "sn_next_seqno s = 1 + bs_bytes_read (sn_stream s)" "flight S s (sn_next_seqno s)"
    "output_is S (bs_bytes_written (sn_stream s)) (sn_stream s)"
    "bs_bytes_read (sn_stream s) + length (bs_contents (sn_stream s)) = bs_bytes_written (sn_stream s)"
    "bs_bytes_written (sn_stream s) \<le> length S" "length S + 2 < two63"
proof -
  show a: "sn_next_seqno s = 1 + bs_bytes_read (sn_stream s)" "flight S s (sn_next_seqno s)"
    "output_is S (bs_bytes_written (sn_stream s)) (sn_stream s)"
    using assms unfolding sn_inv_def written_def by auto
  show "bs_bytes_read (sn_stream s) + length (bs_contents (sn_stream s)) = bs_bytes_written (sn_stream s)"
    "bs_bytes_written (sn_stream s) \<le> length S"
    using a(3) unfolding output_is_def by auto
  show "length S + 2 < two63" using a(2) unfolding flight_def by blast
qed

lemma next_seqno_stream: "TCPSender_next_seqno (s\<lparr>sn_stream := out\<rparr>) = TCPSender_next_seqno s"
  by (simp add: TCPSender_next_seqno_def)

lemma fill_step_ok:
  assumes inv: "sn_inv S s" "sn_sent_syn s" "\<not> sn_sent_all s" and ne: "bs_contents (sn_stream s) \<noteq> []"
    and rem: "0 < remaining" "remaining < two64"
  shows "\<exists>remaining' s' seg. fill_step remaining s = Inr (remaining', s') \<and> sn_inv S s' \<and> sn_sent_syn s' \<and>
    sn_next_seqno s' + remaining' = sn_next_seqno s + remaining \<and> extends s [seg] s' \<and>
    (bs_eof (sn_stream s') \<longrightarrow> sn_sent_all s' \<or> remaining' = 0)"
proof -
  define out where "out = sn_stream s"
  define k where "k = min (min remaining MAX_PAYLOAD_SIZE) (length (bs_contents out))"
  note o = sn_inv_open [OF inv, folded out_def]
  have k: "0 < k" "k \<le> remaining" "k \<le> MAX_PAYLOAD_SIZE" "k \<le> length (bs_contents out)"
    using rem ne unfolding k_def MAX_PAYLOAD_SIZE_def out_def by auto
  obtain out' where rd: "ByteStream_read out k = Inr (take k (drop (bs_bytes_read out) S), out')"
    "output_is S (bs_bytes_written out) out'" "bs_contents out' = drop k (bs_contents out)"
    "bs_bytes_read out' = bs_bytes_read out + k" "bs_input_ended out' = bs_input_ended out" "bs_error out' = bs_error out"
    using output_read [OF o(3) k(4)] by blast
  define data where "data = take k (drop (bs_bytes_read out) S)"
  define eof where "eof \<longleftrightarrow> bs_eof out' \<and> k < remaining"
  define seg where "seg = TCPSegment_default\<lparr>sg_payload := Buffer_of data,
    sg_header := TCPHeader_default\<lparr>th_seqno := TCPSender_next_seqno s, th_fin := eof\<rparr>\<rparr>"
  define m where "m = k + (if eof then 1 else 0 :: nat)"
  define s1 where "s1 = s\<lparr>sn_stream := out', sn_sent_all := eof\<rparr>"
  have bw: "bs_bytes_written out' = bs_bytes_written out" using rd(2) unfolding output_is_def by blast
  have wr: "written S out'" using rd(2,5) bw inv(1) unfolding written_def sn_inv_def out_def by simp
  have data: "length data = k" "data \<noteq> []" using k o(4,5) unfolding data_def by auto
  have data_eq: "data = take k (bs_contents out)"
    using o(3,4) k(4) unfolding data_def output_is_def by (simp add: drop_take)
  have eof_all: "eof \<Longrightarrow> bs_bytes_read out + k = length S" using written_eof(1) [OF wr] rd(4) unfolding eof_def by simp
  have fields: "seg_bytes seg = data" "th_syn (sg_header seg) = False" "th_fin (sg_header seg) = eof" "\<not> th_ack (sg_header seg)"
    "th_seqno (sg_header seg) = wrap (sn_next_seqno s) (sn_isn s)"
    by (simp_all add: seg_def TCPHeader_default_def TCPSender_next_seqno_def)
  have at: "seg_at S (sn_isn s) (sn_next_seqno s) seg"
    unfolding seg_at_def bare_def fields genuine_def using data eof_all o(1,4,5) k unfolding data_def by auto
  have len: "TCPSegment_length_in_sequence_space seg = m"
    unfolding TCPSegment_length_in_sequence_space_def fields using data(1) k o(4-6) by (simp add: m_def)
  have m: "0 < m" "m \<le> remaining" "sn_next_seqno s + m \<le> length S + 2"
    using k o eof_all unfolding m_def eof_def by auto
  have fl: "flight S (sent s1 seg) (sn_next_seqno s + m)"
    using flight_sent [of S s1 "sn_next_seqno s" seg m] o(2) at len m unfolding s1_def by simp
  define s' where "s' = (sent s1 seg)\<lparr>sn_next_seqno := sn_next_seqno s + m\<rparr>"
  have sub: "sub64 remaining m = remaining - m" "add64 (sn_next_seqno s) m = sn_next_seqno s + m"
    using m rem(2) o(6) by simp_all
  have bsz: "ByteStream_buffer_size out = Inr (length (bs_contents out))" using o(3) unfolding output_is_def by simp
  have s1: "(if eof then s\<lparr>sn_stream := out', sn_sent_all := True\<rparr> else s\<lparr>sn_stream := out'\<rparr>) = s1"
    using inv(3) unfolding s1_def by (cases s) auto
  have eq: "fill_step remaining s = Inr (remaining - m, s')"
    unfolding fill_step_def out_def [symmetric] bsz and_then.simps Let_def k_def [symmetric]
    unfolding rd(1) [folded data_def] and_then.simps prod.case eof_def [symmetric] next_seqno_stream seg_def [symmetric] s1 m_def [symmetric]
    using send_eq [of seg s1] len m(1) sub by (simp add: s'_def) (simp add: s1_def)
  have "fin_last s" using inv(1) unfolding sn_inv_def by blast
  from fin_last_open [OF this inv(3), of eof] have "fin_last s1" unfolding s1_def fin_last_def by simp
  moreover have "tame (sn_sent_all s1) seg" using fields(3,4) unfolding tame_def s1_def by simp
  ultimately have "fin_last s'" using fin_last_sent unfolding s'_def by simp
  then have "sn_inv S s'"
    using fl inv wr rd(4) o(1) unfolding sn_inv_def s'_def s1_def m_def by (simp add: eof_def)
  moreover have "extends s [seg] s'"
    using bw rd(3,5,6) data(1) data_eq k(3) fields(1) sent_fields(16,17) [of s1 seg] unfolding extends_def s'_def s1_def by (simp add: out_def)
  moreover have "bs_eof (sn_stream s') \<longrightarrow> sn_sent_all s' \<or> remaining - m = 0"
    using k(2) unfolding s'_def s1_def eof_def m_def by auto
  ultimately show ?thesis using eq m inv(2) unfolding s'_def s1_def by (intro exI conjI) auto
qed

lemma fill_loop_ok:
  assumes "sn_inv S s" "sn_sent_syn s" "remaining < two64"
  shows "\<exists>s' segs. fill_loop remaining s = Inr s' \<and> sn_inv S s' \<and> sn_sent_syn s' \<and> extends s segs s' \<and>
    sn_next_seqno s \<le> sn_next_seqno s' \<and> sn_next_seqno s' \<le> sn_next_seqno s + remaining \<and>
    (sn_sent_all s' \<or> sn_next_seqno s' = sn_next_seqno s + remaining \<or> bs_contents (sn_stream s') = [] \<and>
      (bs_eof (sn_stream s') \<longrightarrow> bs_eof (sn_stream s)))"
  using assms
proof (induction remaining s rule: fill_loop.induct)
  case (1 remaining s)
  have "bs_inv (sn_stream s)" using "1.prems"(1) unfolding sn_inv_def written_def output_is_def by blast
  then have e: "ByteStream_buffer_empty (sn_stream s) = Inr (bs_contents (sn_stream s) = [])" by simp
  show ?case
  proof (cases "0 < remaining \<and> bs_contents (sn_stream s) \<noteq> [] \<and> \<not> sn_sent_all s")
    case False
    then have "fill_loop remaining s = Inr s" using e by (subst fill_loop.simps) auto
    then show ?thesis using "1.prems" False extends_refl by fastforce
  next
    case True
    obtain remaining' s' seg where st: "fill_step remaining s = Inr (remaining', s')" "sn_inv S s'" "sn_sent_syn s'"
      "sn_next_seqno s' + remaining' = sn_next_seqno s + remaining" "extends s [seg] s'"
      "bs_eof (sn_stream s') \<longrightarrow> sn_sent_all s' \<or> remaining' = 0"
      using fill_step_ok [OF "1.prems"(1,2)] True "1.prems"(3) by blast
    have less: "remaining' < remaining" using fill_step_decreases [OF _ _ st(1)] True e by simp
    obtain s'' segs where rest: "fill_loop remaining' s' = Inr s''" "sn_inv S s''" "sn_sent_syn s''" "extends s' segs s''"
      "sn_next_seqno s' \<le> sn_next_seqno s''" "sn_next_seqno s'' \<le> sn_next_seqno s' + remaining'"
      "sn_sent_all s'' \<or> sn_next_seqno s'' = sn_next_seqno s' + remaining' \<or> bs_contents (sn_stream s'') = [] \<and>
        (bs_eof (sn_stream s'') \<longrightarrow> bs_eof (sn_stream s'))"
      using "1.IH" [OF _ e _ st(1)] True st(2,3) less "1.prems"(3) by (auto simp: fill_step_def)
    have "fill_loop remaining s = Inr s''" using True e st(1) rest(1) by (subst fill_loop.simps) simp
    moreover have "sn_sent_all s'' \<or> sn_next_seqno s'' = sn_next_seqno s + remaining \<or> bs_contents (sn_stream s'') = [] \<and>
        (bs_eof (sn_stream s'') \<longrightarrow> bs_eof (sn_stream s))"
    proof (cases "bs_eof (sn_stream s')")
      case True
      then consider "sn_sent_all s'" | "remaining' = 0" using st(6) by blast
      then show ?thesis
      proof cases
        case 1
        then have "fill_loop remaining' s' = Inr s'" using written_eof(2) [of S "sn_stream s'"] st(2) True
          by (subst fill_loop.simps) (auto simp: sn_inv_def written_def output_is_def)
        then show ?thesis using rest(1) 1 by simp
      next
        case 2
        then show ?thesis using rest(5,6) st(4) by linarith
      qed
    next
      case False
      then show ?thesis using rest(7) st(4) by auto
    qed
    moreover have "sn_next_seqno s \<le> sn_next_seqno s''" using less st(4) rest(5) by linarith
    ultimately show ?thesis
      using rest(2,3,6) st(4) extends_trans [OF st(5) rest(4)] by (intro exI conjI) (assumption | linarith)+
  qed
qed

lemma connect_ok:
  assumes "sn_inv S s" "\<not> sn_sent_syn s"
  shows "\<exists>s' seg. fill_window s = Inr s' \<and> sn_inv S s' \<and> sn_sent_syn s' \<and> extends s [seg] s' \<and> sn_next_seqno s' = 1 \<and>
    th_syn (sg_header seg)"
proof -
  have o: "flight S s 0" "written S (sn_stream s)" "bs_bytes_read (sn_stream s) = 0" "\<not> sn_sent_all s"
    "sn_window_begin s = 0" "sn_window_size s = 1" "sn_next_seqno s = 0"
    using assms unfolding sn_inv_def by auto
  define seg where "seg = TCPSegment_default\<lparr>sg_header := TCPHeader_default\<lparr>th_syn := True, th_seqno := sn_isn s\<rparr>\<rparr>"
  have fields: "seg_bytes seg = []" "th_syn (sg_header seg)" "\<not> th_fin (sg_header seg)" "th_seqno (sg_header seg) = wrap 0 (sn_isn s)"
    "\<not> th_ack (sg_header seg)"
    by (simp_all add: seg_def TCPSegment_default_def TCPHeader_default_def Buffer_default_def Buffer_str_def wrap_zero)
  have at: "seg_at S (sn_isn s) 0 seg" using fields by (simp add: seg_at_def bare_def genuine_def)
  have len: "TCPSegment_length_in_sequence_space seg = 1" using fields by (simp add: TCPSegment_length_in_sequence_space_def)
  have fl: "flight S (sent s seg) 1" using flight_sent [OF o(1,7) at len] by simp
  define s' where "s' = (sent s seg)\<lparr>sn_sent_syn := True, sn_next_seqno := 1\<rparr>"
  have "fill_window s = Inr s'"
    using assms(2) o(5-7) send_eq [of seg s] len
    by (simp add: fill_window_def TCPSender_connect_def Let_def seg_def [symmetric] s'_def)
  moreover have "fin_last s" using assms(1) unfolding sn_inv_def by blast
  then have "sn_inv S s'" using fl o(2-4) fin_last_sent [of s seg] fields(3,5) unfolding sn_inv_def s'_def by (simp add: tame_def)
  moreover have "extends s [seg] s'" unfolding extends_def s'_def using fields(1) by simp
  ultimately show ?thesis using fields(2) by (intro exI conjI) (assumption | simp add: s'_def)+
qed

lemma finish_ok:
  assumes "sn_inv S s" "sn_sent_syn s" "\<not> sn_sent_all s" "bs_eof (sn_stream s)"
    and seg: "seg = TCPSegment_default\<lparr>sg_header := TCPHeader_default\<lparr>th_seqno := TCPSender_next_seqno s, th_fin := True\<rparr>\<rparr>"
  shows "\<exists>s'. and_then (send s seg) (\<lambda>s. Inr (s\<lparr>sn_next_seqno := add64 (sn_next_seqno s) 1, sn_sent_all := True\<rparr>)) = Inr s' \<and>
    sn_inv S s' \<and> sn_sent_syn s' \<and> extends s [seg] s' \<and> sn_next_seqno s' = sn_next_seqno s + 1 \<and> sn_sent_all s'"
proof -
  note o = sn_inv_open [OF assms(1-3)]
  have all: "bs_bytes_read (sn_stream s) = length S" using written_eof(1) [OF _ assms(4)] assms(1) unfolding sn_inv_def by blast
  have fields: "seg_bytes seg = []" "\<not> th_syn (sg_header seg)" "th_fin (sg_header seg)" "\<not> th_ack (sg_header seg)"
    "th_seqno (sg_header seg) = wrap (sn_next_seqno s) (sn_isn s)"
    by (simp_all add: seg TCPSegment_default_def TCPHeader_default_def Buffer_default_def Buffer_str_def TCPSender_next_seqno_def)
  have at: "seg_at S (sn_isn s) (sn_next_seqno s) seg" using fields all o(1) by (simp add: seg_at_def bare_def genuine_def)
  have len: "TCPSegment_length_in_sequence_space seg = 1" using fields by (simp add: TCPSegment_length_in_sequence_space_def)
  have fl: "flight S (sent s seg) (sn_next_seqno s + 1)" using flight_sent [OF o(2) refl at len] o(1) all by simp
  define s' where "s' = (sent s seg)\<lparr>sn_next_seqno := sn_next_seqno s + 1, sn_sent_all := True\<rparr>"
  have "and_then (send s seg) (\<lambda>s. Inr (s\<lparr>sn_next_seqno := add64 (sn_next_seqno s) 1, sn_sent_all := True\<rparr>)) = Inr s'"
    using send_eq [of seg s] len o(1,6) all by (simp add: s'_def)
  moreover have "fin_last (s\<lparr>sn_sent_all := True\<rparr>)" using assms(1,3) fin_last_open unfolding sn_inv_def by blast
  from fin_last_sent [OF this, of seg] have "fin_last s'" using fields(4) unfolding s'_def by (simp add: tame_def fin_last_def)
  then have "sn_inv S s'" using fl assms(1,2,4) o(1) unfolding sn_inv_def s'_def by simp
  moreover have "extends s [seg] s'" unfolding extends_def s'_def using fields(1) by simp
  ultimately show ?thesis using assms(2) by (intro exI conjI) (assumption | simp add: s'_def)+
qed

text \<open>The end of the window, and what filling it does.\<close>

abbreviation window_end :: "TCPSender \<Rightarrow> nat" where
  "window_end s \<equiv> sn_window_begin s + sn_window_size s"

lemma fill_window_ok:
  assumes "sn_inv S s"
  shows "\<exists>s' segs. fill_window s = Inr s' \<and> sn_inv S s' \<and> sn_sent_syn s' \<and> extends s segs s' \<and> (sn_sent_all s \<longrightarrow> s' = s) \<and>
    sn_next_seqno s \<le> sn_next_seqno s' \<and> sn_next_seqno s' \<le> max (sn_next_seqno s) (window_end s) \<and>
    (sn_sent_all s' \<or> window_end s \<le> sn_next_seqno s' \<or> bs_contents (sn_stream s') = [] \<and> \<not> bs_eof (sn_stream s'))"
proof -
  consider (syn) "\<not> sn_sent_syn s" | (idle) "sn_sent_syn s" "sn_sent_all s \<or> window_end s \<le> sn_next_seqno s"
    | (fin) "sn_sent_syn s" "\<not> sn_sent_all s" "sn_next_seqno s < window_end s" "bs_eof (sn_stream s)"
    | (data) "sn_sent_syn s" "\<not> sn_sent_all s" "sn_next_seqno s < window_end s" "\<not> bs_eof (sn_stream s)"
    by linarith
  note split = this
  have b: "length S + 2 < two63" "sn_next_seqno s \<le> length S + 2" "sn_window_begin s \<le> sn_next_seqno s" "sn_window_size s < 65536"
    using assms unfolding sn_inv_def flight_def by blast+
  have w: "add64 (sn_window_begin s) (sn_window_size s) = window_end s" using b by simp
  show ?thesis using split
  proof cases
    case syn
    have "sn_window_begin s = 0" "sn_window_size s = 1" "sn_next_seqno s = 0" "\<not> sn_sent_all s" using assms syn unfolding sn_inv_def by auto
    with connect_ok [OF assms syn] show ?thesis by fastforce
  next
    case idle
    then have "fill_window s = Inr s" by (auto simp: fill_window_def w)
    then show ?thesis using idle assms extends_refl by fastforce
  next
    case fin
    with finish_ok [OF assms fin(1,2,4) refl] w b show ?thesis by (fastforce simp: fill_window_def Let_def)
  next
    case data
    have r: "sub64 (window_end s) (sn_next_seqno s) = window_end s - sn_next_seqno s" using data(3) b by simp
    have "fill_window s = fill_loop (window_end s - sn_next_seqno s) s"
      using data by (simp add: fill_window_def w Let_def r)
    then show ?thesis using fill_loop_ok [OF assms data(1), of "window_end s - sn_next_seqno s"] data b by fastforce
  qed
qed

section \<open>Acknowledgments\<close>

lemma chain_filter:
  assumes "chain a xs z" "z < two64"
  shows "dropWhile (\<lambda>x. abs_seqno_at_end x \<le> k) xs = filter (\<lambda>x. k < abs_seqno_at_end x) xs"
  using assms
proof (induction xs arbitrary: a)
  case Nil
  then show ?case by simp
next
  case (Cons x xs)
  then have rest: "chain (a + OutstandingSegment_length x) xs z" by simp
  have e: "abs_seqno_at_end x = a + OutstandingSegment_length x" using chain_end [OF Cons.prems, of x] Cons.prems(1) by simp
  show ?case
  proof (cases "abs_seqno_at_end x \<le> k")
    case True
    with Cons.IH [OF rest Cons.prems(2)] show ?thesis by simp
  next
    case False
    then have "filter (\<lambda>x. k < abs_seqno_at_end x) xs = xs"
      using chain_end [OF rest Cons.prems(2)] e by (intro filter_True ballI) (metis less_trans not_le)
    with False show ?thesis by simp
  qed
qed

lemma chain_acked:
  assumes "chain a xs z" "z < two64" "k \<le> z" "filter (\<lambda>x. k < abs_seqno_at_end x) xs = []" "xs \<noteq> []"
  shows "k = z"
  using assms
proof (induction xs arbitrary: a)
  case (Cons x xs)
  then have rest: "chain (a + OutstandingSegment_length x) xs z" by simp
  show ?case
  proof (cases "xs = []")
    case True
    then have "abs_seqno_at_end x = z" using chain_end [OF Cons.prems(1,2), of x] Cons.prems(1) by auto
    then show ?thesis using Cons.prems(3,4) by (auto split: if_splits)
  next
    case False
    then show ?thesis using Cons.IH [OF rest] Cons.prems(2-4) by (auto split: if_splits)
  qed
qed simp

lemma same_flight: "sn_outstanding_segs s = xs \<Longrightarrow> sn_bytes_in_flight s = b \<Longrightarrow>
  s\<lparr>sn_outstanding_segs := xs, sn_bytes_in_flight := b\<rparr> = s"
  by (cases s) simp

lemma after_ack_eq:
  assumes "sn_outstanding_segs s \<noteq> [] \<longrightarrow> sn_timing s" "sn_outstanding_segs s = [] \<longrightarrow> sn_bytes_in_flight s = 0"
  shows "after_ack k s = Inr ((if 1 < k \<and> sn_checkpoint s < k then s\<lparr>sn_rto := sn_initial_retransmission_timeout s,
      sn_countdown := sn_initial_retransmission_timeout s, sn_consecutive_rx := 0\<rparr> else s)
    \<lparr>sn_checkpoint := max k (sn_checkpoint s), sn_timing := (sn_outstanding_segs s \<noteq> [])\<rparr>)"
  using assms by (cases s) (auto simp: after_ack_def Let_def reset_timer_def begin_timing_def)

lemma pop_acknowledged_ok:
  assumes "chain a xs z" "z < two64" "a \<le> z" "sn_outstanding_segs s = xs" "sn_bytes_in_flight s = z - a"
  shows "\<exists>a'. let ys = filter (\<lambda>x. k < abs_seqno_at_end x) xs in
    pop_acknowledged k xs s = Inr (s\<lparr>sn_outstanding_segs := ys, sn_bytes_in_flight := z - a'\<rparr>) \<and> chain a' ys z \<and> a' \<le> z"
  using assms
proof (induction xs arbitrary: a s)
  case Nil
  then have "s\<lparr>sn_outstanding_segs := [], sn_bytes_in_flight := z - a\<rparr> = s" by (intro same_flight) simp_all
  then show ?case using Nil.prems(1,3)
    by (intro exI [of _ a]) (simp only: Let_def filter.simps pop_acknowledged.simps simp_thms)
next
  case (Cons x xs)
  then have rest: "chain (a + OutstandingSegment_length x) xs z" by simp
  note le = chain_le [OF rest]
  show ?case
  proof (cases "abs_seqno_at_end x \<le> k")
    case False
    have "filter (\<lambda>y. k < abs_seqno_at_end y) (x # xs) = x # xs"
      using chain_filter [OF Cons.prems(1,2), of k] False by simp
    moreover have "s\<lparr>sn_outstanding_segs := x # xs, sn_bytes_in_flight := z - a\<rparr> = s" using Cons.prems(4,5) by (rule same_flight)
    ultimately show ?thesis using False Cons.prems(1,3) by (intro exI [of _ a]) (simp add: Let_def)
  next
    case True
    let ?s = "s\<lparr>sn_bytes_in_flight := z - (a + OutstandingSegment_length x), sn_outstanding_segs := xs\<rparr>"
    have "sub64 (z - a) (OutstandingSegment_length x) = z - (a + OutstandingSegment_length x)"
      using le Cons.prems(2,3) by simp
    then have pop: "pop_outstanding_seg s = Inr ?s" using Cons.prems(4,5) by (simp add: pop_outstanding_seg_def)
    obtain a' where "pop_acknowledged k xs ?s = Inr (?s\<lparr>sn_outstanding_segs := filter (\<lambda>x. k < abs_seqno_at_end x) xs, sn_bytes_in_flight := z - a'\<rparr>)"
      "chain a' (filter (\<lambda>x. k < abs_seqno_at_end x) xs) z" "a' \<le> z"
      using Cons.IH [OF rest Cons.prems(2) le, of ?s] by (auto simp: Let_def)
    then show ?thesis using True pop by (intro exI [of _ a']) (simp add: Let_def)
  qed
qed

lemma ack_received_ok:
  assumes inv: "sn_inv S s" "sn_sent_syn s" and k: "k = TCPSender_get_abs_seqno s ackno"
  shows "\<exists>s'. ack_received s ackno w = Inr s' \<and> sn_inv S s' \<and> sn_sent_syn s' \<and>
    (if sn_next_seqno s < k then s' = s
     else sn_outstanding_segs s' = filter (\<lambda>x. k < abs_seqno_at_end x) (sn_outstanding_segs s) \<and>
       sn_window_begin s' = k \<and> sn_window_size s' = (if w = 0 then 1 else unat w) \<and> sn_checkpoint s' = max k (sn_checkpoint s) \<and>
       (if k > 1 \<and> k > sn_checkpoint s then sn_rto s' = sn_initial_retransmission_timeout s \<and> sn_consecutive_rx s' = 0
        else sn_rto s' = sn_rto s \<and> sn_consecutive_rx s' = sn_consecutive_rx s)) \<and>
    sn_rto s' \<le> max (sn_rto s) (sn_initial_retransmission_timeout s) \<and>
    sn_initial_retransmission_timeout s' = sn_initial_retransmission_timeout s \<and> sn_sent_all s' = sn_sent_all s \<and>
    sn_next_seqno s' = sn_next_seqno s \<and> sn_stream s' = sn_stream s \<and> sn_segments_out s' = sn_segments_out s \<and> sn_isn s' = sn_isn s"
proof (cases "sn_next_seqno s < k")
  case True
  then show ?thesis using inv k by (simp add: ack_received_def)
next
  case False
  define n where "n = sn_next_seqno s"
  have f: "flight S s n" using inv(1) unfolding sn_inv_def n_def by blast
  have b: "n < two64" "sn_bytes_in_flight s \<le> n" "chain (n - sn_bytes_in_flight s) (sn_outstanding_segs s) n" "k \<le> n"
    using f False unfolding flight_def n_def by auto
  define ys where "ys = filter (\<lambda>x. k < abs_seqno_at_end x) (sn_outstanding_segs s)"
  define s1 where "s1 = s\<lparr>sn_window_begin := k, sn_actual_zero_window_size := (w = 0), sn_window_size := (if w = 0 then 1 else unat w)\<rparr>"
  obtain a' where pop: "pop_acknowledged k (sn_outstanding_segs s) s1 = Inr (s1\<lparr>sn_outstanding_segs := ys, sn_bytes_in_flight := n - a'\<rparr>)"
    "chain a' ys n" "a' \<le> n"
    using pop_acknowledged_ok [OF b(3,1), of s1 k] b(2) unfolding ys_def by (auto simp: Let_def s1_def)
  define s2 where "s2 = s1\<lparr>sn_outstanding_segs := ys, sn_bytes_in_flight := n - a'\<rparr>"
  define s4 where "s4 = (if 1 < k \<and> sn_checkpoint s2 < k then s2\<lparr>sn_rto := sn_initial_retransmission_timeout s2,
      sn_countdown := sn_initial_retransmission_timeout s2, sn_consecutive_rx := 0\<rparr> else s2)
    \<lparr>sn_checkpoint := max k (sn_checkpoint s2), sn_timing := (sn_outstanding_segs s2 \<noteq> [])\<rparr>"
  have "sn_outstanding_segs s2 \<noteq> [] \<longrightarrow> sn_timing s2" "sn_outstanding_segs s2 = [] \<longrightarrow> sn_bytes_in_flight s2 = 0"
    using f pop(2) unfolding s2_def s1_def ys_def flight_def by auto
  from after_ack_eq [OF this, of k, folded s4_def] have "ack_received s ackno w = Inr s4"
    using False pop(1) unfolding ack_received_def k [symmetric] Let_def
    by (simp add: s1_def [symmetric] s2_def [symmetric]) (simp add: s1_def s2_def)
  moreover have fields: "sn_isn s4 = sn_isn s" "sn_outstanding_segs s4 = ys" "sn_bytes_in_flight s4 = n - a'"
    "sn_segments_out s4 = sn_segments_out s" "sn_checkpoint s4 = max k (sn_checkpoint s)" "sn_window_begin s4 = k"
    "sn_window_size s4 = (if w = 0 then 1 else unat w)" "sn_timing s4 \<longleftrightarrow> ys \<noteq> []" "sn_next_seqno s4 = n"
    "sn_stream s4 = sn_stream s" "sn_sent_syn s4 = sn_sent_syn s" "sn_sent_all s4 = sn_sent_all s"
    "sn_initial_retransmission_timeout s4 = sn_initial_retransmission_timeout s"
    "sn_rto s4 = (if 1 < k \<and> sn_checkpoint s < k then sn_initial_retransmission_timeout s else sn_rto s)"
    "sn_countdown s4 = (if 1 < k \<and> sn_checkpoint s < k then sn_initial_retransmission_timeout s else sn_countdown s)"
    "sn_consecutive_rx s4 = (if 1 < k \<and> sn_checkpoint s < k then 0 else sn_consecutive_rx s)"
    unfolding s4_def s2_def s1_def n_def by simp_all
  moreover have "flight S s4 n"
  proof -
    have "timer_ok s" "sn_timing s \<longleftrightarrow> sn_outstanding_segs s \<noteq> []" using f unfolding flight_def by blast+
    moreover have "ys \<noteq> [] \<Longrightarrow> sn_outstanding_segs s \<noteq> []" by (auto simp: ys_def)
    ultimately have t: "timer_ok s4" unfolding timer_ok_def fields by auto
    have x: "\<forall>x\<in>set ys. seg_at S (sn_isn s) (os_abs_seqno x) (os_seg x) \<and> max k (sn_checkpoint s) < abs_seqno_at_end x"
      using f unfolding flight_def ys_def by auto
    have w: "0 < (if w = 0 then 1 else unat w)" "(if w = 0 then 1 else unat w) < 65536"
      using unsigned_less [where 'a = nat, of w] by (auto simp: unat_gt_0)
    have rest: "length S + 2 < two63" "n \<le> length S + 2" "sn_checkpoint s \<le> n" "\<forall>seg\<in>set (sn_segments_out s). \<exists>k. seg_at S (sn_isn s) k seg"
      using f unfolding flight_def by blast+
    have a: "n - (n - a') = a'" using pop(3) by simp
    have "ys = [] \<longrightarrow> max k (sn_checkpoint s) = n"
      using chain_acked [OF b(3,1,4)] f b(4) rest(3) unfolding flight_def ys_def by (auto simp: max_def)
    then show ?thesis unfolding flight_def fields a using t x w rest pop(2) b(4) by auto
  qed
  moreover have "fin_last s4" using inv(1) unfolding sn_inv_def fin_last_def fields ys_def by auto
  then have "sn_inv S s4" using inv \<open>flight S s4 n\<close> unfolding sn_inv_def fields by (auto simp: n_def)
  ultimately show ?thesis using False inv(2) unfolding ys_def n_def by (intro exI [of _ s4]) auto
qed

section \<open>Time\<close>

lemma resend_eq: "sn_timing s \<Longrightarrow> 0 < TCPSegment_length_in_sequence_space seg \<Longrightarrow>
  resend s seg = Inr (s\<lparr>sn_segments_out := sn_segments_out s @ [seg]\<rparr>)"
  by (simp add: resend_def Let_def)

lemma tick_ok:
  assumes inv: "sn_inv S s" and rto: "sn_rto s < two31 \<or> sn_actual_zero_window_size s"
  shows "\<exists>s'. TCPSender_tick s ms = Inr s' \<and> sn_inv S s' \<and>
    (if \<not> sn_timing s then s' = s
     else if ms < sn_countdown s then s' = s\<lparr>sn_countdown := sn_countdown s - ms\<rparr>
     else s' = s\<lparr>sn_segments_out := sn_segments_out s @ [os_seg (hd (sn_outstanding_segs s))],
            sn_consecutive_rx := (sn_consecutive_rx s + 1) mod two32,
            sn_rto := (if sn_actual_zero_window_size s then sn_rto s else 2 * sn_rto s),
            sn_countdown := (if sn_actual_zero_window_size s then sn_rto s else 2 * sn_rto s)\<rparr>)"
proof (cases "sn_timing s")
  case False
  then have "sn_outstanding_segs s = []" using inv unfolding sn_inv_def flight_def by blast
  then show ?thesis using False inv by (simp add: TCPSender_tick_def)
next
  case True
  have f: "flight S s (sn_next_seqno s)" using inv unfolding sn_inv_def by blast
  then obtain x xs where x: "sn_outstanding_segs s = x # xs" using True unfolding flight_def by (cases "sn_outstanding_segs s") auto
  have t: "timer_ok s" "\<not> timeout s" using f True unfolding flight_def timer_ok_def timeout_def by auto
  show ?thesis
  proof (cases "ms < sn_countdown s")
    case less: True
    then have "TCPSender_tick s ms = Inr (s\<lparr>sn_countdown := sn_countdown s - ms\<rparr>)"
      using True t x by (simp add: TCPSender_tick_def)
    moreover have "fin_last (s\<lparr>sn_countdown := sn_countdown s - ms\<rparr>) = fin_last s" by (simp add: fin_last_def)
    moreover have "flight S (s\<lparr>sn_countdown := sn_countdown s - ms\<rparr>) (sn_next_seqno s)"
      using f less less_imp_diff_less [of "sn_countdown s" two32 ms] unfolding flight_def timer_ok_def by simp
    ultimately have "TCPSender_tick s ms = Inr (s\<lparr>sn_countdown := sn_countdown s - ms\<rparr>)"
      "sn_inv S (s\<lparr>sn_countdown := sn_countdown s - ms\<rparr>)"
      using inv unfolding sn_inv_def by simp_all
    then show ?thesis using True less by simp
  next
    case late: False
    define rto' where "rto' = (if sn_actual_zero_window_size s then sn_rto s else 2 * sn_rto s)"
    define s' where "s' = s\<lparr>sn_segments_out := sn_segments_out s @ [os_seg x],
      sn_consecutive_rx := (sn_consecutive_rx s + 1) mod two32, sn_rto := rto', sn_countdown := rto'\<rparr>"
    have r: "0 < rto'" "rto' < two32" "\<not> sn_actual_zero_window_size s \<Longrightarrow> sn_rto s * 2 mod two32 = rto'"
      using rto t(1) unfolding rto'_def timer_ok_def by auto
    have l: "0 < TCPSegment_length_in_sequence_space (os_seg x)" and at: "seg_at S (sn_isn s) (os_abs_seqno x) (os_seg x)"
      using f x unfolding flight_def by (auto simp: OutstandingSegment_length_def)
    have "TCPSender_tick s ms = Inr s'"
      using True late x t(2) resend_eq [of "s\<lparr>sn_countdown := 0\<rparr>" "os_seg x"] l r(3)
      by (auto simp: TCPSender_tick_def update_timer_after_timeout_def Let_def s'_def rto'_def)
    moreover have "fin_last s'" using inv x unfolding sn_inv_def fin_last_def s'_def by auto
    moreover have "flight S s' (sn_next_seqno s)"
    proof -
      have "timer_ok s'" using t(1) r(1,2) unfolding timer_ok_def s'_def by simp
      then show ?thesis using f at unfolding flight_def s'_def by auto
    qed
    ultimately have "TCPSender_tick s ms = Inr s'" "sn_inv S s'" using inv unfolding sn_inv_def s'_def by simp_all
    then show ?thesis using True late x unfolding s'_def rto'_def by simp
  qed
qed

section \<open>Histories\<close>

text \<open>
  The application writes and ends the stream; the connection fills the window, hands in acknowledgments, lets time
  pass, asks for an empty segment, and collects the queue of segments, which is the output of a history.
\<close>

datatype sender_event =
    WriteStream bytes
  | EndStream
  | FillWindow
  | AckReceived WrappingInt32 "16 word"
  | Tick size_t
  | SendEmpty
  | Collect

fun sender_step :: "TCPSender \<Rightarrow> sender_event \<Rightarrow> (TCPSegment list \<times> TCPSender) result" where
  "sender_step s (WriteStream d) = and_then (ByteStream_write (sn_stream s) d) (\<lambda>(_, out). Inr ([], s\<lparr>sn_stream := out\<rparr>))"
| "sender_step s EndStream = and_then (ByteStream_end_input (sn_stream s)) (\<lambda>out. Inr ([], s\<lparr>sn_stream := out\<rparr>))"
| "sender_step s FillWindow = and_then (fill_window s) (\<lambda>s'. Inr ([], s'))"
| "sender_step s (AckReceived ackno w) = and_then (ack_received s ackno w) (\<lambda>s'. Inr ([], s'))"
| "sender_step s (Tick ms) = and_then (TCPSender_tick s ms) (\<lambda>s'. Inr ([], s'))"
| "sender_step s SendEmpty = Inr ([], send_empty_segment s)"
| "sender_step s Collect = Inr (sn_segments_out s, s\<lparr>sn_segments_out := []\<rparr>)"

fun sender_admissible :: "bytes \<Rightarrow> TCPSender \<Rightarrow> sender_event \<Rightarrow> bool" where
  "sender_admissible S s (WriteStream d) \<longleftrightarrow>
     \<not> bs_input_ended (sn_stream s) \<and> d = take (length d) (drop (bs_bytes_written (sn_stream s)) S)"
| "sender_admissible S s EndStream \<longleftrightarrow> bs_bytes_written (sn_stream s) = length S"
| "sender_admissible S s FillWindow \<longleftrightarrow> True"
| "sender_admissible S s (AckReceived ackno w) \<longleftrightarrow> sn_sent_syn s"
| "sender_admissible S s (Tick ms) \<longleftrightarrow> sn_rto s < two31 \<or> sn_actual_zero_window_size s"
| "sender_admissible S s SendEmpty \<longleftrightarrow> True"
| "sender_admissible S s Collect \<longleftrightarrow> True"

lemma sn_inv_stream:
  assumes "sn_inv S s" "written S out" "bs_bytes_read out = bs_bytes_read (sn_stream s)" "bs_eof (sn_stream s) \<longrightarrow> bs_eof out"
  shows "sn_inv S (s\<lparr>sn_stream := out\<rparr>)"
  using assms unfolding sn_inv_def by auto

lemma write_stream_ok:
  assumes inv: "sn_inv S s" and ok: "sender_admissible S s (WriteStream d)"
  shows "\<exists>n out. ByteStream_write (sn_stream s) d = Inr (n, out) \<and> sn_inv S (s\<lparr>sn_stream := out\<rparr>) \<and> bs_error out = bs_error (sn_stream s)"
proof -
  have w: "written S (sn_stream s)" "\<not> bs_input_ended (sn_stream s)" using inv ok unfolding sn_inv_def by auto
  have o: "output_is S (bs_bytes_written (sn_stream s)) (sn_stream s)" using w unfolding written_def by blast
  from write_some [OF o w(2) _ refl, of d] ok obtain n out where out: "ByteStream_write (sn_stream s) d = Inr (n, out)"
    "output_is S (bs_bytes_written (sn_stream s) + n) out" "bs_bytes_read out = bs_bytes_read (sn_stream s)" "\<not> bs_input_ended out"
    "bs_error out = bs_error (sn_stream s)"
    using w(2) by auto
  have "bs_bytes_written out = bs_bytes_written (sn_stream s) + n" using out(2) unfolding output_is_def by blast
  then have "written S out" using out(2,4) unfolding written_def by simp
  moreover have "\<not> bs_eof (sn_stream s)" using written_eof(3) [OF w(1)] w(2) by blast
  ultimately show ?thesis using out(1,3,5) sn_inv_stream [OF inv] by blast
qed

lemma end_stream_ok:
  assumes inv: "sn_inv S s" and ok: "bs_bytes_written (sn_stream s) = length S"
  shows "\<exists>out. ByteStream_end_input (sn_stream s) = Inr out \<and> sn_inv S (s\<lparr>sn_stream := out\<rparr>) \<and> bs_error out = bs_error (sn_stream s)"
proof -
  have w: "written S (sn_stream s)" using inv unfolding sn_inv_def by blast
  then have b: "bs_inv (sn_stream s)" unfolding written_def output_is_def by blast
  obtain out where out: "ByteStream_end_input (sn_stream s) = Inr out" "bs_inv out"
    "abs_step (bs_abs (sn_stream s)) EndInput = (Done, bs_abs out)"
    using end_input_ok [OF b] by blast
  then have a: "bs_abs out = (bs_abs (sn_stream s))\<lparr>as_ended := True\<rparr>" by simp
  then have fields: "bs_contents out = bs_contents (sn_stream s)" "bs_bytes_written out = bs_bytes_written (sn_stream s)"
    "bs_bytes_read out = bs_bytes_read (sn_stream s)" "bs_input_ended out" "bs_error out = bs_error (sn_stream s)" by (simp_all add: bs_abs_def)
  then have "written S out" using w out(2) ok unfolding written_def output_is_def by simp
  moreover have "bs_eof (sn_stream s) \<longrightarrow> bs_eof out" using b out(2) fields unfolding bs_inv_def by simp
  ultimately show ?thesis using out(1) fields(3,5) sn_inv_stream [OF inv] by blast
qed

lemma empty_segment_ok:
  assumes "sn_inv S s"
  shows "sn_inv S (send_empty_segment s)"
proof -
  let ?seg = "TCPSegment_default\<lparr>sg_header := TCPHeader_default\<lparr>th_seqno := TCPSender_next_seqno s\<rparr>\<rparr>"
  have "sn_next_seqno s \<le> length S + 2" using assms unfolding sn_inv_def flight_def by blast
  then have "seg_at S (sn_isn s) (sn_next_seqno s) ?seg"
    by (simp add: seg_at_def bare_def TCPSegment_default_def TCPHeader_default_def Buffer_default_def Buffer_str_def TCPSender_next_seqno_def)
  then have "\<exists>k. seg_at S (sn_isn s) k ?seg" by blast
  moreover have "flight S s (sn_next_seqno s)" using assms unfolding sn_inv_def by blast
  ultimately have "flight S (send_empty_segment s) (sn_next_seqno s)"
    unfolding flight_def timer_ok_def send_empty_segment_def Let_def by simp
  moreover have "fin_last (send_empty_segment s)"
    using assms unfolding sn_inv_def fin_last_def send_empty_segment_def Let_def by (auto simp: tame_def TCPHeader_default_def)
  ultimately show ?thesis using assms unfolding sn_inv_def by (simp add: send_empty_segment_def Let_def)
qed

lemma sn_inv_collect:
  assumes "sn_inv S s"
  shows "sn_inv S (s\<lparr>sn_segments_out := []\<rparr>)"
proof -
  have "flight S s n \<Longrightarrow> flight S (s\<lparr>sn_segments_out := []\<rparr>) n" for n by (simp add: flight_def timer_ok_def)
  moreover have "fin_last s \<Longrightarrow> fin_last (s\<lparr>sn_segments_out := []\<rparr>)" by (auto simp: fin_last_def)
  ultimately show ?thesis using assms unfolding sn_inv_def by auto
qed

lemma sender_step_ok:
  assumes "sn_inv S s" "sender_admissible S s e"
  shows "\<exists>segs s'. sender_step s e = Inr (segs, s') \<and> sn_inv S s' \<and> sn_isn s' = sn_isn s \<and>
    (\<forall>seg\<in>set segs. \<exists>k. seg_at S (sn_isn s) k seg)"
proof (cases e)
  case (WriteStream d)
  with write_stream_ok [OF assms(1), of d] assms(2) show ?thesis by fastforce
next
  case EndStream
  with end_stream_ok [OF assms(1)] assms(2) show ?thesis by fastforce
next
  case FillWindow
  with fill_window_ok [OF assms(1)] show ?thesis by (fastforce simp: extends_def)
next
  case (AckReceived ackno w)
  with ack_received_ok [OF assms(1) _ refl, of ackno w] assms(2) show ?thesis by auto
next
  case (Tick ms)
  with tick_ok [OF assms(1), of ms] assms(2) show ?thesis by (auto split: if_splits)
next
  case SendEmpty
  with empty_segment_ok [OF assms(1)] show ?thesis by (simp add: send_empty_segment_def Let_def)
next
  case Collect
  have "\<forall>seg\<in>set (sn_segments_out s). \<exists>k. seg_at S (sn_isn s) k seg" using assms(1) unfolding sn_inv_def flight_def by blast
  then show ?thesis using Collect sn_inv_collect [OF assms(1)] by simp
qed

interpretation sendr: safe_machine sender_step "sn_inv S" "sender_admissible S" for S
  by unfold_locales (use sender_step_ok in blast)

lemma sender_run_segments:
  assumes "sn_inv S s" "admissible_run sender_step (sender_admissible S) s es" "run sender_step s es = Inr (outs, s')"
  shows "sn_isn s' = sn_isn s \<and> (\<forall>seg\<in>set (concat outs). \<exists>k. seg_at S (sn_isn s) k seg)"
  using assms
proof (induction es arbitrary: s outs)
  case Nil
  then show ?case by simp
next
  case (Cons e es)
  obtain segs s1 where st: "sender_step s e = Inr (segs, s1)" "sn_inv S s1" "sn_isn s1 = sn_isn s"
    "\<forall>seg\<in>set segs. \<exists>k. seg_at S (sn_isn s) k seg"
    using sender_step_ok [of S s e] Cons.prems(1,2) by auto
  obtain rest where rest: "run sender_step s1 es = Inr (rest, s')" "outs = segs # rest"
    using Cons.prems(3) st(1) by (auto simp: and_then_Inr_iff)
  show ?case using Cons.IH [OF st(2) _ rest(1)] Cons.prems(2) st rest(2) by auto
qed

lemma TCPSender_new_inv:
  assumes "0 < cap" "cap < two63" "0 < rt" "length S + 2 < two63"
  shows "sn_inv S (TCPSender_new random cap rt fixed)"
proof -
  note new = ByteStream_new_ok [OF assms(1,2)]
  have "bs_contents (ByteStream_new cap) = []" "bs_bytes_written (ByteStream_new cap) = 0" "bs_bytes_read (ByteStream_new cap) = 0"
    "\<not> bs_input_ended (ByteStream_new cap)"
    using new(2) by (simp_all add: bs_abs_def)
  then have "written S (ByteStream_new cap)" using new(1) assms(4) unfolding written_def output_is_def by simp
  moreover have "0 < unat rt" "unat rt < 65536" using assms(3) unsigned_less [where 'a = nat, of rt]
    by (auto simp: word_less_nat_alt)
  ultimately show ?thesis using assms(4) \<open>bs_bytes_read (ByteStream_new cap) = 0\<close>
    unfolding sn_inv_def flight_def timer_ok_def fin_last_def TCPSender_new_def by simp
qed

lemma TCPSender_new_unsent: "\<not> sn_sent_syn (TCPSender_new random cap rt fixed)"
  by (simp add: TCPSender_new_def)

text \<open>A timeout of zero makes the first tick after the SYN fail its assertion.\<close>

lemma zero_timeout_aborts:
  "and_then (fill_window (TCPSender_new random cap 0 fixed)) (\<lambda>s. TCPSender_tick s ms) = Inl AssertionFailed"
proof -
  have "TCPSegment_length_in_sequence_space (TCPSegment_default\<lparr>sg_header := TCPHeader_default\<lparr>th_syn := True, th_seqno := isn\<rparr>\<rparr>) = 1" for isn
    by (simp add: TCPSegment_length_in_sequence_space_def TCPSegment_default_def TCPHeader_default_def Buffer_default_def Buffer_str_def)
  then show ?thesis
    by (simp add: fill_window_def TCPSender_connect_def TCPSender_new_def Let_def send_def push_outstanding_seg_def begin_timing_def
        TCPSender_tick_def timeout_def assert_that_def)
qed

section \<open>Properties\<close>



text \<open>C29. \<open>fill_window\<close> respects the window and uses it: after the SYN nothing new is sent beyond the advertised window, no
  payload exceeds \<open>MAX_PAYLOAD_SIZE\<close>, the payloads are what was taken from the stream, and when it returns the FIN has been sent,
  or the window is full, or there is nothing left to send.\<close>

theorem fill_window_respects_window:
  assumes "sn_inv S s"
  shows "\<exists>s' segs. fill_window s = Inr s' \<and> sn_inv S s' \<and> sn_segments_out s' = sn_segments_out s @ segs \<and>
    sn_next_seqno s' \<le> max (sn_next_seqno s) (sn_window_begin s + sn_window_size s) \<and>
    (\<forall>seg\<in>set segs. length (seg_bytes seg) \<le> MAX_PAYLOAD_SIZE) \<and>
    bs_contents (sn_stream s) = concat (map seg_bytes segs) @ bs_contents (sn_stream s') \<and>
    (sn_sent_all s' \<or> window_end s \<le> sn_next_seqno s' \<or> bs_contents (sn_stream s') = [] \<and> \<not> bs_eof (sn_stream s'))"
  using fill_window_ok [OF assms] unfolding extends_def by blast

theorem fill_window_respects_window_witness:
  "\<exists>s' segs. fill_window (TCPSender_new 5 10 1000 None) = Inr s' \<and> sn_segments_out s' = segs \<and> sn_next_seqno s' \<le> 1"
proof -
  have "sn_inv [1, 2] (TCPSender_new 5 10 1000 None)" by (intro TCPSender_new_inv) simp_all
  from fill_window_respects_window [OF this] show ?thesis by (auto simp: TCPSender_new_def)
qed



text \<open>C31. The retransmission timer: nothing happens while nothing is outstanding; before the deadline only the countdown runs;
  at the deadline the oldest outstanding segment is sent again, once, the count of retransmissions rises, and the timeout doubles
  unless the peer's window is zero.\<close>

theorem tick_retransmits:
  assumes "sn_inv S s" "sn_rto s < two31"
  shows "\<exists>s'. TCPSender_tick s ms = Inr s' \<and> sn_inv S s' \<and>
    (if sn_outstanding_segs s = [] then s' = s
     else if ms < sn_countdown s then s' = s\<lparr>sn_countdown := sn_countdown s - ms\<rparr>
     else sn_segments_out s' = sn_segments_out s @ [os_seg (hd (sn_outstanding_segs s))] \<and>
       sn_outstanding_segs s' = sn_outstanding_segs s \<and> sn_consecutive_rx s' = (sn_consecutive_rx s + 1) mod two32 \<and>
       sn_rto s' = (if sn_actual_zero_window_size s then sn_rto s else 2 * sn_rto s) \<and> sn_countdown s' = sn_rto s')"
proof -
  have t: "\<not> sn_timing s \<longleftrightarrow> sn_outstanding_segs s = []" using assms(1) unfolding sn_inv_def flight_def by blast
  note tick = tick_ok [OF assms(1) disjI1 [OF assms(2)], of ms, unfolded t]
  show ?thesis by (rule exE [OF tick]) (elim conjE, intro exI conjI, assumption, assumption, simp split: if_splits)
qed

theorem tick_retransmits_witness:
  "\<exists>s s'. fill_window (TCPSender_new 5 10 1000 None) = Inr s \<and> TCPSender_tick s 1000 = Inr s' \<and> sn_rto s' \<le> 2000"
proof -
  have "sn_inv [1, 2] (TCPSender_new 5 10 1000 None)" by (intro TCPSender_new_inv) simp_all
  then obtain s seg where s: "fill_window (TCPSender_new 5 10 1000 None) = Inr s" "sn_inv [1, 2] s"
    "extends (TCPSender_new 5 10 1000 None) [seg] s"
    using connect_ok [OF _ TCPSender_new_unsent] by blast
  have "sn_rto s = 1000" using s(3) by (simp add: extends_def TCPSender_new_def)
  moreover obtain s' where t: "TCPSender_tick s 1000 = Inr s'" "if sn_outstanding_segs s = [] then s' = s
      else if 1000 < sn_countdown s then s' = s\<lparr>sn_countdown := sn_countdown s - 1000\<rparr>
      else sn_rto s' = (if sn_actual_zero_window_size s then sn_rto s else 2 * sn_rto s)"
    using tick_retransmits [OF s(2), of 1000] \<open>sn_rto s = 1000\<close> by (auto simp del: One_nat_def)
  ultimately have "sn_rto s' \<le> 2000" by (simp split: if_splits)
  then show ?thesis using s(1) t(1) by blast
qed

end
