(* ===== verification/Reliable_Transfer.thy ===== *)
theory Reliable_Transfer
  imports TCP_Receiver Sending
begin

text \<open>
  \<open>TCPSender\<close> and \<open>TCPReceiver\<close> at the two ends of a network that may lose, delay, duplicate and reorder segments, and that hands
  the sender acknowledgments of any number. The step relation lets either end, the network and both applications act
  in any order.
\<close>

record link =
  lk_sender :: TCPSender
  lk_receiver :: TCPReceiver
  lk_wire :: "TCPSegment set"
  lk_read :: bytes

text \<open>\<open>lk_wire\<close> holds every segment that was ever sent: delivering leaves it there, losing a segment is never delivering it.\<close>

inductive link_step :: "bytes \<Rightarrow> link \<Rightarrow> link \<Rightarrow> bool" for S where
  sender_acts: "sender_admissible S (lk_sender l) e \<Longrightarrow> sender_step (lk_sender l) e = Inr (segs, s') \<Longrightarrow>
     link_step S l (l\<lparr>lk_sender := s', lk_wire := lk_wire l \<union> set segs\<rparr>)"
| deliver: "seg \<in> lk_wire l \<Longrightarrow> segment_received (lk_receiver l) seg = Inr r' \<Longrightarrow> link_step S l (l\<lparr>lk_receiver := r'\<rparr>)"
| read_stream: "n \<le> length (rc_unread (lk_receiver l)) \<Longrightarrow> receiver_step (lk_receiver l) (ReadStream n) = Inr (d, r') \<Longrightarrow>
     link_step S l (l\<lparr>lk_receiver := r', lk_read := lk_read l @ d\<rparr>)"

inductive link_reachable :: "bytes \<Rightarrow> link \<Rightarrow> link \<Rightarrow> bool" for S l0 where
  start: "link_reachable S l0 l0"
| step: "link_reachable S l0 l \<Longrightarrow> link_step S l l' \<Longrightarrow> link_reachable S l0 l'"

definition link_new :: "TCPSender \<Rightarrow> size_t \<Rightarrow> link" where
  "link_new s recv_capacity = \<lparr>lk_sender = s, lk_receiver = TCPReceiver_new recv_capacity, lk_wire = {}, lk_read = []\<rparr>"

definition link_inv :: "bytes \<Rightarrow> WrappingInt32 \<Rightarrow> link \<Rightarrow> bool" where
  "link_inv S isn l \<longleftrightarrow> sn_inv S (lk_sender l) \<and> sn_isn (lk_sender l) = isn \<and> rc_inv S isn (lk_receiver l) \<and>
     (\<forall>seg\<in>lk_wire l. \<exists>k. seg_at S isn k seg) \<and> lk_read l = take (rc_read (lk_receiver l)) S"

inductive_cases link_stepE: "link_step S l l'"

lemma deliver_ok:
  assumes "link_inv S isn l" "length S + 2 < two31" "seg \<in> lk_wire l"
  shows "\<exists>r'. segment_received (lk_receiver l) seg = Inr r' \<and> rc_inv S isn r' \<and> rc_read r' = rc_read (lk_receiver l)"
proof -
  obtain k where k: "seg_at S isn k seg" and inv: "rc_inv S isn (lk_receiver l)" using assms(1,3) unfolding link_inv_def by blast
  from segment_received_ok [OF inv k near_checkpoint_short [OF inv assms(2) k]] show ?thesis
    unfolding advances_def by (metis (full_types))
qed

lemma link_step_inv:
  assumes "link_step S l l'" "link_inv S isn l" "length S + 2 < two31"
  shows "link_inv S isn l'"
  using assms
proof (cases rule: link_step.cases)
  case (sender_acts e segs s')
  then show ?thesis using sender_step_ok [of S "lk_sender l" e] assms(2) unfolding link_inv_def by auto
next
  case (deliver seg r')
  then show ?thesis using deliver_ok [OF assms(2,3)] assms(2) unfolding link_inv_def by fastforce
next
  case (read_stream n d r')
  have "rc_inv S isn (lk_receiver l)" using assms(2) unfolding link_inv_def by blast
  from receiver_read_ok [OF this read_stream(2)] read_stream(1,3) assms(2) show ?thesis unfolding link_inv_def by auto
qed

lemma link_reachable_inv:
  assumes "link_reachable S l0 l" "link_inv S isn l0" "length S + 2 < two31"
  shows "link_inv S isn l"
  using assms by (induction rule: link_reachable.induct) (auto intro: link_step_inv)

lemma link_new_inv:
  assumes "sn_inv S s" "0 < cap" "cap < two63" "length S + 2 < two31"
  shows "link_inv S (sn_isn s) (link_new s cap)"
  using assms TCPReceiver_new_inv [of cap S] unfolding link_inv_def link_new_def by simp

section \<open>Properties\<close>



end
