(* ===== verification/TCP_Connection.thy ===== *)
theory TCP_Connection
  imports TCP_Receiver TCP_Sender
begin

text \<open>
  \<open>TCPConnection\<close> of \<open>src/libsponge/tcp_connection.hh\<close> and \<open>tcp_connection.cc\<close>: one endpoint, made of a receiver and a sender,
  with the queue of outgoing segments, the rules of the shutdown and the lingering. Warnings printed on
  \<open>cerr\<close> are left out. The proofs are in \<open>Endpoint\<close>.
\<close>

section \<open>State\<close>

record TCPConnection =
  cn_cfg :: TCPConfig
  cn_receiver :: TCPReceiver
  cn_sender :: TCPSender
  cn_segments_out :: "TCPSegment list"
  cn_linger_after_streams_finish :: bool
  cn_linger_begin :: bool
  cn_time_since_last_segment_received :: size_t
  cn_active :: bool
  cn_sent_syn :: bool
  cn_sent_fin :: bool
  cn_fin_acked :: bool
  cn_abs_fin_seqno :: nat

definition TCPConnection_new :: "32 word \<Rightarrow> TCPConfig \<Rightarrow> TCPConnection" where
  "TCPConnection_new random cfg =
     \<lparr>cn_cfg = cfg, cn_receiver = TCPReceiver_new (tc_recv_capacity cfg),
      cn_sender = TCPSender_new random (tc_send_capacity cfg) (tc_rt_timeout cfg) (tc_fixed_isn cfg),
      cn_segments_out = [], cn_linger_after_streams_finish = True, cn_linger_begin = False,
      cn_time_since_last_segment_received = 0, cn_active = True, cn_sent_syn = False,
      cn_sent_fin = False, cn_fin_acked = False, cn_abs_fin_seqno = 0\<rparr>"

section \<open>Accessors\<close>

definition remaining_outbound_capacity :: "TCPConnection \<Rightarrow> size_t result" where
  "remaining_outbound_capacity c = ByteStream_remaining_capacity (sn_stream (cn_sender c))"

definition TCPConnection_bytes_in_flight :: "TCPConnection \<Rightarrow> nat" where
  "TCPConnection_bytes_in_flight c = TCPSender_bytes_in_flight (cn_sender c)"

definition TCPConnection_unassembled_bytes :: "TCPConnection \<Rightarrow> size_t" where
  "TCPConnection_unassembled_bytes c = TCPReceiver_unassembled_bytes (cn_receiver c)"

definition time_since_last_segment_received :: "TCPConnection \<Rightarrow> size_t" where
  "time_since_last_segment_received c = cn_time_since_last_segment_received c"

definition inbound_stream :: "TCPConnection \<Rightarrow> ByteStream" where
  "inbound_stream c = TCPReceiver_stream_out (cn_receiver c)"

definition outbound_stream :: "TCPConnection \<Rightarrow> ByteStream" where
  "outbound_stream c = sn_stream (cn_sender c)"

text \<open>The streams are mutated through references; a mutation stores the new stream.\<close>

definition set_inbound :: "TCPConnection \<Rightarrow> ByteStream \<Rightarrow> TCPConnection" where
  "set_inbound c out =
     c\<lparr>cn_receiver := (cn_receiver c)\<lparr>rc_reassembler := (rc_reassembler (cn_receiver c))\<lparr>sr_output := out\<rparr>\<rparr>\<rparr>"

definition set_outbound :: "TCPConnection \<Rightarrow> ByteStream \<Rightarrow> TCPConnection" where
  "set_outbound c stream = c\<lparr>cn_sender := (cn_sender c)\<lparr>sn_stream := stream\<rparr>\<rparr>"

section \<open>Sending\<close>

definition set_win :: "TCPConnection \<Rightarrow> TCPHeader \<Rightarrow> TCPHeader result" where
  "set_win c header =
     and_then (TCPReceiver_window_size (cn_receiver c)) (\<lambda>win_size.
     Inr (header\<lparr>th_win := (if win_size > 65535 then 65535 else word_of_nat win_size)\<rparr>))"

definition send_rst :: "TCPConnection \<Rightarrow> TCPConnection result" where
  "send_rst c =
     (case TCPReceiver_ackno (cn_receiver c) of
        None \<Rightarrow> Inr c
      | Some ackno \<Rightarrow>
          (let header = TCPHeader_default\<lparr>th_rst := True, th_seqno := TCPSender_next_seqno (cn_sender c),
                          th_ack := True, th_ackno := ackno\<rparr> in
           and_then (set_win c header) (\<lambda>header.
           Inr (c\<lparr>cn_segments_out := cn_segments_out c @ [TCPSegment_default\<lparr>sg_header := header\<rparr>]\<rparr>))))"

text \<open>The header of an outgoing segment, completed with what the receiver has to say, and one round of the loop of \<open>send_all\<close>.\<close>

definition with_ackno :: "TCPConnection \<Rightarrow> TCPHeader \<Rightarrow> TCPHeader" where
  "with_ackno c header =
     (case TCPReceiver_ackno (cn_receiver c) of
        None \<Rightarrow> header
      | Some ackno \<Rightarrow> header\<lparr>th_ack := True, th_ackno := ackno\<rparr>)"

definition send_front :: "TCPConnection \<Rightarrow> TCPSegment \<Rightarrow> TCPConnection result" where
  "send_front c seg_out =
     (let out_header = sg_header seg_out;
          c = (if th_syn out_header then c\<lparr>cn_sent_syn := True\<rparr> else c)
      in
      assert_that (cn_sent_syn c) (
      and_then (set_win c (with_ackno c out_header)) (\<lambda>out_header.
      and_then
        (if th_fin out_header then
           assert_that (bs_eof (outbound_stream c)) (
           assert_that (bs_bytes_read (outbound_stream c) = bs_bytes_written (outbound_stream c)) (
           Inr (c\<lparr>cn_sent_fin := True,
                 cn_abs_fin_seqno := sub64 (add64 (add64 1 (bs_bytes_read (outbound_stream c))) 1) 1\<rparr>)))
         else Inr c) (\<lambda>c.
      Inr (c\<lparr>cn_segments_out := cn_segments_out c @ [seg_out\<lparr>sg_header := out_header\<rparr>],
            cn_sender := (cn_sender c)\<lparr>sn_segments_out := tl (sn_segments_out (cn_sender c))\<rparr>\<rparr>)))))"

primrec send_loop :: "TCPSegment list \<Rightarrow> TCPConnection \<Rightarrow> TCPConnection result" where
  "send_loop [] c = Inr c"
| "send_loop (seg_out # segs_out) c = and_then (send_front c seg_out) (send_loop segs_out)"

definition send_all :: "TCPConnection \<Rightarrow> TCPConnection result" where
  "send_all c = send_loop (sn_segments_out (cn_sender c)) c"

section \<open>Ending\<close>

definition end_cleanly :: "TCPConnection \<Rightarrow> TCPConnection result" where
  "end_cleanly c =
     (if \<not> cn_linger_after_streams_finish c then
        and_then (ByteStream_end_input (outbound_stream c)) (\<lambda>stream.
        let c = set_outbound c stream in
        and_then (ByteStream_end_input (inbound_stream c)) (\<lambda>out.
        Inr ((set_inbound c out)\<lparr>cn_active := False\<rparr>)))
      else Inr (c\<lparr>cn_linger_begin := True\<rparr>))"

definition end_uncleanly :: "TCPConnection \<Rightarrow> TCPConnection" where
  "end_uncleanly c =
     (let c = set_outbound c (ByteStream_set_error (outbound_stream c));
          c = set_inbound c (ByteStream_set_error (inbound_stream c))
      in c\<lparr>cn_linger_begin := False, cn_linger_after_streams_finish := False, cn_active := False\<rparr>)"

definition satisfy_prereq_1 :: "TCPConnection \<Rightarrow> bool" where
  "satisfy_prereq_1 c \<longleftrightarrow> bs_eof (inbound_stream c) \<and> TCPReceiver_unassembled_bytes (cn_receiver c) = 0"

definition satisfy_prereq_2 :: "TCPConnection \<Rightarrow> bool" where
  "satisfy_prereq_2 c \<longleftrightarrow>
     bs_eof (outbound_stream c) \<and> cn_sent_fin c \<and> TCPSender_bytes_in_flight (cn_sender c) = 0"

definition satisfy_prereq_3 :: "TCPConnection \<Rightarrow> bool" where
  "satisfy_prereq_3 c \<longleftrightarrow> cn_fin_acked c"

definition satisfy_prereq_123 :: "TCPConnection \<Rightarrow> bool" where
  "satisfy_prereq_123 c \<longleftrightarrow> satisfy_prereq_1 c \<and> satisfy_prereq_2 c \<and> satisfy_prereq_3 c"

definition check_not_need_to_linger :: "TCPConnection \<Rightarrow> TCPConnection" where
  "check_not_need_to_linger c =
     (if bs_eof (inbound_stream c) \<and> \<not> bs_eof (outbound_stream c)
      then c\<lparr>cn_linger_after_streams_finish := False\<rparr> else c)"

definition try_to_end_cleanly :: "TCPConnection \<Rightarrow> TCPConnection result" where
  "try_to_end_cleanly c = (if satisfy_prereq_123 c then end_cleanly c else Inr c)"

section \<open>Events\<close>

text \<open>A segment before the peer's SYN, and the stages of \<open>segment_received\<close> that involve the sender.\<close>

definition unsynchronized_segment :: "TCPConnection \<Rightarrow> TCPHeader \<Rightarrow> TCPConnection result" where
  "unsynchronized_segment c header =
     (if cn_sent_syn c then
        (case tc_fixed_isn (cn_cfg c) of
           None \<Rightarrow> Inl BadOptionalAccess
         | Some fixed_isn \<Rightarrow>
             if TCPSender_get_abs_seqno (cn_sender c) (th_ackno header) =
                  add64 (TCPSender_get_abs_seqno (cn_sender c) fixed_isn) 1 \<and> th_rst header
             then Inr (end_uncleanly c) else Inr c)
      else Inr c)"

definition keep_alive :: "TCPConnection \<Rightarrow> TCPSegment \<Rightarrow> bool" where
  "keep_alive c seg \<longleftrightarrow> TCPSegment_length_in_sequence_space seg = 0 \<and>
     (case TCPReceiver_ackno (cn_receiver c) of
        None \<Rightarrow> False
      | Some ackno \<Rightarrow> th_seqno (sg_header seg) = wi_minus ackno 1)"

definition take_ack :: "TCPConnection \<Rightarrow> TCPHeader \<Rightarrow> TCPConnection result" where
  "take_ack c header =
     (if th_ack header then
        and_then (ack_received (cn_sender c) (th_ackno header) (th_win header)) (\<lambda>sender.
        let c = c\<lparr>cn_sender := sender\<rparr> in
        if cn_sent_fin c \<and> TCPSender_get_abs_seqno sender (th_ackno header) = add64 (cn_abs_fin_seqno c) 1
        then Inr (c\<lparr>cn_fin_acked := True\<rparr>) else Inr c)
      else Inr c)"

definition TCPConnection_segment_received :: "TCPConnection \<Rightarrow> TCPSegment \<Rightarrow> TCPConnection result" where
  "TCPConnection_segment_received c seg =
     (let header = sg_header seg in
      if \<not> cn_active c then Inr c
      else if TCPReceiver_ackno (cn_receiver c) = None \<and> \<not> th_syn header then unsynchronized_segment c header
      else
        (let c = c\<lparr>cn_time_since_last_segment_received := 0\<rparr> in
         if th_rst header then Inr (end_uncleanly c)
         else
           and_then (segment_received (cn_receiver c) seg) (\<lambda>receiver.
           let c = check_not_need_to_linger (c\<lparr>cn_receiver := receiver\<rparr>);
               c = (if keep_alive c seg then c\<lparr>cn_sender := send_empty_segment (cn_sender c)\<rparr> else c)
           in
           and_then (take_ack c header) (\<lambda>c.
           and_then (fill_window (cn_sender c)) (\<lambda>sender.
           let sender = (if sn_segments_out sender = [] \<and> TCPSegment_length_in_sequence_space seg \<noteq> 0
                         then send_empty_segment sender else sender)
           in
           and_then (send_all (c\<lparr>cn_sender := sender\<rparr>)) try_to_end_cleanly)))))"

text \<open>\<open>fill_window\<close>, \<open>send_all\<close> and the attempt to end, in which \<open>write\<close> and \<open>end_input_stream\<close> end.\<close>

definition fill_and_send :: "TCPConnection \<Rightarrow> TCPConnection result" where
  "fill_and_send c =
     and_then (fill_window (cn_sender c)) (\<lambda>sender.
     and_then (send_all (c\<lparr>cn_sender := sender\<rparr>)) try_to_end_cleanly)"

definition TCPConnection_write :: "TCPConnection \<Rightarrow> bytes \<Rightarrow> (size_t \<times> TCPConnection) result" where
  "TCPConnection_write c data =
     assert_that (cn_active c) (
     and_then (ByteStream_write (outbound_stream c) data) (\<lambda>(len, stream).
     and_then (fill_and_send (set_outbound c stream)) (\<lambda>c. Inr (len, c))))"

definition end_input_stream :: "TCPConnection \<Rightarrow> TCPConnection result" where
  "end_input_stream c =
     assert_that (cn_active c) (
     and_then (ByteStream_end_input (outbound_stream c)) (\<lambda>stream. fill_and_send (set_outbound c stream)))"

definition TCPConnection_tick :: "TCPConnection \<Rightarrow> size_t \<Rightarrow> TCPConnection result" where
  "TCPConnection_tick c ms_since_last_tick =
     (if \<not> cn_active c then Inr c
      else
        (let c = c\<lparr>cn_time_since_last_segment_received := add64 (cn_time_since_last_segment_received c) ms_since_last_tick\<rparr> in
         and_then (TCPSender_tick (cn_sender c) ms_since_last_tick) (\<lambda>sender.
         let c = c\<lparr>cn_sender := sender\<rparr> in
         if consecutive_retransmissions sender > MAX_RETX_ATTEMPTS then
           and_then (send_rst c) (\<lambda>c. Inr (end_uncleanly c))
         else
           and_then (send_all c) (\<lambda>c.
           if cn_linger_after_streams_finish c \<and> cn_linger_begin c then
             (if cn_time_since_last_segment_received c \<ge> 10 * unat (tc_rt_timeout (cn_cfg c))
              then end_cleanly (c\<lparr>cn_linger_after_streams_finish := False\<rparr>) else Inr c)
           else try_to_end_cleanly c))))"

definition TCPConnection_connect :: "TCPConnection \<Rightarrow> TCPConnection result" where
  "TCPConnection_connect c =
     assert_that (cn_active c) (
     assert_that (sn_segments_out (cn_sender c) = []) (
     assert_that (cn_segments_out c = []) (
     and_then (fill_window (cn_sender c)) (\<lambda>sender.
     case sn_segments_out sender of
       [] \<Rightarrow> Inl EmptyQueue
     | seg_out # rest \<Rightarrow>
         (let c = c\<lparr>cn_sender := sender\<lparr>sn_segments_out := rest\<rparr>\<rparr> in
          and_then (set_win c (sg_header seg_out)) (\<lambda>out_header.
          assert_that (rest = []) (
          Inr (c\<lparr>cn_segments_out := cn_segments_out c @ [seg_out\<lparr>sg_header := out_header\<rparr>], cn_sent_syn := True\<rparr>))))))))"

text \<open>The destructor; what it would throw is caught.\<close>

definition TCPConnection_destroy :: "TCPConnection \<Rightarrow> TCPConnection result" where
  "TCPConnection_destroy c = (if cn_active c then and_then (send_rst c) (\<lambda>c. Inr (end_uncleanly c)) else Inr c)"

end
