(* ===== verification/TCP_State.thy ===== *)
theory TCP_State
  imports TCP_Connection
begin

text \<open>
  \<open>TCPState\<close> of \<open>src/libsponge/tcp_helpers/tcp_state.hh\<close> and \<open>tcp_state.cc\<close>: the summary of a connection as the strings that name
  the states of its two halves, and the summaries of the official states of the specification.
\<close>

section \<open>The summaries\<close>

definition Receiver_ERROR :: string where
  "Receiver_ERROR = ''error (connection was reset)''"

definition Receiver_LISTEN :: string where
  "Receiver_LISTEN = ''waiting for SYN: ackno is empty''"

definition Receiver_SYN_RECV :: string where
  "Receiver_SYN_RECV = ''SYN received (ackno exists), and input to stream hasn't ended''"

definition Receiver_FIN_RECV :: string where
  "Receiver_FIN_RECV = ''input to stream has ended''"

definition Sender_ERROR :: string where
  "Sender_ERROR = ''error (connection was reset)''"

definition Sender_CLOSED :: string where
  "Sender_CLOSED = ''waiting for stream to begin (no SYN sent)''"

definition Sender_SYN_SENT :: string where
  "Sender_SYN_SENT = ''stream started but nothing acknowledged''"

definition Sender_SYN_ACKED :: string where
  "Sender_SYN_ACKED = ''stream ongoing''"

definition Sender_FIN_SENT :: string where
  "Sender_FIN_SENT = ''stream finished (FIN sent) but not fully acknowledged''"

definition Sender_FIN_ACKED :: string where
  "Sender_FIN_ACKED = ''stream finished and fully acknowledged''"

lemmas summaries =
  Receiver_ERROR_def Receiver_LISTEN_def Receiver_SYN_RECV_def Receiver_FIN_RECV_def Sender_ERROR_def Sender_CLOSED_def
  Sender_SYN_SENT_def Sender_SYN_ACKED_def Sender_FIN_SENT_def Sender_FIN_ACKED_def

record TCPState =
  ts_sender :: string
  ts_receiver :: string
  ts_active :: bool
  ts_linger_after_streams_finish :: bool

datatype State = LISTEN | SYN_RCVD | SYN_SENT | ESTABLISHED | CLOSE_WAIT | LAST_ACK | FIN_WAIT_1 | FIN_WAIT_2
  | CLOSING | TIME_WAIT | CLOSED | RESET

definition TCPState_equal :: "TCPState \<Rightarrow> TCPState \<Rightarrow> bool" where
  "TCPState_equal a b \<longleftrightarrow> ts_active a = ts_active b \<and>
     ts_linger_after_streams_finish a = ts_linger_after_streams_finish b \<and>
     ts_sender a = ts_sender b \<and> ts_receiver a = ts_receiver b"

text \<open>\<open>to_string\<close> of a \<open>bool\<close> prints it as an integer.\<close>

definition TCPState_name :: "TCPState \<Rightarrow> string" where
  "TCPState_name st =
     (let to_string = (\<lambda>b. if b then ''1'' else ''0'') in
      ''sender=`'' @ ts_sender st @ ''`, receiver=`'' @ ts_receiver st @ ''`, active='' @ to_string (ts_active st) @
      '', linger_after_streams_finish='' @ to_string (ts_linger_after_streams_finish st))"

section \<open>The official states\<close>

fun TCPState_of_state :: "State \<Rightarrow> TCPState" where
  "TCPState_of_state LISTEN = \<lparr>ts_sender = Sender_CLOSED, ts_receiver = Receiver_LISTEN, ts_active = True, ts_linger_after_streams_finish = True\<rparr>"
| "TCPState_of_state SYN_RCVD = \<lparr>ts_sender = Sender_SYN_SENT, ts_receiver = Receiver_SYN_RECV, ts_active = True, ts_linger_after_streams_finish = True\<rparr>"
| "TCPState_of_state SYN_SENT = \<lparr>ts_sender = Sender_SYN_SENT, ts_receiver = Receiver_LISTEN, ts_active = True, ts_linger_after_streams_finish = True\<rparr>"
| "TCPState_of_state ESTABLISHED = \<lparr>ts_sender = Sender_SYN_ACKED, ts_receiver = Receiver_SYN_RECV, ts_active = True, ts_linger_after_streams_finish = True\<rparr>"
| "TCPState_of_state CLOSE_WAIT = \<lparr>ts_sender = Sender_SYN_ACKED, ts_receiver = Receiver_FIN_RECV, ts_active = True, ts_linger_after_streams_finish = False\<rparr>"
| "TCPState_of_state LAST_ACK = \<lparr>ts_sender = Sender_FIN_SENT, ts_receiver = Receiver_FIN_RECV, ts_active = True, ts_linger_after_streams_finish = False\<rparr>"
| "TCPState_of_state CLOSING = \<lparr>ts_sender = Sender_FIN_SENT, ts_receiver = Receiver_FIN_RECV, ts_active = True, ts_linger_after_streams_finish = True\<rparr>"
| "TCPState_of_state FIN_WAIT_1 = \<lparr>ts_sender = Sender_FIN_SENT, ts_receiver = Receiver_SYN_RECV, ts_active = True, ts_linger_after_streams_finish = True\<rparr>"
| "TCPState_of_state FIN_WAIT_2 = \<lparr>ts_sender = Sender_FIN_ACKED, ts_receiver = Receiver_SYN_RECV, ts_active = True, ts_linger_after_streams_finish = True\<rparr>"
| "TCPState_of_state TIME_WAIT = \<lparr>ts_sender = Sender_FIN_ACKED, ts_receiver = Receiver_FIN_RECV, ts_active = True, ts_linger_after_streams_finish = True\<rparr>"
| "TCPState_of_state RESET = \<lparr>ts_sender = Sender_ERROR, ts_receiver = Receiver_ERROR, ts_active = False, ts_linger_after_streams_finish = False\<rparr>"
| "TCPState_of_state CLOSED = \<lparr>ts_sender = Sender_FIN_ACKED, ts_receiver = Receiver_FIN_RECV, ts_active = False, ts_linger_after_streams_finish = False\<rparr>"

section \<open>The state of a connection\<close>

definition receiver_summary :: "TCPReceiver \<Rightarrow> string" where
  "receiver_summary receiver =
     (if bs_error (TCPReceiver_stream_out receiver) then Receiver_ERROR
      else if TCPReceiver_ackno receiver = None then Receiver_LISTEN
      else if bs_input_ended (TCPReceiver_stream_out receiver) then Receiver_FIN_RECV
      else Receiver_SYN_RECV)"

definition sender_summary :: "TCPSender \<Rightarrow> string" where
  "sender_summary sender =
     (if bs_error (sn_stream sender) then Sender_ERROR
      else if sn_next_seqno sender = 0 then Sender_CLOSED
      else if sn_next_seqno sender = TCPSender_bytes_in_flight sender then Sender_SYN_SENT
      else if \<not> bs_eof (sn_stream sender) then Sender_SYN_ACKED
      else if sn_next_seqno sender < add64 (bs_bytes_written (sn_stream sender)) 2 then Sender_SYN_ACKED
      else if TCPSender_bytes_in_flight sender \<noteq> 0 then Sender_FIN_SENT
      else Sender_FIN_ACKED)"

definition TCPState_of :: "TCPSender \<Rightarrow> TCPReceiver \<Rightarrow> bool \<Rightarrow> bool \<Rightarrow> TCPState" where
  "TCPState_of sender receiver active linger =
     \<lparr>ts_sender = sender_summary sender, ts_receiver = receiver_summary receiver, ts_active = active,
      ts_linger_after_streams_finish = (if active then linger else False)\<rparr>"

definition TCPConnection_state :: "TCPConnection \<Rightarrow> TCPState" where
  "TCPConnection_state c = TCPState_of (cn_sender c) (cn_receiver c) (cn_active c) (cn_linger_after_streams_finish c)"

lemma TCPState_equal_eq: "TCPState_equal a b \<longleftrightarrow> a = b"
  by (cases a; cases b) (auto simp: TCPState_equal_def)

text \<open>No two official states have the same summary.\<close>

lemma official_states_distinct: "TCPState_equal (TCPState_of_state a) (TCPState_of_state b) \<longleftrightarrow> a = b"
  by (cases a; cases b) (simp_all add: TCPState_equal_def summaries)

end
