(* ===== verification/Endpoint.thy ===== *)
theory Endpoint
  imports TCP_State Sending
begin

text \<open>
  The correctness of \<open>TCPConnection\<close>: the invariant of an endpoint relative to the stream it sends and the stream of its peer, that
  every event keeps it and faults nowhere, and what a connection that ended has achieved.
\<close>

section \<open>The retransmission timeout is bounded\<close>

text \<open>
  The timeout doubles at most eight times while the SYN is outstanding and at most eight times afterwards, because the
  connection gives up at the ninth retransmission in a row; so it never reaches \<open>2 ^ 31\<close>.
\<close>

definition doublings :: "TCPSender \<Rightarrow> nat" where
  "doublings s = (if sn_checkpoint s = 0 then sn_consecutive_rx s else if sn_timing s then sn_consecutive_rx s + 8 else 8)"

definition backoff :: "TCPSender \<Rightarrow> bool" where
  "backoff s \<longleftrightarrow> sn_initial_retransmission_timeout s < 32768 \<and> sn_consecutive_rx s \<le> 8 \<and> (\<not> sn_sent_syn s \<longrightarrow> sn_consecutive_rx s = 0) \<and>
     sn_rto s \<le> sn_initial_retransmission_timeout s * 2 ^ doublings s"

lemma doublings_updates [simp]:
  "doublings (s\<lparr>sn_countdown := a\<rparr>) = doublings s" "doublings (s\<lparr>sn_segments_out := q\<rparr>) = doublings s"
  "doublings (s\<lparr>sn_stream := out\<rparr>) = doublings s"
  by (simp_all add: doublings_def)

lemma backoff_updates [simp]:
  "backoff (s\<lparr>sn_countdown := a\<rparr>) = backoff s" "backoff (s\<lparr>sn_segments_out := q\<rparr>) = backoff s"
  "backoff (s\<lparr>sn_stream := out\<rparr>) = backoff s"
  by (simp_all add: backoff_def)

lemma backoff_rto:
  assumes "backoff s"
  shows "sn_rto s < two31"
proof -
  have e: "doublings s \<le> 16" and rt: "sn_initial_retransmission_timeout s \<le> 32767"
    using assms unfolding backoff_def doublings_def by auto
  have "(2 :: nat) ^ doublings s \<le> 2 ^ 16" using e by (rule power_increasing) simp
  from mult_mono [OF rt this] assms show ?thesis unfolding backoff_def by auto
qed

text \<open>A state with the same timeout as another, and no smaller an exponent.\<close>

lemma backoff_mono:
  assumes "sn_rto s \<le> sn_initial_retransmission_timeout s * 2 ^ e" "e \<le> f"
  shows "sn_rto s \<le> sn_initial_retransmission_timeout s * 2 ^ f"
proof -
  have "(2 :: nat) ^ e \<le> 2 ^ f" using assms(2) by (rule power_increasing) simp
  then have "sn_initial_retransmission_timeout s * 2 ^ e \<le> sn_initial_retransmission_timeout s * 2 ^ f" by (rule mult_le_mono2)
  with assms(1) show ?thesis by (rule le_trans)
qed

lemma sn_inv_timing:
  assumes "sn_inv S s"
  shows "sn_timing s \<longleftrightarrow> sn_outstanding_segs s \<noteq> []" "\<not> sn_timing s \<Longrightarrow> sn_checkpoint s = sn_next_seqno s"
    "sn_sent_syn s \<longleftrightarrow> sn_next_seqno s \<noteq> 0"
  using assms unfolding sn_inv_def flight_def by auto

lemma timing_sent_syn:
  assumes "sn_inv S s" "sn_timing s"
  shows "sn_sent_syn s"
proof -
  have f: "flight S s (sn_next_seqno s)" using assms(1) unfolding sn_inv_def by blast
  obtain x xs where "sn_outstanding_segs s = x # xs"
    using sn_inv_timing(1) [OF assms(1)] assms(2) by (cases "sn_outstanding_segs s") auto
  with f have "0 < OutstandingSegment_length x"
    "chain (sn_next_seqno s - sn_bytes_in_flight s + OutstandingSegment_length x) xs (sn_next_seqno s)"
    unfolding flight_def by auto
  with chain_le [OF this(2)] have "sn_next_seqno s \<noteq> 0" by linarith
  then show ?thesis using sn_inv_timing(3) [OF assms(1)] by blast
qed

lemma backoff_extends:
  assumes b: "backoff s" and inv: "sn_inv S s" and ext: "extends s segs s'" and syn: "sn_sent_syn s'"
  shows "backoff s'"
proof -
  have e: "sn_rto s' = sn_rto s" "sn_initial_retransmission_timeout s' = sn_initial_retransmission_timeout s"
    "sn_checkpoint s' = sn_checkpoint s" "sn_consecutive_rx s' \<le> sn_consecutive_rx s"
    "sn_timing s \<longrightarrow> sn_timing s' \<and> sn_consecutive_rx s' = sn_consecutive_rx s"
    using ext unfolding extends_def by blast+
  show ?thesis
  proof (cases "sn_timing s")
    case True
    then have "doublings s' = doublings s" using e unfolding doublings_def by simp
    then show ?thesis using b e syn unfolding backoff_def by simp
  next
    case False
    then have cp: "sn_checkpoint s = 0 \<longrightarrow> sn_consecutive_rx s = 0"
      using sn_inv_timing(2,3) [OF inv] b unfolding backoff_def by auto
    let ?c = "sn_checkpoint s"
    have "sn_rto s \<le> sn_initial_retransmission_timeout s * 2 ^ (if ?c = 0 then 0 else 8)"
      using b False cp unfolding backoff_def doublings_def by (auto split: if_splits)
    moreover have "(if ?c = 0 then 0 else 8) \<le> doublings s'" using e(3) unfolding doublings_def by simp
    ultimately show ?thesis using b e syn backoff_mono [of s _ "doublings s'"] unfolding backoff_def by simp
  qed
qed

lemma backoff_ack:
  assumes b: "backoff s" and inv: "sn_inv S s" "sn_sent_syn s" and op: "ack_received s ackno w = Inr s'"
  shows "backoff s'"
proof -
  define k where "k = TCPSender_get_abs_seqno s ackno"
  have r: "if sn_next_seqno s < k then s' = s
     else sn_outstanding_segs s' = filter (\<lambda>x. k < abs_seqno_at_end x) (sn_outstanding_segs s) \<and> sn_checkpoint s' = max k (sn_checkpoint s) \<and>
       (if k > 1 \<and> k > sn_checkpoint s then sn_rto s' = sn_initial_retransmission_timeout s \<and> sn_consecutive_rx s' = 0
        else sn_rto s' = sn_rto s \<and> sn_consecutive_rx s' = sn_consecutive_rx s)"
    "sn_inv S s'" "sn_sent_syn s'" "sn_initial_retransmission_timeout s' = sn_initial_retransmission_timeout s"
    using ack_received_ok [OF inv k_def, of w] op by (auto split: if_splits)
  consider "sn_next_seqno s < k" | "k \<le> sn_next_seqno s" "k > 1 \<and> k > sn_checkpoint s"
    | "k \<le> sn_next_seqno s" "\<not> (k > 1 \<and> k > sn_checkpoint s)" "k \<le> sn_checkpoint s"
    | "k \<le> sn_next_seqno s" "\<not> (k > 1 \<and> k > sn_checkpoint s)" "sn_checkpoint s < k" by linarith
  then show ?thesis
  proof cases
    case 1
    with r(1) b show ?thesis by simp
  next
    case 2
    with r have "sn_rto s' \<le> sn_initial_retransmission_timeout s' * 2 ^ 0" "sn_consecutive_rx s' = 0" "sn_checkpoint s' \<noteq> 0" by auto
    with backoff_mono [OF this(1), of "doublings s'"] r(3,4) b show ?thesis unfolding backoff_def by auto
  next
    case 3
    have "filter (\<lambda>x. k < abs_seqno_at_end x) (sn_outstanding_segs s) = sn_outstanding_segs s"
      using inv(1) 3(3) unfolding sn_inv_def flight_def by (intro filter_True) auto
    with 3 r have "sn_outstanding_segs s' = sn_outstanding_segs s" "sn_checkpoint s' = sn_checkpoint s"
      "sn_rto s' = sn_rto s" "sn_consecutive_rx s' = sn_consecutive_rx s" by (auto simp: max_def)
    moreover from this(1) have "doublings s' = doublings s"
      using sn_inv_timing(1) [OF inv(1)] sn_inv_timing(1) [OF r(2)] calculation unfolding doublings_def by simp
    ultimately show ?thesis using b r(3,4) unfolding backoff_def by simp
  next
    case 4
    with r have e: "sn_checkpoint s = 0" "sn_checkpoint s' = 1" "sn_rto s' = sn_rto s" "sn_consecutive_rx s' = sn_consecutive_rx s" by auto
    then have "sn_rto s' \<le> sn_initial_retransmission_timeout s' * 2 ^ sn_consecutive_rx s" "sn_consecutive_rx s \<le> 8"
      using b r(4) unfolding backoff_def doublings_def by auto
    moreover from this(2) have "sn_consecutive_rx s \<le> doublings s'" using e(2,4) unfolding doublings_def by simp
    ultimately show ?thesis using b r(3,4) e(4) backoff_mono [of s' _ "doublings s'"] unfolding backoff_def by auto
  qed
qed

lemma backoff_tick:
  assumes b: "backoff s" and inv: "sn_inv S s" and op: "TCPSender_tick s ms = Inr s'" and few: "sn_consecutive_rx s' \<le> 8"
  shows "backoff s'"
proof -
  note t = tick_ok [OF inv disjI1 [OF backoff_rto [OF b]], of ms]
  consider "s' = s" | "s' = s\<lparr>sn_countdown := sn_countdown s - ms\<rparr>"
    | "sn_timing s" "s' = s\<lparr>sn_segments_out := sn_segments_out s @ [os_seg (hd (sn_outstanding_segs s))],
            sn_consecutive_rx := (sn_consecutive_rx s + 1) mod two32,
            sn_rto := (if sn_actual_zero_window_size s then sn_rto s else 2 * sn_rto s),
            sn_countdown := (if sn_actual_zero_window_size s then sn_rto s else 2 * sn_rto s)\<rparr>"
    using t op by (auto split: if_splits)
  then show ?thesis
  proof cases
    case 3
    have c: "(sn_consecutive_rx s + 1) mod two32 = sn_consecutive_rx s + 1" "sn_sent_syn s"
      using b timing_sent_syn [OF inv 3(1)] unfolding backoff_def by simp_all
    have d: "doublings s' = doublings s + 1" unfolding doublings_def 3(2) using c(1) 3(1) by simp
    have "sn_rto s \<le> sn_initial_retransmission_timeout s * 2 ^ doublings s" using b unfolding backoff_def by blast
    then have "sn_rto s' \<le> sn_initial_retransmission_timeout s * 2 ^ doublings s'" unfolding d unfolding 3(2) by auto
    moreover have "sn_initial_retransmission_timeout s' = sn_initial_retransmission_timeout s" "sn_sent_syn s'" unfolding 3(2) using c(2) by simp_all
    ultimately show ?thesis using b few unfolding backoff_def by simp
  qed (use b in simp_all)
qed

section \<open>The invariant of an endpoint\<close>

text \<open>
  \<open>S\<close> is the stream the application of this endpoint writes, \<open>P\<close> the stream of the peer and \<open>isn\<close> the peer's initial sequence number.
  \<open>working\<close> holds also between the steps of an event, when the sender's queue is not yet empty.
\<close>

definition out_seg :: "bytes \<Rightarrow> WrappingInt32 \<Rightarrow> TCPConnection \<Rightarrow> TCPSegment \<Rightarrow> bool" where
  "out_seg S isn c seg \<longleftrightarrow> (\<exists>k. seg_at S (sn_isn (cn_sender c)) k seg) \<and> sn_sent_syn (cn_sender c) \<and>
     (th_ack (sg_header seg) \<longrightarrow> rc_received_syn (cn_receiver c) \<and>
       (\<exists>j\<le>get_abs_ackno (cn_receiver c). th_ackno (sg_header seg) = wrap j isn))"

definition conn_base :: "bytes \<Rightarrow> bytes \<Rightarrow> WrappingInt32 \<Rightarrow> TCPConnection \<Rightarrow> bool" where
  "conn_base S P isn c \<longleftrightarrow> sn_inv S (cn_sender c) \<and> rc_inv P isn (cn_receiver c) \<and>
     (\<forall>seg\<in>set (cn_segments_out c). out_seg S isn c seg) \<and>
     (cn_sent_fin c \<longrightarrow> sn_sent_all (cn_sender c) \<and> cn_abs_fin_seqno c = length S + 1) \<and>
     (cn_fin_acked c \<longrightarrow> cn_sent_fin c \<and> sn_outstanding_segs (cn_sender c) = []) \<and>
     (cn_linger_begin c \<longrightarrow> cn_fin_acked c \<and> bs_eof (inbound_stream c))"

definition fault_free :: "TCPConnection \<Rightarrow> bool" where
  "fault_free c \<longleftrightarrow> \<not> bs_error (inbound_stream c) \<and> \<not> bs_error (outbound_stream c)"

definition working :: "bytes \<Rightarrow> bytes \<Rightarrow> WrappingInt32 \<Rightarrow> TCPConnection \<Rightarrow> bool" where
  "working S P isn c \<longleftrightarrow> conn_base S P isn c \<and> cn_active c \<and> fault_free c \<and> backoff (cn_sender c) \<and>
     (cn_sent_syn c \<longrightarrow> sn_sent_syn (cn_sender c)) \<and>
     (sn_sent_syn (cn_sender c) \<longrightarrow> cn_sent_syn c \<or> sn_segments_out (cn_sender c) \<noteq> []) \<and>
     (sn_segments_out (cn_sender c) \<noteq> [] \<longrightarrow>
       sn_sent_syn (cn_sender c) \<and> (cn_sent_syn c \<or> th_syn (sg_header (hd (sn_segments_out (cn_sender c))))))"

text \<open>Between events: an endpoint at work, one that was reset, or one that has finished.\<close>

definition finished :: "TCPConnection \<Rightarrow> bool" where
  "finished c \<longleftrightarrow> fault_free c \<and> cn_fin_acked c \<and> bs_eof (inbound_stream c)"

definition reset :: "TCPConnection \<Rightarrow> bool" where
  "reset c \<longleftrightarrow> bs_error (inbound_stream c) \<and> bs_error (outbound_stream c)"

definition conn_inv :: "bytes \<Rightarrow> bytes \<Rightarrow> WrappingInt32 \<Rightarrow> TCPConnection \<Rightarrow> bool" where
  "conn_inv S P isn c \<longleftrightarrow>
     (if cn_active c then working S P isn c \<and> sn_segments_out (cn_sender c) = [] \<and>
        (rc_received_syn (cn_receiver c) \<longrightarrow> sn_sent_syn (cn_sender c))
      else conn_base S P isn c \<and> (reset c \<or> finished c))"

section \<open>Sending\<close>

text \<open>What \<open>send_all\<close> makes of a segment of the sender.\<close>

definition conn_window :: "TCPConnection \<Rightarrow> 16 word" where
  "conn_window c = word_of_nat (min 65535 (rc_capacity (cn_receiver c) - length (rc_unread (cn_receiver c))))"

definition stamp :: "TCPConnection \<Rightarrow> TCPSegment \<Rightarrow> TCPSegment" where
  "stamp c seg = seg\<lparr>sg_header := (with_ackno c (sg_header seg))\<lparr>th_win := conn_window c\<rparr>\<rparr>"

lemma set_win_ok:
  assumes "rc_inv P isn (cn_receiver c)"
  shows "set_win c header = Inr (header\<lparr>th_win := conn_window c\<rparr>)"
  by (auto simp: set_win_def window_size_ok [OF assms] conn_window_def min_def)

lemma with_ackno_fields [simp]:
  "th_seqno (with_ackno c h) = th_seqno h" "th_syn (with_ackno c h) = th_syn h" "th_fin (with_ackno c h) = th_fin h"
  by (simp_all add: with_ackno_def split: option.split)

lemma seg_at_header:
  assumes "seg_at S isn k seg" "th_seqno h = th_seqno (sg_header seg)" "th_syn h = th_syn (sg_header seg)" "th_fin h = th_fin (sg_header seg)"
  shows "seg_at S isn k (seg\<lparr>sg_header := h\<rparr>)"
  using assms unfolding seg_at_def bare_def by auto

lemma stamp_seg:
  assumes "rc_inv P isn (cn_receiver c)" "seg_at S (sn_isn (cn_sender c)) k seg" "\<not> th_ack (sg_header seg)" "sn_sent_syn (cn_sender c)"
  shows "out_seg S isn c (stamp c seg)"
proof -
  have "rc_received_syn (cn_receiver c) \<longrightarrow> rc_isn (cn_receiver c) = isn" using assms(1) unfolding rc_inv_def by simp
  moreover have "seg_at S (sn_isn (cn_sender c)) k (stamp c seg)" unfolding stamp_def by (rule seg_at_header [OF assms(2)]) simp_all
  ultimately show ?thesis using assms(3,4) unfolding out_seg_def by (auto simp: stamp_def with_ackno_def TCPReceiver_ackno_def)
qed

section \<open>Changing one part of an endpoint\<close>

lemma conn_base_updates [simp]:
  "conn_base S P isn (c\<lparr>cn_time_since_last_segment_received := t\<rparr>) = conn_base S P isn c"
  "conn_base S P isn (c\<lparr>cn_active := b\<rparr>) = conn_base S P isn c" "conn_base S P isn (c\<lparr>cn_sent_syn := b\<rparr>) = conn_base S P isn c"
  "conn_base S P isn (c\<lparr>cn_linger_after_streams_finish := b\<rparr>) = conn_base S P isn c"
  by (simp_all add: conn_base_def out_seg_def inbound_stream_def)

lemma fault_free_updates [simp]:
  "fault_free (c\<lparr>cn_time_since_last_segment_received := t\<rparr>) = fault_free c" "fault_free (c\<lparr>cn_active := b\<rparr>) = fault_free c"
  "fault_free (c\<lparr>cn_linger_after_streams_finish := b\<rparr>) = fault_free c" "fault_free (c\<lparr>cn_fin_acked := b\<rparr>) = fault_free c"
  "fault_free (c\<lparr>cn_linger_begin := b\<rparr>) = fault_free c"
  by (simp_all add: fault_free_def inbound_stream_def outbound_stream_def)

lemma working_updates [simp]:
  "working S P isn (c\<lparr>cn_time_since_last_segment_received := t\<rparr>) = working S P isn c"
  "working S P isn (c\<lparr>cn_linger_after_streams_finish := b\<rparr>) = working S P isn c"
  by (simp_all add: working_def)

lemma conn_base_sender:
  assumes "conn_base S P isn c" "sn_inv S s'" "sn_isn s' = sn_isn (cn_sender c)" "sn_sent_syn (cn_sender c) \<longrightarrow> sn_sent_syn s'"
    "sn_sent_all (cn_sender c) \<longrightarrow> sn_sent_all s'" "cn_fin_acked c \<longrightarrow> sn_outstanding_segs s' = []"
  shows "conn_base S P isn (c\<lparr>cn_sender := s'\<rparr>)"
  using assms unfolding conn_base_def out_seg_def inbound_stream_def by auto

lemma conn_base_receiver:
  assumes "conn_base S P isn c" "rc_inv P isn r'" "rc_received_syn (cn_receiver c) \<longrightarrow> rc_received_syn r'"
    "get_abs_ackno (cn_receiver c) \<le> get_abs_ackno r'" "bs_eof (inbound_stream c) \<longrightarrow> bs_eof (TCPReceiver_stream_out r')"
  shows "conn_base S P isn (c\<lparr>cn_receiver := r'\<rparr>)"
proof -
  have "out_seg S isn (c\<lparr>cn_receiver := r'\<rparr>) seg" if "out_seg S isn c seg" for seg
    using that assms(3,4) unfolding out_seg_def by (auto intro: le_trans)
  with assms(1,2,5) show ?thesis unfolding conn_base_def inbound_stream_def by auto
qed

lemma rc_eof_iff:
  assumes "rc_inv P isn r"
  shows "bs_eof (TCPReceiver_stream_out r) \<longleftrightarrow> sr_eof (rc_reassembler r) \<and> rc_next r = length P \<and> rc_read r = length P"
proof -
  have "bs_inv (TCPReceiver_stream_out r)" "bs_input_ended (TCPReceiver_stream_out r) \<longleftrightarrow> sr_eof (rc_reassembler r) \<and> rc_next r = length P"
    using rc_inv_output(1) [OF assms] assms unfolding output_is_def rc_inv_def sr_inv_def sr_pre_def TCPReceiver_stream_out_def by blast+
  then show ?thesis using rc_inv_output(7) [OF assms] unfolding bs_inv_def by auto
qed

section \<open>The stages of an event\<close>

text \<open>What no stage of an event changes.\<close>

definition keeps :: "TCPConnection \<Rightarrow> TCPConnection \<Rightarrow> bool" where
  "keeps c c' \<longleftrightarrow> sn_isn (cn_sender c') = sn_isn (cn_sender c) \<and> rc_read (cn_receiver c') = rc_read (cn_receiver c) \<and>
     cn_cfg c' = cn_cfg c \<and> (\<exists>segs. cn_segments_out c' = cn_segments_out c @ segs) \<and>
     (sn_sent_syn (cn_sender c) \<longrightarrow> sn_sent_syn (cn_sender c')) \<and> get_abs_ackno (cn_receiver c) \<le> get_abs_ackno (cn_receiver c') \<and>
     (rc_received_syn (cn_receiver c) \<longrightarrow> rc_received_syn (cn_receiver c'))"

lemma keeps_refl [simp]: "keeps c c"
  by (simp add: keeps_def)

lemma keeps_trans: "keeps c c' \<Longrightarrow> keeps c' c'' \<Longrightarrow> keeps c c''"
  unfolding keeps_def by auto

lemma keeps_updates [simp]:
  "keeps c (c'\<lparr>cn_time_since_last_segment_received := t\<rparr>) = keeps c c'" "keeps (c\<lparr>cn_time_since_last_segment_received := t\<rparr>) c' = keeps c c'"
  "keeps c (c'\<lparr>cn_linger_after_streams_finish := b\<rparr>) = keeps c c'" "keeps (c\<lparr>cn_linger_after_streams_finish := b\<rparr>) c' = keeps c c'"
  "keeps c (c'\<lparr>cn_linger_begin := b\<rparr>) = keeps c c'" "keeps c (c'\<lparr>cn_active := b\<rparr>) = keeps c c'" "keeps c (c'\<lparr>cn_fin_acked := b\<rparr>) = keeps c c'"
  by (simp_all add: keeps_def)

lemma receive_stage:
  assumes w: "working S P isn c" and at: "seg_at P isn k seg" "near_checkpoint (cn_receiver c) k"
    and syn: "rc_received_syn (cn_receiver c) \<or> th_syn (sg_header seg)"
  shows "\<exists>r'. segment_received (cn_receiver c) seg = Inr r' \<and> working S P isn (c\<lparr>cn_receiver := r'\<rparr>) \<and> rc_received_syn r' \<and>
    keeps c (c\<lparr>cn_receiver := r'\<rparr>)"
proof -
  let ?r = "cn_receiver c"
  have inv: "rc_inv P isn ?r" using w unfolding working_def conn_base_def by blast
  obtain r' where r': "segment_received ?r seg = Inr r'" "rc_inv P isn r'" "rc_received_syn r'"
    "rc_received_fin r' \<longleftrightarrow> rc_received_fin ?r \<or> th_fin (sg_header seg)" "advances ?r (k - 1) (length (seg_bytes seg)) r'"
    using segment_received_ok [OF inv at] syn by auto
  have a: "rc_next ?r \<le> rc_next r'" "rc_read r' = rc_read ?r" "sr_eof (rc_reassembler ?r) \<longrightarrow> sr_eof (rc_reassembler r')"
    "bs_error (TCPReceiver_stream_out r') = bs_error (TCPReceiver_stream_out ?r)"
    using r'(5) unfolding advances_def by blast+
  note le = rc_inv_output(3) [OF inv] rc_inv_output(3) [OF r'(2)]
  have mono: "get_abs_ackno ?r \<le> get_abs_ackno r'"
    using a(1) le r'(4) unfolding get_abs_ackno_ok [OF inv] get_abs_ackno_ok [OF r'(2)] by auto
  have "bs_eof (inbound_stream c) \<longrightarrow> bs_eof (TCPReceiver_stream_out r')"
    using a(1-3) le unfolding inbound_stream_def rc_eof_iff [OF inv] rc_eof_iff [OF r'(2)] by auto
  with mono have "conn_base S P isn (c\<lparr>cn_receiver := r'\<rparr>)"
    using w r'(2,3) unfolding working_def by (intro conn_base_receiver) auto
  then have "working S P isn (c\<lparr>cn_receiver := r'\<rparr>)"
    using w a(4) unfolding working_def fault_free_def inbound_stream_def outbound_stream_def by simp
  moreover have "keeps c (c\<lparr>cn_receiver := r'\<rparr>)" using a(2) mono r'(3) by (simp add: keeps_def)
  ultimately show ?thesis using r'(1,3) by blast
qed

lemma empty_stage:
  assumes w: "working S P isn c" and syn: "cn_sent_syn c"
  shows "working S P isn (c\<lparr>cn_sender := send_empty_segment (cn_sender c)\<rparr>) \<and> keeps c (c\<lparr>cn_sender := send_empty_segment (cn_sender c)\<rparr>)"
proof -
  let ?s = "send_empty_segment (cn_sender c)"
  have f: "sn_isn ?s = sn_isn (cn_sender c)" "sn_sent_syn ?s = sn_sent_syn (cn_sender c)" "sn_sent_all ?s = sn_sent_all (cn_sender c)"
    "sn_outstanding_segs ?s = sn_outstanding_segs (cn_sender c)" "sn_stream ?s = sn_stream (cn_sender c)" "backoff ?s = backoff (cn_sender c)"
    "sn_segments_out ?s \<noteq> []"
    by (simp_all add: send_empty_segment_def Let_def)
  have "conn_base S P isn c" "sn_inv S (cn_sender c)" "sn_sent_syn (cn_sender c)"
    using w syn unfolding working_def conn_base_def by blast+
  moreover from this have "conn_base S P isn (c\<lparr>cn_sender := ?s\<rparr>)"
    using empty_segment_ok f by (intro conn_base_sender) (auto simp: conn_base_def)
  ultimately show ?thesis using w syn f unfolding working_def fault_free_def inbound_stream_def outbound_stream_def keeps_def by simp
qed

text \<open>An acknowledgment of the FIN leaves nothing outstanding.\<close>

lemma ack_of_fin:
  assumes inv: "sn_inv S s" and k: "k = TCPSender_get_abs_seqno s ackno"
    and s': "if sn_next_seqno s < k then s' = s else sn_outstanding_segs s' = filter (\<lambda>x. k < abs_seqno_at_end x) (sn_outstanding_segs s) \<and>
       sn_checkpoint s' = max k (sn_checkpoint s)" "sn_isn s' = sn_isn s"
    and fin: "sn_sent_all s" "a = length S + 1" "TCPSender_get_abs_seqno s' ackno = add64 a 1"
  shows "sn_outstanding_segs s' = []"
proof -
  define n where "n = sn_next_seqno s"
  have f: "flight S s n" "bs_eof (sn_stream s)" "written S (sn_stream s)" "sn_sent_syn s" "n = 1 + bs_bytes_read (sn_stream s) + 1"
    using inv fin(1) unfolding sn_inv_def n_def by auto
  have b: "length S + 2 < two63" "sn_checkpoint s \<le> n" "n \<le> length S + 2" "chain (n - sn_bytes_in_flight s) (sn_outstanding_segs s) n"
    using f(1) unfolding flight_def by blast+
  have n: "n = length S + 2" "add64 a 1 = n" using written_eof(1) [OF f(3,2)] f(5) fin(2) b(1) by simp_all
  have le: "\<not> n < k" using s'(1) fin(3) n(2) unfolding n_def k by (auto split: if_splits)
  have cp: "sn_checkpoint s < two64" "k < two64" using b le by auto
  have "wrap k (sn_isn s) = ackno" unfolding k TCPSender_get_abs_seqno_def using cp(1) by (rule wrap_unwrap)
  then have "k = n"
    using s' fin(3) n(2) le unwrap_wrap_near [OF cp(2,2), of "sn_isn s"]
    unfolding n_def TCPSender_get_abs_seqno_def k [unfolded TCPSender_get_abs_seqno_def, symmetric]
    by (cases "k \<le> sn_checkpoint s") (simp_all add: max_def k TCPSender_get_abs_seqno_def)
  moreover have "n < two64" using b by simp
  then have "\<forall>x\<in>set (sn_outstanding_segs s). abs_seqno_at_end x \<le> n" using chain_end [OF b(4)] by blast
  ultimately have "filter (\<lambda>x. k < abs_seqno_at_end x) (sn_outstanding_segs s) = []" by (simp add: filter_empty_conv not_less)
  then show ?thesis using s'(1) le unfolding n_def by simp
qed

lemma ack_stage:
  assumes w: "working S P isn c" and syn: "th_ack header \<longrightarrow> sn_sent_syn (cn_sender c)"
  shows "\<exists>c'. take_ack c header = Inr c' \<and> working S P isn c' \<and> cn_receiver c' = cn_receiver c \<and> keeps c c'"
proof (cases "th_ack header")
  case False
  with w show ?thesis by (simp add: take_ack_def)
next
  case True
  define s where "s = cn_sender c"
  define k where "k = TCPSender_get_abs_seqno s (th_ackno header)"
  have inv: "sn_inv S s" "sn_sent_syn s" "conn_base S P isn c" "backoff s"
    using w syn True unfolding working_def conn_base_def s_def by blast+
  obtain s' where s': "ack_received s (th_ackno header) (th_win header) = Inr s'" "sn_inv S s'" "sn_sent_syn s'"
    "if sn_next_seqno s < k then s' = s else sn_outstanding_segs s' = filter (\<lambda>x. k < abs_seqno_at_end x) (sn_outstanding_segs s) \<and>
       sn_checkpoint s' = max k (sn_checkpoint s)"
    "sn_sent_all s' = sn_sent_all s" "sn_stream s' = sn_stream s" "sn_segments_out s' = sn_segments_out s" "sn_isn s' = sn_isn s"
    using ack_received_ok [OF inv(1,2) k_def, of "th_win header"]
    by (elim exE conjE) (rule that, assumption+, simp split: if_splits, assumption+)
  let ?c = "c\<lparr>cn_sender := s'\<rparr>"
  have base: "conn_base S P isn ?c"
    using inv(3) s' by (intro conn_base_sender) (auto simp: conn_base_def s_def split: if_splits)
  then have work: "working S P isn ?c"
    using w s'(3,6,7) inv(2) backoff_ack [OF inv(4,1,2) s'(1)]
    unfolding working_def fault_free_def inbound_stream_def outbound_stream_def s_def by simp
  show ?thesis
  proof (cases "cn_sent_fin c \<and> TCPSender_get_abs_seqno s' (th_ackno header) = add64 (cn_abs_fin_seqno c) 1")
    case fin: True
    have "sn_outstanding_segs s' = []"
      using ack_of_fin [OF inv(1) k_def s'(4,8)] fin inv(3) unfolding conn_base_def s_def by auto
    then have "working S P isn (?c\<lparr>cn_fin_acked := True\<rparr>)"
      using work fin unfolding working_def conn_base_def out_seg_def fault_free_def inbound_stream_def outbound_stream_def by simp
    then show ?thesis using s'(1,3,8) True fin unfolding take_ack_def keeps_def s_def by (simp add: Let_def)
  next
    case False
    then show ?thesis using work s'(1,3,8) True unfolding take_ack_def keeps_def s_def by (auto simp: Let_def)
  qed
qed

lemma fill_stage:
  assumes w: "working S P isn c"
  shows "\<exists>s'. fill_window (cn_sender c) = Inr s' \<and> working S P isn (c\<lparr>cn_sender := s'\<rparr>) \<and> sn_sent_syn s' \<and> keeps c (c\<lparr>cn_sender := s'\<rparr>)"
proof -
  define s where "s = cn_sender c"
  have inv: "sn_inv S s" "conn_base S P isn c" "backoff s" using w unfolding working_def conn_base_def s_def by blast+
  obtain s' segs where s': "fill_window s = Inr s'" "sn_inv S s'" "sn_sent_syn s'" "extends s segs s'" "sn_sent_all s \<longrightarrow> s' = s"
    "\<not> sn_sent_syn s \<longrightarrow> (\<exists>seg. segs = [seg] \<and> th_syn (sg_header seg))"
  proof (cases "sn_sent_syn s")
    case True
    with fill_window_ok [OF inv(1)] that show ?thesis by blast
  next
    case False
    then have "\<not> sn_sent_all s" using inv(1) unfolding sn_inv_def by blast
    with connect_ok [OF inv(1) False] that show ?thesis by blast
  qed
  have e: "sn_segments_out s' = sn_segments_out s @ segs" "sn_isn s' = sn_isn s" "bs_error (sn_stream s') = bs_error (sn_stream s)"
    using s'(4) unfolding extends_def by blast+
  have "conn_base S P isn (c\<lparr>cn_sender := s'\<rparr>)"
    using inv(2) s'(2,3,5) e(2) by (intro conn_base_sender) (auto simp: conn_base_def s_def)
  moreover have "backoff s'" by (rule backoff_extends [OF inv(3,1) s'(4,3)])
  moreover have "cn_sent_syn c \<or> sn_segments_out s' \<noteq> [] \<and> th_syn (sg_header (hd (sn_segments_out s')))"
    using w s'(6) e(1) unfolding working_def s_def [symmetric] by (cases "sn_segments_out s") auto
  ultimately have "working S P isn (c\<lparr>cn_sender := s'\<rparr>)"
    using w s'(3) e(3) unfolding working_def fault_free_def inbound_stream_def outbound_stream_def s_def [symmetric] by auto
  moreover have "keeps c (c\<lparr>cn_sender := s'\<rparr>)" using s'(3) e(2) unfolding keeps_def s_def by simp
  ultimately show ?thesis using s'(1,3) unfolding s_def by blast
qed

section \<open>Emptying the sender's queue\<close>

definition has_fin :: "TCPSegment list \<Rightarrow> bool" where
  "has_fin segs \<longleftrightarrow> (\<exists>seg\<in>set segs. th_fin (sg_header seg))"

definition flushed :: "TCPConnection \<Rightarrow> TCPSegment list \<Rightarrow> TCPConnection" where
  "flushed c segs = c\<lparr>cn_sender := (cn_sender c)\<lparr>sn_segments_out := []\<rparr>, cn_segments_out := cn_segments_out c @ map (stamp c) segs,
     cn_sent_syn := (cn_sent_syn c \<or> segs \<noteq> []), cn_sent_fin := (cn_sent_fin c \<or> has_fin segs),
     cn_abs_fin_seqno := (if has_fin segs then 1 + bs_bytes_read (outbound_stream c) else cn_abs_fin_seqno c)\<rparr>"

lemma send_front_ok:
  assumes "rc_inv P isn (cn_receiver c)" "sn_segments_out (cn_sender c) = seg # segs" "cn_sent_syn c \<or> th_syn (sg_header seg)"
    and fin: "th_fin (sg_header seg) \<longrightarrow> bs_eof (outbound_stream c) \<and> bs_bytes_read (outbound_stream c) = bs_bytes_written (outbound_stream c) \<and>
      bs_bytes_read (outbound_stream c) + 2 < two64"
  shows "send_front c seg = Inr (c\<lparr>cn_sender := (cn_sender c)\<lparr>sn_segments_out := segs\<rparr>, cn_segments_out := cn_segments_out c @ [stamp c seg],
     cn_sent_syn := True, cn_sent_fin := (cn_sent_fin c \<or> th_fin (sg_header seg)),
     cn_abs_fin_seqno := (if th_fin (sg_header seg) then 1 + bs_bytes_read (outbound_stream c) else cn_abs_fin_seqno c)\<rparr>)"
proof -
  define c1 where "c1 = (if th_syn (sg_header seg) then c\<lparr>cn_sent_syn := True\<rparr> else c)"
  have c1: "c1 = c\<lparr>cn_sent_syn := True\<rparr>" using assms(3) unfolding c1_def by (cases c) auto
  have s: "(with_ackno c1 h)\<lparr>th_win := conn_window c1\<rparr> = (with_ackno c h)\<lparr>th_win := conn_window c\<rparr>" for h
    unfolding c1 by (simp add: with_ackno_def conn_window_def)
  have inv: "rc_inv P isn (cn_receiver c1)" "cn_sent_syn c1" using assms(1) unfolding c1 by simp_all
  show ?thesis
    unfolding send_front_def Let_def c1_def [symmetric] set_win_ok [OF inv(1)] s and_then.simps stamp_def
    using inv(2) fin assms(2) unfolding c1 by (auto simp: outbound_stream_def)
qed

lemma send_loop_ok:
  assumes "rc_inv P isn (cn_receiver c)" "sn_segments_out (cn_sender c) = segs" "segs \<noteq> [] \<longrightarrow> cn_sent_syn c \<or> th_syn (sg_header (hd segs))"
    and "has_fin segs \<longrightarrow> bs_eof (outbound_stream c) \<and> bs_bytes_read (outbound_stream c) = bs_bytes_written (outbound_stream c) \<and>
      bs_bytes_read (outbound_stream c) + 2 < two64"
  shows "send_loop segs c = Inr (flushed c segs)"
  using assms
proof (induction segs arbitrary: c)
  case Nil
  then show ?case by (cases c; cases "cn_sender c") (simp add: flushed_def has_fin_def)
next
  case (Cons seg segs)
  define c1 where "c1 = c\<lparr>cn_sender := (cn_sender c)\<lparr>sn_segments_out := segs\<rparr>, cn_segments_out := cn_segments_out c @ [stamp c seg],
     cn_sent_syn := True, cn_sent_fin := (cn_sent_fin c \<or> th_fin (sg_header seg)),
     cn_abs_fin_seqno := (if th_fin (sg_header seg) then 1 + bs_bytes_read (outbound_stream c) else cn_abs_fin_seqno c)\<rparr>"
  have 1: "send_front c seg = Inr c1"
    unfolding c1_def using Cons.prems by (intro send_front_ok) (auto simp: has_fin_def)
  have st: "stamp c1 = stamp c" unfolding c1_def by (simp add: fun_eq_iff stamp_def with_ackno_def conn_window_def)
  have "send_loop segs c1 = Inr (flushed c1 segs)"
    by (rule Cons.IH) (use Cons.prems in \<open>auto simp: c1_def has_fin_def outbound_stream_def\<close>)
  moreover have "flushed c1 segs = flushed c (seg # segs)"
    unfolding flushed_def st unfolding c1_def by (simp add: has_fin_def outbound_stream_def)
  ultimately show ?case using 1 by simp
qed

lemma send_stage:
  assumes w: "working S P isn c"
  shows "\<exists>c'. send_all c = Inr c' \<and> working S P isn c' \<and> sn_segments_out (cn_sender c') = [] \<and> keeps c c' \<and>
    cn_receiver c' = cn_receiver c \<and> sn_sent_syn (cn_sender c') = sn_sent_syn (cn_sender c) \<and>
    cn_segments_out c' = cn_segments_out c @ map (stamp c) (sn_segments_out (cn_sender c))"
proof -
  define s where "s = cn_sender c"
  define segs where "segs = sn_segments_out s"
  have inv: "sn_inv S s" "conn_base S P isn c" "rc_inv P isn (cn_receiver c)" using w unfolding working_def conn_base_def s_def by blast+
  have q: "\<forall>seg\<in>set segs. (\<exists>k. seg_at S (sn_isn s) k seg) \<and> tame (sn_sent_all s) seg" "written S (sn_stream s)" "length S + 2 < two63"
    using inv(1) unfolding sn_inv_def flight_def fin_last_def segs_def by blast+
  have all: "sn_sent_all s \<Longrightarrow> bs_eof (sn_stream s) \<and> bs_bytes_read (sn_stream s) = length S \<and> bs_bytes_written (sn_stream s) = length S"
    using inv(1) written_eof [OF q(2)] q(2) unfolding sn_inv_def written_def by auto
  have fin: "has_fin segs \<Longrightarrow> sn_sent_all s" using q(1) unfolding has_fin_def tame_def by blast
  have "send_all c = Inr (flushed c segs)"
    unfolding send_all_def s_def [symmetric] segs_def [symmetric]
    by (rule send_loop_ok [OF inv(3)]) (use w all fin q(3) in \<open>auto simp: working_def s_def segs_def outbound_stream_def\<close>)
  moreover have base: "conn_base S P isn (flushed c segs)"
  proof -
    have "\<forall>seg\<in>set segs. out_seg S isn c (stamp c seg)"
      using q(1) w stamp_seg [OF inv(3)] unfolding working_def tame_def segs_def s_def by (metis list.set_cases list.distinct(1))
    then have "\<forall>seg\<in>set (cn_segments_out (flushed c segs)). out_seg S isn (flushed c segs) seg"
      using inv(2) unfolding conn_base_def out_seg_def flushed_def by auto
    then show ?thesis using inv(2) sn_inv_collect [OF inv(1)] all fin
      unfolding conn_base_def by (auto simp: flushed_def inbound_stream_def outbound_stream_def s_def)
  qed
  moreover have "working S P isn (flushed c segs)"
    using w base unfolding working_def by (auto simp: flushed_def fault_free_def inbound_stream_def outbound_stream_def segs_def s_def)
  ultimately show ?thesis by (intro exI [of _ "flushed c segs"]) (simp add: flushed_def keeps_def segs_def s_def)
qed

section \<open>Ending\<close>

lemma end_input_again:
  assumes "bs_inv s" "bs_eof s"
  shows "ByteStream_end_input s = Inr s"
proof -
  have "bs_contents s = []" "bs_input_ended s" using assms unfolding bs_inv_def by blast+
  then show ?thesis using assms by (cases s) (simp add: ByteStream_end_input_def Let_def)
qed

lemma streams_again: "set_inbound c (inbound_stream c) = c" "set_outbound c (outbound_stream c) = c"
  by (simp_all add: set_inbound_def set_outbound_def inbound_stream_def outbound_stream_def TCPReceiver_stream_out_def)

lemma end_cleanly_ok:
  assumes b: "conn_base S P isn c" and fin: "cn_fin_acked c" "bs_eof (inbound_stream c)"
  shows "end_cleanly c = Inr (if cn_linger_after_streams_finish c then c\<lparr>cn_linger_begin := True\<rparr> else c\<lparr>cn_active := False\<rparr>)"
proof -
  have inv: "sn_inv S (cn_sender c)" "rc_inv P isn (cn_receiver c)" "sn_sent_all (cn_sender c)" using b fin unfolding conn_base_def by blast+
  have "bs_inv (outbound_stream c)" "bs_eof (outbound_stream c)"
    using inv(1,3) unfolding sn_inv_def written_def output_is_def outbound_stream_def by blast+
  moreover have "bs_inv (inbound_stream c)" using rc_inv_output(1) [OF inv(2)] unfolding output_is_def inbound_stream_def by blast
  ultimately show ?thesis using fin(2) by (simp add: end_cleanly_def end_input_again streams_again)
qed

lemma end_stage:
  assumes w: "working S P isn c" "sn_segments_out (cn_sender c) = []" "rc_received_syn (cn_receiver c) \<longrightarrow> sn_sent_syn (cn_sender c)"
    and fin: "cn_fin_acked c" "bs_eof (inbound_stream c)"
  shows "\<exists>c'. end_cleanly c = Inr c' \<and> conn_inv S P isn c' \<and> keeps c c'"
proof -
  have b: "conn_base S P isn c" using w(1) unfolding working_def by blast
  show ?thesis
  proof (cases "cn_linger_after_streams_finish c")
    case True
    have "conn_base S P isn (c\<lparr>cn_linger_begin := True\<rparr>)"
      using b fin unfolding conn_base_def out_seg_def inbound_stream_def by simp
    then have "conn_inv S P isn (c\<lparr>cn_linger_begin := True\<rparr>)" using w unfolding conn_inv_def working_def by simp
    then show ?thesis using end_cleanly_ok [OF b fin] True by simp
  next
    case False
    have "conn_inv S P isn (c\<lparr>cn_active := False\<rparr>)"
      using b w(1) fin unfolding conn_inv_def finished_def working_def by (simp add: inbound_stream_def)
    then show ?thesis using end_cleanly_ok [OF b fin] False by simp
  qed
qed

lemma try_stage:
  assumes "working S P isn c" "sn_segments_out (cn_sender c) = []" "rc_received_syn (cn_receiver c) \<longrightarrow> sn_sent_syn (cn_sender c)"
  shows "\<exists>c'. try_to_end_cleanly c = Inr c' \<and> conn_inv S P isn c' \<and> keeps c c'"
proof (cases "satisfy_prereq_123 c")
  case True
  then have "cn_fin_acked c" "bs_eof (inbound_stream c)" unfolding satisfy_prereq_123_def satisfy_prereq_1_def satisfy_prereq_3_def by blast+
  from end_stage [OF assms this] True show ?thesis by (simp add: try_to_end_cleanly_def)
next
  case False
  moreover have "conn_inv S P isn c" using assms unfolding conn_inv_def working_def by simp
  ultimately show ?thesis by (simp add: try_to_end_cleanly_def)
qed

lemma set_error_fields [simp]:
  "bs_error (ByteStream_set_error out)" "bs_eof (ByteStream_set_error out) = bs_eof out" "bs_input_ended (ByteStream_set_error out) = bs_input_ended out"
  "bs_bytes_read (ByteStream_set_error out) = bs_bytes_read out" "bs_bytes_written (ByteStream_set_error out) = bs_bytes_written out"
  "bs_buf (ByteStream_set_error out) = bs_buf out"
  by (simp_all add: ByteStream_set_error_def)

lemma output_is_error: "output_is S n out \<Longrightarrow> output_is S n (ByteStream_set_error out)"
  using set_error_ok [of out] by (simp add: output_is_def)

lemma reset_stage:
  assumes b: "conn_base S P isn c"
  shows "conn_inv S P isn (end_uncleanly c) \<and> keeps c (end_uncleanly c) \<and> reset (end_uncleanly c) \<and> \<not> cn_active (end_uncleanly c)"
proof -
  define s where "s = (cn_sender c)\<lparr>sn_stream := ByteStream_set_error (outbound_stream c)\<rparr>"
  define re where "re = (rc_reassembler (cn_receiver c))\<lparr>sr_output := ByteStream_set_error (inbound_stream c)\<rparr>"
  define r where "r = (cn_receiver c)\<lparr>rc_reassembler := re\<rparr>"
  have inv: "sn_inv S (cn_sender c)" "rc_inv P isn (cn_receiver c)" using b unfolding conn_base_def by blast+
  have "written S (ByteStream_set_error (outbound_stream c))"
    using inv(1) output_is_error unfolding sn_inv_def written_def outbound_stream_def by simp
  then have "sn_inv S s" unfolding s_def using inv(1) by (intro sn_inv_stream) (simp_all add: outbound_stream_def)
  then have 1: "conn_base S P isn (c\<lparr>cn_sender := s\<rparr>)"
    using b by (intro conn_base_sender) (auto simp: s_def conn_base_def)
  have "sr_inv P re" unfolding re_def using inv(2) output_is_error [of P]
    unfolding rc_inv_def sr_inv_def sr_pre_def sr_base_def inbound_stream_def TCPReceiver_stream_out_def by simp
  then have "rc_inv P isn r" using inv(2) unfolding rc_inv_def r_def by (simp add: re_def)
  moreover have ackno: "get_abs_ackno r = get_abs_ackno (cn_receiver c)"
    by (simp add: r_def re_def get_abs_ackno_def TCPReceiver_stream_out_def inbound_stream_def)
  ultimately have 2: "conn_base S P isn (c\<lparr>cn_sender := s, cn_receiver := r\<rparr>)"
    by (intro conn_base_receiver [OF 1]) (simp_all add: r_def re_def inbound_stream_def TCPReceiver_stream_out_def)
  have "end_uncleanly c = c\<lparr>cn_sender := s, cn_receiver := r, cn_linger_begin := False, cn_linger_after_streams_finish := False, cn_active := False\<rparr>"
    by (simp add: end_uncleanly_def set_inbound_def set_outbound_def Let_def inbound_stream_def outbound_stream_def s_def r_def re_def)
  then show ?thesis using 2 ackno
    by (simp add: conn_inv_def conn_base_def out_seg_def reset_def keeps_def inbound_stream_def outbound_stream_def TCPReceiver_stream_out_def
        s_def r_def re_def)
qed

lemma send_rst_ok:
  assumes b: "conn_base S P isn c" and syn: "rc_received_syn (cn_receiver c) \<longrightarrow> sn_sent_syn (cn_sender c)"
  shows "\<exists>c'. send_rst c = Inr c' \<and> conn_base S P isn c' \<and> keeps c c'"
proof (cases "rc_received_syn (cn_receiver c)")
  case False
  then show ?thesis using b by (simp add: send_rst_def TCPReceiver_ackno_def)
next
  case True
  have inv: "sn_inv S (cn_sender c)" "rc_inv P isn (cn_receiver c)" using b unfolding conn_base_def by blast+
  let ?h = "TCPHeader_default\<lparr>th_rst := True, th_seqno := TCPSender_next_seqno (cn_sender c), th_ack := True,
    th_ackno := wrap (get_abs_ackno (cn_receiver c)) (rc_isn (cn_receiver c)), th_win := conn_window c\<rparr>"
  let ?seg = "TCPSegment_default\<lparr>sg_header := ?h\<rparr>"
  have "sn_next_seqno (cn_sender c) \<le> length S + 2" "rc_isn (cn_receiver c) = isn"
    using inv True unfolding sn_inv_def flight_def rc_inv_def by auto
  moreover from this(1) have "seg_at S (sn_isn (cn_sender c)) (sn_next_seqno (cn_sender c)) ?seg"
    by (simp add: seg_at_def bare_def TCPSegment_default_def TCPHeader_default_def Buffer_default_def Buffer_str_def TCPSender_next_seqno_def)
  ultimately have "out_seg S isn c ?seg" using True syn unfolding out_seg_def by auto
  then have "conn_base S P isn (c\<lparr>cn_segments_out := cn_segments_out c @ [?seg]\<rparr>)"
    using b unfolding conn_base_def out_seg_def inbound_stream_def by simp
  then show ?thesis using True by (simp add: send_rst_def TCPReceiver_ackno_def set_win_ok [OF inv(2)] keeps_def)
qed

section \<open>Events\<close>

lemma conn_inv_active:
  assumes "conn_inv S P isn c" "cn_active c"
  shows "working S P isn c" "sn_segments_out (cn_sender c) = []" "rc_received_syn (cn_receiver c) \<longrightarrow> sn_sent_syn (cn_sender c)"
    "cn_sent_syn c \<longleftrightarrow> sn_sent_syn (cn_sender c)" "conn_base S P isn c" "sn_inv S (cn_sender c)"
  using assms unfolding conn_inv_def working_def conn_base_def by auto

lemma conn_inv_base: "conn_inv S P isn c \<Longrightarrow> conn_base S P isn c"
  unfolding conn_inv_def working_def by (auto split: if_splits)

lemma send_and_end:
  assumes "working S P isn c" "rc_received_syn (cn_receiver c) \<longrightarrow> sn_sent_syn (cn_sender c)"
  shows "yields (and_then (send_all c) try_to_end_cleanly) (\<lambda>c'. conn_inv S P isn c' \<and> keeps c c')"
proof -
  obtain c1 where c1: "send_all c = Inr c1" "working S P isn c1" "sn_segments_out (cn_sender c1) = []" "keeps c c1"
    "rc_received_syn (cn_receiver c1) \<longrightarrow> sn_sent_syn (cn_sender c1)"
    using send_stage [OF assms(1)] assms(2) by auto
  from try_stage [OF c1(2,3,5)] c1(1,4) keeps_trans [OF c1(4)] show ?thesis by (auto simp: yields_def)
qed

lemma fill_and_send_ok:
  assumes "working S P isn c"
  shows "yields (fill_and_send c) (\<lambda>c'. conn_inv S P isn c' \<and> keeps c c')"
proof -
  obtain s' where s': "fill_window (cn_sender c) = Inr s'" "working S P isn (c\<lparr>cn_sender := s'\<rparr>)" "sn_sent_syn s'" "keeps c (c\<lparr>cn_sender := s'\<rparr>)"
    using fill_stage [OF assms] by blast
  from send_and_end [OF s'(2)] s'(3) show ?thesis
    unfolding fill_and_send_def s'(1) and_then.simps by (auto elim!: yields_mono intro: keeps_trans [OF s'(4)])
qed

lemma linger_stage:
  assumes w: "working S P isn c" "sn_segments_out (cn_sender c) = []" "rc_received_syn (cn_receiver c) \<longrightarrow> sn_sent_syn (cn_sender c)"
  shows "yields (if cn_linger_after_streams_finish c \<and> cn_linger_begin c then if b then end_cleanly (c\<lparr>cn_linger_after_streams_finish := False\<rparr>) else Inr c
    else try_to_end_cleanly c) (\<lambda>c'. conn_inv S P isn c' \<and> keeps c c')"
proof (cases "cn_linger_after_streams_finish c \<and> cn_linger_begin c \<and> b")
  case True
  then have "cn_fin_acked c" "bs_eof (inbound_stream c)" using w(1) unfolding working_def conn_base_def by blast+
  then have "\<exists>c'. end_cleanly (c\<lparr>cn_linger_after_streams_finish := False\<rparr>) = Inr c' \<and> conn_inv S P isn c' \<and>
      keeps (c\<lparr>cn_linger_after_streams_finish := False\<rparr>) c'"
    using w by (intro end_stage) (simp_all add: inbound_stream_def)
  then show ?thesis using True by (auto simp: yields_def)
next
  case False
  have "conn_inv S P isn c" using w unfolding conn_inv_def working_def by simp
  with False try_stage [OF w] show ?thesis by (auto simp: yields_def)
qed

lemma outbound_working:
  assumes w: "working S P isn c" and "sn_inv S ((cn_sender c)\<lparr>sn_stream := out\<rparr>)" "bs_error out = bs_error (outbound_stream c)"
  shows "working S P isn (set_outbound c out)"
proof -
  have b: "conn_base S P isn c" using w unfolding working_def by blast
  then have "conn_base S P isn (set_outbound c out)"
    unfolding set_outbound_def using assms(2) by (intro conn_base_sender) (auto simp: conn_base_def)
  then show ?thesis using w assms(3) unfolding working_def by (simp add: set_outbound_def fault_free_def inbound_stream_def outbound_stream_def)
qed

lemma outbound_keeps: "keeps c (set_outbound c out)"
  by (simp add: keeps_def set_outbound_def)

lemma tick_event:
  assumes inv: "conn_inv S P isn c"
  shows "yields (TCPConnection_tick c ms) (\<lambda>c'. conn_inv S P isn c' \<and> keeps c c')"
proof (cases "cn_active c")
  case False
  with inv show ?thesis by (simp add: TCPConnection_tick_def)
next
  case True
  define t where "t = add64 (cn_time_since_last_segment_received c) ms"
  define s where "s = cn_sender c"
  note a = conn_inv_active [OF inv True, folded s_def]
  have bo: "backoff s" using a(1) unfolding working_def s_def by blast
  obtain s' where op: "TCPSender_tick s ms = Inr s'" and s': "sn_inv S s'" and cases: "s' = s \<or> s' = s\<lparr>sn_countdown := sn_countdown s - ms\<rparr> \<or>
      sn_timing s \<and> sn_segments_out s' \<noteq> [] \<and> sn_isn s' = sn_isn s \<and> sn_sent_syn s' = sn_sent_syn s \<and> sn_sent_all s' = sn_sent_all s \<and>
      sn_outstanding_segs s' = sn_outstanding_segs s \<and> sn_stream s' = sn_stream s"
    using tick_ok [OF a(6) disjI1 [OF backoff_rto [OF bo]], of ms] by (elim exE conjE) (rule that, assumption+, simp split: if_splits)
  have f: "sn_isn s' = sn_isn s" "sn_sent_syn s' = sn_sent_syn s" "sn_sent_all s' = sn_sent_all s" "sn_outstanding_segs s' = sn_outstanding_segs s"
    "sn_stream s' = sn_stream s" "sn_segments_out s' = [] \<or> sn_sent_syn s"
    using cases a(2) timing_sent_syn [OF a(6)] by auto
  define c1 where "c1 = c\<lparr>cn_time_since_last_segment_received := t, cn_sender := s'\<rparr>"
  have "cn_fin_acked c \<longrightarrow> sn_outstanding_segs s = []" using a(5) unfolding conn_base_def s_def by blast
  then have base: "conn_base S P isn c1" unfolding c1_def
    by (intro conn_base_sender) (use a(5) s' f in \<open>simp_all add: s_def\<close>)
  have k1: "keeps c c1" using f unfolding keeps_def c1_def s_def by simp
  have syn: "rc_received_syn (cn_receiver c1) \<longrightarrow> sn_sent_syn (cn_sender c1)" using a(3) f(2) unfolding c1_def by simp
  have op': "TCPSender_tick (cn_sender (c\<lparr>cn_time_since_last_segment_received := t\<rparr>)) ms = Inr s'" using op unfolding s_def by simp
  show ?thesis
  proof (cases "sn_consecutive_rx s' > 8")
    case True
    obtain c2 where c2: "send_rst c1 = Inr c2" "conn_base S P isn c2" "keeps c1 c2" using send_rst_ok [OF base syn] by blast
    then have "TCPConnection_tick c ms = Inr (end_uncleanly c2)" using \<open>cn_active c\<close> True op'
      unfolding TCPConnection_tick_def t_def [symmetric] Let_def consecutive_retransmissions_def MAX_RETX_ATTEMPTS_def c1_def by simp
    then show ?thesis using reset_stage [OF c2(2)] keeps_trans [OF keeps_trans [OF k1 c2(3)]] by simp
  next
    case False
    have "backoff s'" using backoff_tick [OF bo a(6) op] False by simp
    then have w1: "working S P isn c1" using base a(1,2,4) f unfolding working_def c1_def s_def
      by (auto simp: fault_free_def inbound_stream_def outbound_stream_def)
    obtain c2 where c2: "send_all c1 = Inr c2" "working S P isn c2" "sn_segments_out (cn_sender c2) = []" "keeps c1 c2"
      "rc_received_syn (cn_receiver c2) \<longrightarrow> sn_sent_syn (cn_sender c2)"
      using send_stage [OF w1] syn by auto
    have eq: "TCPConnection_tick c ms = (if cn_linger_after_streams_finish c2 \<and> cn_linger_begin c2
      then if cn_time_since_last_segment_received c2 \<ge> 10 * unat (tc_rt_timeout (cn_cfg c2))
        then end_cleanly (c2\<lparr>cn_linger_after_streams_finish := False\<rparr>) else Inr c2 else try_to_end_cleanly c2)"
      using \<open>cn_active c\<close> False op' c2(1)
      unfolding TCPConnection_tick_def t_def [symmetric] Let_def consecutive_retransmissions_def MAX_RETX_ATTEMPTS_def c1_def by simp
    show ?thesis unfolding eq
      by (rule yields_mono [OF linger_stage [OF c2(2,3,5)]]) (use keeps_trans [OF keeps_trans [OF k1 c2(4)]] in blast)
  qed
qed

text \<open>
  What the environment owes an endpoint: segments are those of the peer's stream, an acknowledgment comes after our SYN, and, because of
  the access to an empty optional, an endpoint without a configured initial sequence number that waits for the answer to
  its SYN gets a segment with a SYN.
\<close>

definition seg_admissible :: "bytes \<Rightarrow> WrappingInt32 \<Rightarrow> TCPConnection \<Rightarrow> TCPSegment \<Rightarrow> bool" where
  "seg_admissible P isn c seg \<longleftrightarrow> (\<exists>k. seg_at P isn k seg \<and> near_checkpoint (cn_receiver c) k) \<and>
     (th_ack (sg_header seg) \<longrightarrow> sn_sent_syn (cn_sender c)) \<and>
     (tc_fixed_isn (cn_cfg c) = None \<and> cn_sent_syn c \<and> \<not> rc_received_syn (cn_receiver c) \<longrightarrow> th_syn (sg_header seg))"

lemma unsynchronized_ok:
  assumes "conn_inv S P isn c" "tc_fixed_isn (cn_cfg c) = None \<longrightarrow> \<not> cn_sent_syn c"
  shows "yields (unsynchronized_segment c header) (\<lambda>c'. conn_inv S P isn c' \<and> keeps c c')"
  using assms reset_stage [OF conn_inv_base [OF assms(1)]] by (auto simp: unsynchronized_segment_def split: option.split)

lemma segment_length_syn: "th_syn (sg_header seg) \<Longrightarrow> length (seg_bytes seg) + 2 < two64 \<Longrightarrow> TCPSegment_length_in_sequence_space seg \<noteq> 0"
  by (simp add: TCPSegment_length_in_sequence_space_def)

lemma respond_stage:
  assumes w: "working S P isn c" and len: "keep_alive c seg \<longrightarrow> cn_sent_syn c" and ack: "th_ack header \<longrightarrow> sn_sent_syn (cn_sender c)"
  defines "c1 \<equiv> if keep_alive c seg then c\<lparr>cn_sender := send_empty_segment (cn_sender c)\<rparr> else c"
  shows "yields (and_then (take_ack c1 header) (\<lambda>c. and_then (fill_window (cn_sender c)) (\<lambda>sender.
      and_then (send_all (c\<lparr>cn_sender := if sn_segments_out sender = [] \<and> m \<noteq> 0 then send_empty_segment sender else sender\<rparr>)) try_to_end_cleanly)))
    (\<lambda>c'. conn_inv S P isn c' \<and> keeps c c')"
proof -
  have 1: "working S P isn c1" "keeps c c1" "th_ack header \<longrightarrow> sn_sent_syn (cn_sender c1)"
    using w len ack empty_stage [OF w] unfolding c1_def by (auto simp: send_empty_segment_def Let_def)
  obtain c2 where c2: "take_ack c1 header = Inr c2" "working S P isn c2" "keeps c1 c2" using ack_stage [OF 1(1,3)] by blast
  obtain s where s: "fill_window (cn_sender c2) = Inr s" "working S P isn (c2\<lparr>cn_sender := s\<rparr>)" "sn_sent_syn s" "keeps c2 (c2\<lparr>cn_sender := s\<rparr>)"
    using fill_stage [OF c2(2)] by blast
  define s' where "s' = (if sn_segments_out s = [] \<and> m \<noteq> 0 then send_empty_segment s else s)"
  have "working S P isn (c2\<lparr>cn_sender := s'\<rparr>) \<and> keeps (c2\<lparr>cn_sender := s\<rparr>) (c2\<lparr>cn_sender := s'\<rparr>)"
  proof (cases "sn_segments_out s = [] \<and> m \<noteq> 0")
    case True
    then have "cn_sent_syn (c2\<lparr>cn_sender := s\<rparr>)" using s(2,3) unfolding working_def by simp
    from empty_stage [OF s(2) this] True show ?thesis by (simp add: s'_def)
  qed (use s(2) in \<open>auto simp: s'_def\<close>)
  moreover have "sn_sent_syn s'" using s(3) by (simp add: s'_def send_empty_segment_def Let_def)
  ultimately have "yields (and_then (send_all (c2\<lparr>cn_sender := s'\<rparr>)) try_to_end_cleanly)
      (\<lambda>c'. conn_inv S P isn c' \<and> keeps (c2\<lparr>cn_sender := s'\<rparr>) c')" and k: "keeps (c2\<lparr>cn_sender := s\<rparr>) (c2\<lparr>cn_sender := s'\<rparr>)"
    by (auto intro: send_and_end)
  moreover note keeps_trans [OF keeps_trans [OF keeps_trans [OF keeps_trans [OF 1(2) c2(3)] s(4)] k]]
  ultimately show ?thesis unfolding c2(1) and_then.simps s(1) s'_def [symmetric] by (auto elim!: yields_mono)
qed

lemma segment_event:
  assumes inv: "conn_inv S P isn c" and ok: "cn_active c \<longrightarrow> seg_admissible P isn c seg"
  shows "yields (TCPConnection_segment_received c seg) (\<lambda>c'. conn_inv S P isn c' \<and> keeps c c')"
proof -
  consider (dead) "\<not> cn_active c"
    | (early) "cn_active c" "\<not> rc_received_syn (cn_receiver c)" "\<not> th_syn (sg_header seg)"
    | (rst) "cn_active c" "rc_received_syn (cn_receiver c) \<or> th_syn (sg_header seg)" "th_rst (sg_header seg)"
    | (live) "cn_active c" "rc_received_syn (cn_receiver c) \<or> th_syn (sg_header seg)" "\<not> th_rst (sg_header seg)" by blast
  then show ?thesis
  proof cases
    case dead
    with inv show ?thesis by (simp add: TCPConnection_segment_received_def)
  next
    case early
    then have "TCPConnection_segment_received c seg = unsynchronized_segment c (sg_header seg)"
      by (simp add: TCPConnection_segment_received_def TCPReceiver_ackno_def)
    then show ?thesis using unsynchronized_ok [OF inv] ok early unfolding seg_admissible_def by auto
  next
    case rst
    then have "TCPConnection_segment_received c seg = Inr (end_uncleanly (c\<lparr>cn_time_since_last_segment_received := 0\<rparr>))"
      by (auto simp: TCPConnection_segment_received_def TCPReceiver_ackno_def)
    then show ?thesis using reset_stage [of S P isn "c\<lparr>cn_time_since_last_segment_received := 0\<rparr>"] conn_inv_base [OF inv] by simp
  next
    case live
    define c0 where "c0 = c\<lparr>cn_time_since_last_segment_received := 0\<rparr>"
    note a = conn_inv_active [OF inv live(1)]
    obtain k where k: "seg_at P isn k seg" "near_checkpoint (cn_receiver c) k" and ack: "th_ack (sg_header seg) \<longrightarrow> sn_sent_syn (cn_sender c)"
      using ok live(1) unfolding seg_admissible_def by blast
    have "working S P isn c0" using a(1) unfolding c0_def by simp
    from receive_stage [OF this k(1)] k(2) live(2) obtain r where r: "segment_received (cn_receiver c0) seg = Inr r"
      "working S P isn (c0\<lparr>cn_receiver := r\<rparr>)" "keeps c0 (c0\<lparr>cn_receiver := r\<rparr>)" unfolding c0_def by auto
    define c2 where "c2 = check_not_need_to_linger (c0\<lparr>cn_receiver := r\<rparr>)"
    have c2: "working S P isn c2" "keeps c c2" "cn_sent_syn c2 = cn_sent_syn c" "sn_sent_syn (cn_sender c2) = sn_sent_syn (cn_sender c)"
      using r(2,3) unfolding c2_def check_not_need_to_linger_def c0_def by auto
    have "length P + 2 < two63" using a(5) unfolding conn_base_def rc_inv_def by blast
    then have "length (seg_bytes seg) + 2 < two64" using k(1) unfolding seg_at_def bare_def genuine_def by (auto split: if_splits)
    then have "keep_alive c2 seg \<longrightarrow> cn_sent_syn c2"
      using segment_length_syn live(2) a(3,4) c2(3) unfolding keep_alive_def by blast
    from respond_stage [OF c2(1) this, of "sg_header seg" "TCPSegment_length_in_sequence_space seg"] ack c2(4)
    have "yields (TCPConnection_segment_received c seg) (\<lambda>c'. conn_inv S P isn c' \<and> keeps c2 c')"
      using live r(1) unfolding TCPConnection_segment_received_def Let_def c2_def c0_def by (auto simp: TCPReceiver_ackno_def)
    then show ?thesis using keeps_trans [OF c2(2)] by (auto elim!: yields_mono)
  qed
qed

lemma write_event:
  assumes inv: "conn_inv S P isn c" "cn_active c" and ok: "sender_admissible S (cn_sender c) (WriteStream d)"
  shows "yields (TCPConnection_write c d) (\<lambda>(n, c'). conn_inv S P isn c' \<and> keeps c c')"
proof -
  note a = conn_inv_active [OF inv]
  obtain n out where out: "ByteStream_write (outbound_stream c) d = Inr (n, out)" "sn_inv S ((cn_sender c)\<lparr>sn_stream := out\<rparr>)"
    "bs_error out = bs_error (outbound_stream c)"
    using write_stream_ok [OF a(6) ok] unfolding outbound_stream_def by blast
  from fill_and_send_ok [OF outbound_working [OF a(1) out(2,3)]] outbound_keeps [of c out] keeps_trans
  have "yields (fill_and_send (set_outbound c out)) (\<lambda>c'. conn_inv S P isn c' \<and> keeps c c')" by (auto elim!: yields_mono)
  then show ?thesis using inv(2) out(1) by (auto simp: TCPConnection_write_def yields_def)
qed

lemma end_event:
  assumes inv: "conn_inv S P isn c" "cn_active c" and ok: "sender_admissible S (cn_sender c) EndStream"
  shows "yields (end_input_stream c) (\<lambda>c'. conn_inv S P isn c' \<and> keeps c c')"
proof -
  note a = conn_inv_active [OF inv]
  obtain out where out: "ByteStream_end_input (outbound_stream c) = Inr out" "sn_inv S ((cn_sender c)\<lparr>sn_stream := out\<rparr>)"
    "bs_error out = bs_error (outbound_stream c)"
    using end_stream_ok [OF a(6)] ok unfolding outbound_stream_def by auto
  from fill_and_send_ok [OF outbound_working [OF a(1) out(2,3)]] outbound_keeps [of c out] keeps_trans
  have "yields (fill_and_send (set_outbound c out)) (\<lambda>c'. conn_inv S P isn c' \<and> keeps c c')" by (auto elim!: yields_mono)
  then show ?thesis using inv(2) out(1) by (simp add: end_input_stream_def)
qed

lemma connect_event:
  assumes inv: "conn_inv S P isn c" "cn_active c" "\<not> cn_sent_syn c" "cn_segments_out c = []"
  shows "yields (TCPConnection_connect c) (\<lambda>c'. conn_inv S P isn c' \<and> keeps c c' \<and> cn_sent_syn c' \<and> \<not> rc_received_syn (cn_receiver c') \<and> cn_active c')"
proof -
  note a = conn_inv_active [OF inv(1,2)]
  have un: "\<not> sn_sent_syn (cn_sender c)" "\<not> rc_received_syn (cn_receiver c)" using a(3,4) inv(3) by blast+
  obtain s seg where s: "fill_window (cn_sender c) = Inr s" "sn_inv S s" "sn_sent_syn s" "extends (cn_sender c) [seg] s" "sn_next_seqno s = 1"
    "th_syn (sg_header seg)"
    using connect_ok [OF a(6) un(1)] by blast
  have q: "sn_segments_out s = [seg]" using s(4) a(2) unfolding extends_def by simp
  have "\<not> sn_sent_all s" using s(2,3,5) unfolding sn_inv_def by (auto split: if_splits)
  then have fin: "\<not> th_fin (sg_header seg)" using s(2) q unfolding sn_inv_def fin_last_def tame_def by auto
  let ?c = "c\<lparr>cn_sender := s\<rparr>"
  have w: "working S P isn ?c" "keeps c ?c" using fill_stage [OF a(1)] s(1) by auto
  have rc: "rc_inv P isn (cn_receiver ?c)" using w(1) unfolding working_def conn_base_def by blast
  have st: "send_front ?c seg = Inr (?c\<lparr>cn_sender := s\<lparr>sn_segments_out := []\<rparr>, cn_segments_out := cn_segments_out c @ [stamp ?c seg],
      cn_sent_syn := True, cn_sent_fin := cn_sent_fin c, cn_abs_fin_seqno := cn_abs_fin_seqno c\<rparr>)"
    using send_front_ok [OF rc, of seg "[]"] q s(6) fin by simp
  have win: "set_win d h = Inr (h\<lparr>th_win := conn_window ?c\<rparr>)" if "cn_receiver d = cn_receiver c" for d h
    using set_win_ok [of P isn d] rc that by (simp add: conn_window_def)
  have "with_ackno ?c h = h" for h using un(2) by (simp add: with_ackno_def TCPReceiver_ackno_def)
  then have "TCPConnection_connect c = send_all ?c"
    using inv(2,4) a(2) s(1) q st by (simp add: TCPConnection_connect_def win send_all_def stamp_def)
  moreover obtain c' where c': "send_all ?c = Inr c'" "working S P isn c'" "sn_segments_out (cn_sender c') = []" "keeps ?c c'"
    "sn_sent_syn (cn_sender c')" "cn_receiver c' = cn_receiver c"
    using send_stage [OF w(1)] s(3) by auto
  moreover have "conn_inv S P isn c'" using c'(2,3,5) unfolding conn_inv_def working_def by simp
  moreover have "cn_sent_syn c'" "cn_active c'" using c'(2,3,5) unfolding working_def by blast+
  ultimately show ?thesis using keeps_trans [OF w(2)] un(2) by simp
qed

section \<open>Histories\<close>

text \<open>
  The segments that arrive, the calls of the application, time, the collection of the outgoing segments and the
  destruction of the connection. An application may also look at some of the bytes that wait and then take no more than it could use. The output of an event is the segments collected and the bytes read.
\<close>

datatype conn_event =
    ArriveSegment TCPSegment
  | WriteOut bytes
  | EndOut
  | ReadIn size_t
  | DrainIn size_t size_t
  | TickConn size_t
  | ConnectOut
  | CollectOut
  | Destroy

fun conn_step :: "TCPConnection \<Rightarrow> conn_event \<Rightarrow> ((TCPSegment list \<times> bytes) \<times> TCPConnection) result" where
  "conn_step c (ArriveSegment seg) = and_then (TCPConnection_segment_received c seg) (\<lambda>c. Inr (([], []), c))"
| "conn_step c (WriteOut d) = and_then (TCPConnection_write c d) (\<lambda>(_, c). Inr (([], []), c))"
| "conn_step c EndOut = and_then (end_input_stream c) (\<lambda>c. Inr (([], []), c))"
| "conn_step c (ReadIn n) = and_then (ByteStream_read (inbound_stream c) n) (\<lambda>(d, out). Inr (([], d), set_inbound c out))"
| "conn_step c (DrainIn len taken) =
     and_then (ByteStream_peek_output (inbound_stream c) len) (\<lambda>d.
     and_then (ByteStream_pop_output (inbound_stream c) taken) (\<lambda>out. Inr (([], take taken d), set_inbound c out)))"
| "conn_step c (TickConn ms) = and_then (TCPConnection_tick c ms) (\<lambda>c. Inr (([], []), c))"
| "conn_step c ConnectOut = and_then (TCPConnection_connect c) (\<lambda>c. Inr (([], []), c))"
| "conn_step c CollectOut = Inr ((cn_segments_out c, []), c\<lparr>cn_segments_out := []\<rparr>)"
| "conn_step c Destroy = and_then (TCPConnection_destroy c) (\<lambda>c. Inr (([], []), c))"

fun conn_admissible :: "bytes \<Rightarrow> bytes \<Rightarrow> WrappingInt32 \<Rightarrow> TCPConnection \<Rightarrow> conn_event \<Rightarrow> bool" where
  "conn_admissible S P isn c (ArriveSegment seg) \<longleftrightarrow> (cn_active c \<longrightarrow> seg_admissible P isn c seg)"
| "conn_admissible S P isn c (WriteOut d) \<longleftrightarrow> cn_active c \<and> sender_admissible S (cn_sender c) (WriteStream d)"
| "conn_admissible S P isn c EndOut \<longleftrightarrow> cn_active c \<and> sender_admissible S (cn_sender c) EndStream"
| "conn_admissible S P isn c (ReadIn n) \<longleftrightarrow> n \<le> length (rc_unread (cn_receiver c))"
| "conn_admissible S P isn c (DrainIn len taken) \<longleftrightarrow> taken \<le> len \<and> len \<le> length (rc_unread (cn_receiver c))"
| "conn_admissible S P isn c (TickConn ms) \<longleftrightarrow> True"
| "conn_admissible S P isn c ConnectOut \<longleftrightarrow> cn_active c \<and> \<not> cn_sent_syn c \<and> cn_segments_out c = []"
| "conn_admissible S P isn c CollectOut \<longleftrightarrow> True"
| "conn_admissible S P isn c Destroy \<longleftrightarrow> True"

text \<open>What an event may have done: the invariant, what was delivered, and what was emitted.\<close>

definition event_ok :: "bytes \<Rightarrow> bytes \<Rightarrow> WrappingInt32 \<Rightarrow> TCPConnection \<Rightarrow> (TCPSegment list \<times> bytes) \<times> TCPConnection \<Rightarrow> bool" where
  "event_ok S P isn c x \<longleftrightarrow> (case x of ((segs, d), c') \<Rightarrow> conn_inv S P isn c' \<and> sn_isn (cn_sender c') = sn_isn (cn_sender c) \<and> cn_cfg c' = cn_cfg c \<and>
     take (rc_read (cn_receiver c')) P = take (rc_read (cn_receiver c)) P @ d \<and> (sn_sent_syn (cn_sender c) \<longrightarrow> sn_sent_syn (cn_sender c')) \<and>
     get_abs_ackno (cn_receiver c) \<le> get_abs_ackno (cn_receiver c') \<and> (\<forall>seg\<in>set segs. out_seg S isn c seg))"

lemma event_ok_quiet: "conn_inv S P isn c' \<and> keeps c c' \<Longrightarrow> event_ok S P isn c (([], []), c')"
  by (simp add: event_ok_def keeps_def)

lemma read_event:
  assumes inv: "conn_inv S P isn c" and n: "n \<le> length (rc_unread (cn_receiver c))"
  shows "yields (conn_step c (ReadIn n)) (event_ok S P isn c)"
proof -
  let ?r = "cn_receiver c"
  have b: "conn_base S P isn c" by (rule conn_inv_base [OF inv])
  then have rc: "rc_inv P isn ?r" unfolding conn_base_def by blast
  obtain d r where r: "receiver_step ?r (ReadStream n) = Inr (d, r)" "rc_inv P isn r" "take (rc_read r) P = take (rc_read ?r) P @ d"
    "rc_next r = rc_next ?r" "rc_received_syn r = rc_received_syn ?r" "rc_received_fin r = rc_received_fin ?r"
    "bs_error (TCPReceiver_stream_out r) = bs_error (TCPReceiver_stream_out ?r)"
    "bs_input_ended (TCPReceiver_stream_out r) = bs_input_ended (TCPReceiver_stream_out ?r)"
    using receiver_read_ok [OF rc n] by blast
  then have st: "conn_step c (ReadIn n) = Inr (([], d), c\<lparr>cn_receiver := r\<rparr>)"
    by (auto simp: and_then_Inr_iff inbound_stream_def set_inbound_def)
  have "rc_read ?r \<le> rc_read r" by (rule take_read_le [OF rc r(2,3)])
  then have eof: "bs_eof (inbound_stream c) \<longrightarrow> bs_eof (TCPReceiver_stream_out r)"
    using r(4,8) rc_inv_output(1,3,7) [OF rc] rc_inv_output(1,3,7) [OF r(2)] unfolding inbound_stream_def output_is_def bs_inv_def by auto
  have ackno: "get_abs_ackno r = get_abs_ackno ?r" unfolding get_abs_ackno_ok [OF rc] get_abs_ackno_ok [OF r(2)] using r(4,6) by simp
  then have b': "conn_base S P isn (c\<lparr>cn_receiver := r\<rparr>)" using b r(2,5) eof by (intro conn_base_receiver) auto
  have "conn_inv S P isn (c\<lparr>cn_receiver := r\<rparr>)"
    using inv b' eof r(5,7) unfolding conn_inv_def working_def finished_def reset_def fault_free_def
    by (auto simp: inbound_stream_def outbound_stream_def)
  then show ?thesis unfolding st using r(3) ackno by (simp add: event_ok_def)
qed

lemma pop_nothing:
  assumes "bs_inv s" "bs_eof s"
  shows "ByteStream_pop_output s 0 = Inr s"
proof -
  have i: "rb_inv (bs_buf s)" "bs_contents s = []" "bs_input_ended s" "bs_bytes_read s = bs_bytes_written s" "bs_bytes_read s < two64"
    using assms unfolding bs_inv_def by auto
  have "RingBuffer_pop_front (bs_buf s) 0 = Inr (bs_buf s)"
    using pop_front_eq [OF i(1), of 0] i(1) by (simp add: rb_popped_def rb_inv_def)
  then show ?thesis using assms i by (cases s) (simp add: ByteStream_pop_output_def Let_def)
qed

lemma drain_is_read:
  assumes "bs_inv (inbound_stream c)" "taken \<le> len" "len \<le> length (bs_contents (inbound_stream c))"
  shows "conn_step c (DrainIn len taken) = conn_step c (ReadIn taken)"
proof (cases "bs_eof (inbound_stream c)")
  case True
  then have "bs_contents (inbound_stream c) = []" using assms(1) unfolding bs_inv_def by blast
  with True assms show ?thesis by (simp add: ByteStream_read_def pop_nothing)
next
  case False
  with assms show ?thesis
    by (cases "ByteStream_pop_output (inbound_stream c) taken") (simp_all add: ByteStream_read_def min_absorb1)
qed

lemma conn_step_ok:
  assumes inv: "conn_inv S P isn c" and ok: "conn_admissible S P isn c e"
  shows "yields (conn_step c e) (event_ok S P isn c)"
proof (cases e)
  case (ArriveSegment seg)
  with segment_event [OF inv, of seg] ok event_ok_quiet show ?thesis by (auto simp: yields_def)
next
  case (WriteOut d)
  with write_event [OF inv, of d] ok event_ok_quiet show ?thesis by (auto simp: yields_def)
next
  case EndOut
  with end_event [OF inv] ok event_ok_quiet show ?thesis by (auto simp: yields_def)
next
  case (ReadIn n)
  with read_event [OF inv, of n] ok show ?thesis by simp
next
  case (DrainIn len taken)
  have "rc_inv P isn (cn_receiver c)" using conn_inv_base [OF inv] unfolding conn_base_def by blast
  then have "bs_inv (inbound_stream c)" using rc_inv_output(1) unfolding output_is_def inbound_stream_def by blast
  with drain_is_read [of c taken len] DrainIn ok read_event [OF inv, of taken] show ?thesis by (simp add: inbound_stream_def)
next
  case (TickConn ms)
  with tick_event [OF inv, of ms] event_ok_quiet show ?thesis by (auto simp: yields_def)
next
  case ConnectOut
  with connect_event [OF inv] ok event_ok_quiet show ?thesis by (auto simp: yields_def)
next
  case CollectOut
  have b: "conn_base S P isn c" by (rule conn_inv_base [OF inv])
  then have "\<forall>seg\<in>set (cn_segments_out c). out_seg S isn c seg" unfolding conn_base_def by blast
  moreover have "conn_inv S P isn (c\<lparr>cn_segments_out := []\<rparr>)"
    using inv unfolding conn_inv_def working_def conn_base_def reset_def finished_def fault_free_def
    by (auto simp: inbound_stream_def outbound_stream_def)
  ultimately show ?thesis using CollectOut by (simp add: event_ok_def)
next
  case Destroy
  show ?thesis
  proof (cases "cn_active c")
    case True
    note a = conn_inv_active [OF inv True]
    obtain c1 where "send_rst c = Inr c1" "conn_base S P isn c1" "keeps c c1" using send_rst_ok [OF a(5,3)] by blast
    with Destroy True reset_stage [OF this(2)] keeps_trans event_ok_quiet show ?thesis by (simp add: TCPConnection_destroy_def)
  next
    case False
    with Destroy inv event_ok_quiet show ?thesis by (simp add: TCPConnection_destroy_def)
  qed
qed

interpretation endpoint_machine: safe_machine conn_step "conn_inv S P isn" "conn_admissible S P isn" for S P isn
proof
  fix c e
  assume "conn_inv S P isn c" "conn_admissible S P isn c e"
  from conn_step_ok [OF this] show "\<exists>out c'. conn_step c e = Inr (out, c') \<and> conn_inv S P isn c'"
    by (auto simp: yields_def event_ok_def)
qed

lemma conn_run_ok:
  assumes "conn_inv S P isn c" "admissible_run conn_step (conn_admissible S P isn) c es" "run conn_step c es = Inr (outs, c')"
  shows "take (rc_read (cn_receiver c')) P = take (rc_read (cn_receiver c)) P @ concat (map snd outs) \<and>
    (\<forall>seg\<in>set (concat (map fst outs)). \<exists>k. seg_at S (sn_isn (cn_sender c)) k seg)"
  using assms
proof (induction es arbitrary: c outs)
  case Nil
  then show ?case by simp
next
  case (Cons e es)
  have "conn_admissible S P isn c e" using Cons.prems(2) by simp
  from conn_step_ok [OF Cons.prems(1) this] obtain segs d c1 where st: "conn_step c e = Inr ((segs, d), c1)" "conn_inv S P isn c1"
    "sn_isn (cn_sender c1) = sn_isn (cn_sender c)" "take (rc_read (cn_receiver c1)) P = take (rc_read (cn_receiver c)) P @ d"
    "\<forall>seg\<in>set segs. \<exists>k. seg_at S (sn_isn (cn_sender c)) k seg"
    by (auto simp: yields_def event_ok_def out_seg_def)
  obtain rest where rest: "run conn_step c1 es = Inr (rest, c')" "outs = (segs, d) # rest"
    using Cons.prems(3) st(1) by (auto simp: and_then_Inr_iff)
  show ?case using Cons.IH [OF st(2) _ rest(1)] Cons.prems(2) st rest(2) by auto
qed

text \<open>A configuration with which a connection can work.\<close>

definition cfg_ok :: "TCPConfig \<Rightarrow> bool" where
  "cfg_ok cfg \<longleftrightarrow> 0 < tc_rt_timeout cfg \<and> unat (tc_rt_timeout cfg) < 32768 \<and> 0 < tc_recv_capacity cfg \<and> tc_recv_capacity cfg < two63 \<and>
     0 < tc_send_capacity cfg \<and> tc_send_capacity cfg < two63"

lemma TCPConfig_default_ok: "cfg_ok TCPConfig_default"
  by (simp add: cfg_ok_def TCPConfig_default_def TIMEOUT_DFLT_def DEFAULT_CAPACITY_def)

lemma TCPConnection_new_inv:
  assumes cfg: "cfg_ok cfg" and "length S + 2 < two63" "length P + 2 < two63"
  shows "conn_inv S P isn (TCPConnection_new random cfg)"
proof -
  let ?s = "TCPSender_new random (tc_send_capacity cfg) (tc_rt_timeout cfg) (tc_fixed_isn cfg)"
  have s: "sn_inv S ?s" and r: "rc_inv P isn (TCPReceiver_new (tc_recv_capacity cfg))"
    using assms unfolding cfg_ok_def by (auto intro: TCPSender_new_inv TCPReceiver_new_inv)
  have "backoff ?s" using cfg by (simp add: backoff_def doublings_def TCPSender_new_def cfg_ok_def)
  moreover have "\<not> bs_error (sn_stream ?s)" "\<not> bs_error (TCPReceiver_stream_out (TCPReceiver_new (tc_recv_capacity cfg)))"
    by (simp_all add: TCPSender_new_def ByteStream_new_def TCPReceiver_stream_out_def TCPReceiver_new_def StreamReassembler_new_def)
  moreover have "\<not> sn_sent_syn ?s" "sn_segments_out ?s = []" by (simp_all add: TCPSender_new_def)
  ultimately show ?thesis using s r
    by (simp add: conn_inv_def working_def conn_base_def fault_free_def inbound_stream_def outbound_stream_def TCPConnection_new_def)
qed

section \<open>What an endpoint that ended has achieved\<close>

lemma finished_facts:
  assumes b: "conn_base S P isn c" and fin: "finished c"
  shows "rc_read (cn_receiver c) = length P" "rc_unread (cn_receiver c) = []" "rc_received_syn (cn_receiver c)"
    "bs_input_ended (inbound_stream c)" "sn_next_seqno (cn_sender c) = length S + 2" "sn_bytes_in_flight (cn_sender c) = 0"
    "bs_eof (outbound_stream c)" "bs_bytes_written (outbound_stream c) = length S" "length S + 2 < two63"
proof -
  have inv: "sn_inv S (cn_sender c)" "rc_inv P isn (cn_receiver c)" "sn_sent_all (cn_sender c)" "sn_outstanding_segs (cn_sender c) = []"
    "bs_eof (inbound_stream c)"
    using b fin unfolding conn_base_def finished_def by blast+
  have i: "sr_eof (rc_reassembler (cn_receiver c))" "rc_next (cn_receiver c) = length P" "rc_read (cn_receiver c) = length P"
    using inv(5) rc_eof_iff [OF inv(2)] unfolding inbound_stream_def by blast+
  then show "rc_read (cn_receiver c) = length P" "rc_unread (cn_receiver c) = []" using rc_inv_output(7) [OF inv(2)] by simp_all
  show "rc_received_syn (cn_receiver c)" using inv(2) i(1) unfolding rc_inv_def by (auto split: if_splits)
  have "bs_inv (inbound_stream c)" using rc_inv_output(1) [OF inv(2)] unfolding output_is_def inbound_stream_def by blast
  then show "bs_input_ended (inbound_stream c)" using inv(5) unfolding bs_inv_def by blast
  have o: "written S (outbound_stream c)" "bs_eof (outbound_stream c)" "flight S (cn_sender c) (sn_next_seqno (cn_sender c))"
    using inv(1,3) unfolding sn_inv_def outbound_stream_def by blast+
  then show "bs_eof (outbound_stream c)" "bs_bytes_written (outbound_stream c) = length S" "length S + 2 < two63"
    using written_eof(3) unfolding written_def flight_def by blast+
  show n: "sn_next_seqno (cn_sender c) = length S + 2"
    using inv(1,3) written_eof(1) [OF o(1,2)] unfolding sn_inv_def outbound_stream_def by (auto split: if_splits)
  have "sn_next_seqno (cn_sender c) - sn_bytes_in_flight (cn_sender c) = sn_next_seqno (cn_sender c)"
    using o(3) inv(4) unfolding flight_def by auto
  then show "sn_bytes_in_flight (cn_sender c) = 0" using n by simp
qed

section \<open>Properties\<close>



text \<open>C32. An endpoint that has ended is in the official state CLOSED, or in the official state RESET if its streams are in error.\<close>

theorem ended_state:
  assumes "conn_inv S P isn c" "\<not> cn_active c"
  shows "TCPConnection_state c = TCPState_of_state (if bs_error (inbound_stream c) then RESET else CLOSED)"
proof (cases "reset c")
  case True
  then show ?thesis using assms(2)
    by (simp add: TCPConnection_state_def TCPState_of_def sender_summary_def receiver_summary_def reset_def inbound_stream_def outbound_stream_def)
next
  case False
  with assms have b: "conn_base S P isn c" and fin: "finished c" unfolding conn_inv_def by auto
  note f = finished_facts [OF b fin]
  have "receiver_summary (cn_receiver c) = Receiver_FIN_RECV" "\<not> bs_error (inbound_stream c)"
    using f(3,4) fin unfolding receiver_summary_def finished_def fault_free_def inbound_stream_def TCPReceiver_ackno_def by simp_all
  moreover have "sender_summary (cn_sender c) = Sender_FIN_ACKED"
    using f(5-9) fin unfolding sender_summary_def finished_def fault_free_def outbound_stream_def TCPSender_bytes_in_flight_def by simp
  ultimately show ?thesis using assms(2) by (simp add: TCPConnection_state_def TCPState_of_def)
qed

theorem ended_state_witness:
  "TCPConnection_state (end_uncleanly (TCPConnection_new 5 TCPConfig_default)) = TCPState_of_state RESET"
proof -
  have "conn_inv [] [] (WrappingInt32 0) (TCPConnection_new 5 TCPConfig_default)" by (intro TCPConnection_new_inv TCPConfig_default_ok) simp_all
  then have r: "conn_inv [] [] (WrappingInt32 0) (end_uncleanly (TCPConnection_new 5 TCPConfig_default))"
    "reset (end_uncleanly (TCPConnection_new 5 TCPConfig_default))" "\<not> cn_active (end_uncleanly (TCPConnection_new 5 TCPConfig_default))"
    using reset_stage [OF conn_inv_base] by blast+
  with ended_state [OF r(1,3)] show ?thesis by (simp add: reset_def)
qed

text \<open>C38. An endpoint with a random initial sequence number that has sent its SYN dereferences an empty optional when a segment
  without SYN arrives, whatever the segment: an acknowledgment that overtakes the peer's SYN is enough.\<close>

theorem syn_sent_bad_access:
  assumes "cfg_ok cfg" "tc_fixed_isn cfg = None" "\<not> th_syn (sg_header seg)"
  shows "and_then (TCPConnection_connect (TCPConnection_new random cfg)) (\<lambda>c. TCPConnection_segment_received c seg) = Inl BadOptionalAccess"
proof -
  let ?c = "TCPConnection_new random cfg"
  have "conn_inv [] [] (WrappingInt32 0) ?c" by (intro TCPConnection_new_inv assms(1)) simp_all
  from connect_event [OF this] obtain c where c: "TCPConnection_connect ?c = Inr c" "keeps ?c c" "cn_sent_syn c" "\<not> rc_received_syn (cn_receiver c)" "cn_active c"
    by (auto simp: TCPConnection_new_def yields_def)
  have "cn_cfg c = cfg" using c(2) by (simp add: keeps_def TCPConnection_new_def)
  then show ?thesis using c assms(2,3)
    by (simp add: TCPConnection_segment_received_def TCPReceiver_ackno_def unsynchronized_segment_def)
qed

theorem syn_sent_bad_access_witness:
  "and_then (TCPConnection_connect (TCPConnection_new 5 TCPConfig_default))
     (\<lambda>c. TCPConnection_segment_received c (plain_segment 1 False False [])) = Inl BadOptionalAccess"
  by (rule syn_sent_bad_access [OF TCPConfig_default_ok]) (simp_all add: TCPConfig_default_def plain_segment_def)

end
