(* ===== verification/Conversation.thy ===== *)
theory Conversation
  imports Endpoint
begin

text \<open>
  Two \<open>TCPConnection\<close>s at the ends of a network that may lose, delay, duplicate and reorder segments in both directions. Acknowledgments,
  windows and retransmissions are those the two endpoints compute; the applications and the clocks act in any order.
\<close>

section \<open>What only a segment can change\<close>

text \<open>Every operation but \<open>segment_received\<close> leaves alone whether the peer's SYN was seen and whether our FIN was acknowledged.\<close>

definition calm :: "TCPConnection \<Rightarrow> TCPConnection \<Rightarrow> bool" where
  "calm c c' \<longleftrightarrow> rc_received_syn (cn_receiver c') = rc_received_syn (cn_receiver c) \<and> cn_fin_acked c' = cn_fin_acked c"

lemma calm_refl [simp]: "calm c c"
  by (simp add: calm_def)

lemma calm_trans [trans]: "calm c c' \<Longrightarrow> calm c' c'' \<Longrightarrow> calm c c''"
  by (simp add: calm_def)

text \<open>An operation on a connection that, if it returns, was calm.\<close>

definition leads :: "TCPConnection \<Rightarrow> TCPConnection result \<Rightarrow> bool" where
  "leads c r \<longleftrightarrow> (\<forall>c'. r = Inr c' \<longrightarrow> calm c c')"

lemma leads_intros:
  "calm c c' \<Longrightarrow> leads c (Inr c')" "leads c (Inl e)" "leads c r \<Longrightarrow> leads c (assert_that b r)"
  "(b \<Longrightarrow> leads c r) \<Longrightarrow> (\<not> b \<Longrightarrow> leads c r') \<Longrightarrow> leads c (if b then r else r')"
  by (auto simp: leads_def)

lemma leads_then: "(\<And>x. leads c (f x)) \<Longrightarrow> leads c (and_then r f)"
  by (cases r) (auto simp: leads_def)

lemma leads_chain: "leads c r \<Longrightarrow> (\<And>c'. calm c c' \<Longrightarrow> leads c (f c')) \<Longrightarrow> leads c (and_then r f)"
  by (cases r) (auto simp: leads_def)

lemma leads_calm: "calm c c' \<Longrightarrow> leads c' r \<Longrightarrow> leads c r"
  by (auto simp: leads_def intro: calm_trans)

lemma calm_updates [simp]:
  "calm c (c'\<lparr>cn_sender := s\<rparr>) = calm c c'" "calm c (c'\<lparr>cn_segments_out := q\<rparr>) = calm c c'" "calm c (c'\<lparr>cn_active := b\<rparr>) = calm c c'"
  "calm c (c'\<lparr>cn_linger_after_streams_finish := b\<rparr>) = calm c c'" "calm c (c'\<lparr>cn_linger_begin := b\<rparr>) = calm c c'"
  "calm c (c'\<lparr>cn_time_since_last_segment_received := t\<rparr>) = calm c c'" "calm c (c'\<lparr>cn_sent_syn := b\<rparr>) = calm c c'"
  "calm c (c'\<lparr>cn_sent_fin := b\<rparr>) = calm c c'" "calm c (c'\<lparr>cn_abs_fin_seqno := n\<rparr>) = calm c c'"
  "calm c (set_inbound c' out) = calm c c'" "calm c (set_outbound c' out) = calm c c'" "calm c (end_uncleanly c') = calm c c'"
  by (simp_all add: calm_def set_inbound_def set_outbound_def end_uncleanly_def Let_def)

lemma send_front_calm: "leads c (send_front c seg)"
  unfolding send_front_def Let_def by (intro leads_chain leads_intros leads_then) simp_all

lemma send_loop_calm: "leads c (send_loop segs c)"
  by (induction segs arbitrary: c) (auto intro: leads_intros leads_chain send_front_calm leads_calm)

lemma send_all_calm: "leads c (send_all c)"
  unfolding send_all_def by (rule send_loop_calm)

lemma end_cleanly_calm: "leads c (end_cleanly c)"
  unfolding end_cleanly_def Let_def by (intro leads_intros leads_then) simp_all

lemma try_to_end_cleanly_calm: "leads c (try_to_end_cleanly c)"
  unfolding try_to_end_cleanly_def by (intro leads_intros end_cleanly_calm) simp_all

lemma send_rst_calm: "leads c (send_rst c)"
  unfolding send_rst_def Let_def by (cases "TCPReceiver_ackno (cn_receiver c)") (auto intro!: leads_intros leads_then)

lemma send_and_end_calm: "calm c c' \<Longrightarrow> leads c (and_then (send_all c') try_to_end_cleanly)"
  by (rule leads_chain) (auto intro: leads_calm send_all_calm try_to_end_cleanly_calm)

lemma fill_and_send_calm: "calm c c' \<Longrightarrow> leads c (fill_and_send c')"
  unfolding fill_and_send_def by (intro leads_then send_and_end_calm) simp_all

lemma tick_calm: "leads c (TCPConnection_tick c ms)"
  unfolding TCPConnection_tick_def Let_def
  by (intro leads_chain leads_intros leads_then)
    (auto intro!: leads_calm [OF _ send_rst_calm] leads_calm [OF _ send_all_calm] leads_calm [OF _ end_cleanly_calm]
       leads_calm [OF _ try_to_end_cleanly_calm])

lemma connect_calm: "leads c (TCPConnection_connect c)"
  unfolding TCPConnection_connect_def Let_def
  by (intro leads_chain leads_intros leads_then) (auto intro!: leads_intros leads_then split: list.split)

lemma connect_queue:
  assumes "TCPConnection_connect c = Inr c'"
  shows "\<exists>seg. cn_segments_out c' = [seg]"
proof -
  obtain s where "(case sn_segments_out s of [] \<Rightarrow> Inl EmptyQueue | seg_out # rest \<Rightarrow>
      (let c = c\<lparr>cn_sender := s\<lparr>sn_segments_out := rest\<rparr>\<rparr> in
       and_then (set_win c (sg_header seg_out)) (\<lambda>out_header. assert_that (rest = []) (
         Inr (c\<lparr>cn_segments_out := cn_segments_out c @ [seg_out\<lparr>sg_header := out_header\<rparr>], cn_sent_syn := True\<rparr>))))) = Inr c'"
    and "cn_segments_out c = []"
    using assms unfolding TCPConnection_connect_def by (auto simp only: assert_that_Inr_iff and_then_Inr_iff)
  then show ?thesis by (cases "sn_segments_out s") (auto simp: and_then_Inr_iff Let_def)
qed

fun local :: "conn_event \<Rightarrow> bool" where
  "local (ArriveSegment seg) = False"
| "local _ = True"

lemma local_calm:
  assumes "conn_step c e = Inr (out, c')" "local e"
  shows "calm c c'"
proof (cases e)
  case (WriteOut d)
  then obtain n stream where "ByteStream_write (outbound_stream c) d = Inr (n, stream)" "fill_and_send (set_outbound c stream) = Inr c'"
    using assms(1) by (auto simp: TCPConnection_write_def and_then_Inr_iff)
  then show ?thesis using fill_and_send_calm [of c "set_outbound c stream"] by (simp add: leads_def)
next
  case EndOut
  then obtain stream where "fill_and_send (set_outbound c stream) = Inr c'"
    using assms(1) by (auto simp: end_input_stream_def and_then_Inr_iff)
  then show ?thesis using fill_and_send_calm [of c "set_outbound c stream"] by (simp add: leads_def)
next
  case Destroy
  then have "TCPConnection_destroy c = Inr c'" using assms(1) by (auto simp: and_then_Inr_iff)
  moreover have "leads c (TCPConnection_destroy c)"
    unfolding TCPConnection_destroy_def by (intro leads_chain leads_intros send_rst_calm) simp_all
  ultimately show ?thesis by (simp add: leads_def)
next
  case (TickConn ms)
  then show ?thesis using assms(1) tick_calm [of c ms] by (auto simp: and_then_Inr_iff leads_def)
next
  case ConnectOut
  then show ?thesis using assms(1) connect_calm [of c] by (auto simp: and_then_Inr_iff leads_def)
qed (use assms in \<open>auto simp: and_then_Inr_iff\<close>)

lemma unsynchronized_calm: "leads c (unsynchronized_segment c header)"
  unfolding unsynchronized_segment_def by (cases "tc_fixed_isn (cn_cfg c)") (auto intro!: leads_intros)

text \<open>A segment makes our FIN acknowledged only by acknowledging it.\<close>

lemma arrive_fin_acked:
  assumes inv: "conn_inv S P isn c" and op: "TCPConnection_segment_received c seg = Inr c'"
    and fin: "cn_fin_acked c'" "\<not> cn_fin_acked c"
  shows "th_ack (sg_header seg) \<and> (\<exists>cp\<le>length S + 2. unwrap (th_ackno (sg_header seg)) (sn_isn (cn_sender c)) cp = length S + 2)"
proof -
  have b: "conn_base S P isn c" by (rule conn_inv_base [OF inv])
  have active: "cn_active c" by (rule ccontr) (use op fin in \<open>simp add: TCPConnection_segment_received_def\<close>)
  have "\<not> calm c c'" using fin by (simp add: calm_def)
  have early: "\<not> (TCPReceiver_ackno (cn_receiver c) = None \<and> \<not> th_syn (sg_header seg))"
  proof
    assume "TCPReceiver_ackno (cn_receiver c) = None \<and> \<not> th_syn (sg_header seg)"
    then have "unsynchronized_segment c (sg_header seg) = Inr c'" using op active unfolding TCPConnection_segment_received_def by (simp add: Let_def)
    with unsynchronized_calm \<open>\<not> calm c c'\<close> show False unfolding leads_def by blast
  qed
  have rst: "\<not> th_rst (sg_header seg)"
  proof
    assume "th_rst (sg_header seg)"
    then have "c' = end_uncleanly (c\<lparr>cn_time_since_last_segment_received := 0\<rparr>)"
      using op active early unfolding TCPConnection_segment_received_def by (auto simp: Let_def)
    with \<open>\<not> calm c c'\<close> show False by simp
  qed
  define linger where "linger r = check_not_need_to_linger (c\<lparr>cn_time_since_last_segment_received := 0, cn_receiver := r\<rparr>)" for r
  define alive where "alive d = (if keep_alive d seg then d\<lparr>cn_sender := send_empty_segment (cn_sender d)\<rparr> else d)" for d
  obtain r c1 c2 s where c1: "c1 = alive (linger r)"
    and c2: "take_ack c1 (sg_header seg) = Inr c2" and rest: "and_then (send_all (c2\<lparr>cn_sender := s\<rparr>)) try_to_end_cleanly = Inr c'"
    using op active early rst unfolding TCPConnection_segment_received_def Let_def
    by (simp only: if_False not_True_eq_False not_False_eq_True simp_thms linger_def [symmetric] alive_def [symmetric])
      (simp add: and_then_Inr_iff, blast)
  have "cn_fin_acked c2" using send_and_end_calm [of c2 "c2\<lparr>cn_sender := s\<rparr>"] rest fin(1) by (simp add: leads_def calm_def)
  have f: "cn_fin_acked c1 = cn_fin_acked c" "cn_sent_fin c1 = cn_sent_fin c" "cn_abs_fin_seqno c1 = cn_abs_fin_seqno c"
    "cn_sender c1 = cn_sender c \<or> cn_sender c1 = send_empty_segment (cn_sender c)"
    unfolding c1 alive_def linger_def check_not_need_to_linger_def by auto
  have inv1: "sn_inv S (cn_sender c1)" "sn_isn (cn_sender c1) = sn_isn (cn_sender c)" "sn_sent_all (cn_sender c1) = sn_sent_all (cn_sender c)"
    using f(4) conn_inv_active(6) [OF inv active] empty_segment_ok by (auto simp: send_empty_segment_def Let_def)
  obtain s' where s': "th_ack (sg_header seg)" "ack_received (cn_sender c1) (th_ackno (sg_header seg)) (th_win (sg_header seg)) = Inr s'"
    "cn_sent_fin c" "TCPSender_get_abs_seqno s' (th_ackno (sg_header seg)) = add64 (cn_abs_fin_seqno c) 1"
    using c2 \<open>cn_fin_acked c2\<close> fin(2) f unfolding take_ack_def Let_def by (auto simp: and_then_Inr_iff split: if_splits)
  have all: "sn_sent_all (cn_sender c)" "cn_abs_fin_seqno c = length S + 1" using b s'(3) unfolding conn_base_def by blast+
  then have "sn_sent_syn (cn_sender c1)" using inv1(1,3) unfolding sn_inv_def by auto
  from ack_received_ok [OF inv1(1) this refl, of "th_ackno (sg_header seg)" "th_win (sg_header seg)"] s'(2)
  have r: "sn_inv S s'" "sn_isn s' = sn_isn (cn_sender c)" using inv1(2) by auto
  then have "sn_checkpoint s' \<le> length S + 2" "length S + 2 < two63" unfolding sn_inv_def flight_def by auto
  then show ?thesis using s'(1,4) r(2) all(2) unfolding TCPSender_get_abs_seqno_def by auto
qed

section \<open>The network\<close>

record network =
  nt_a :: TCPConnection
  nt_b :: TCPConnection
  nt_ab :: "TCPSegment set"
  nt_ba :: "TCPSegment set"
  nt_read_a :: bytes
  nt_read_b :: bytes

text \<open>The wires hold every segment that was ever sent. Steps are described for the first endpoint; those of the second are its mirror image.\<close>

definition mirror :: "network \<Rightarrow> network" where
  "mirror n = \<lparr>nt_a = nt_b n, nt_b = nt_a n, nt_ab = nt_ba n, nt_ba = nt_ab n, nt_read_a = nt_read_b n, nt_read_b = nt_read_a n\<rparr>"

lemma mirror_fields [simp]:
  "nt_a (mirror n) = nt_b n" "nt_b (mirror n) = nt_a n" "nt_ab (mirror n) = nt_ba n" "nt_ba (mirror n) = nt_ab n"
  "nt_read_a (mirror n) = nt_read_b n" "nt_read_b (mirror n) = nt_read_a n" "mirror (mirror n) = n"
  by (simp_all add: mirror_def)

inductive half_step :: "bytes \<Rightarrow> bytes \<Rightarrow> network \<Rightarrow> network \<Rightarrow> bool" for Sa Sb where
  acts: "local e \<Longrightarrow> conn_admissible Sa Sb (sn_isn (cn_sender (nt_b n))) (nt_a n) e \<Longrightarrow> conn_step (nt_a n) e = Inr ((segs, d), a) \<Longrightarrow>
    half_step Sa Sb n (n\<lparr>nt_a := a, nt_ab := nt_ab n \<union> set segs, nt_read_a := nt_read_a n @ d\<rparr>)"
| hears: "seg \<in> nt_ba n \<Longrightarrow> TCPConnection_segment_received (nt_a n) seg = Inr a \<Longrightarrow> half_step Sa Sb n (n\<lparr>nt_a := a\<rparr>)"

inductive net_reachable :: "bytes \<Rightarrow> bytes \<Rightarrow> network \<Rightarrow> network \<Rightarrow> bool" for Sa Sb n0 where
  start: "net_reachable Sa Sb n0 n0"
| step_a: "net_reachable Sa Sb n0 n \<Longrightarrow> half_step Sa Sb n n' \<Longrightarrow> net_reachable Sa Sb n0 n'"
| step_b: "net_reachable Sa Sb n0 n \<Longrightarrow> half_step Sb Sa (mirror n) n' \<Longrightarrow> net_reachable Sa Sb n0 (mirror n')"

definition net_new :: "TCPConnection \<Rightarrow> TCPConnection \<Rightarrow> network" where
  "net_new a b = \<lparr>nt_a = a, nt_b = b, nt_ab = {}, nt_ba = {}, nt_read_a = [], nt_read_b = []\<rparr>"

definition half_inv :: "bytes \<Rightarrow> bytes \<Rightarrow> network \<Rightarrow> bool" where
  "half_inv Sa Sb n \<longleftrightarrow> conn_inv Sa Sb (sn_isn (cn_sender (nt_b n))) (nt_a n) \<and> tc_fixed_isn (cn_cfg (nt_a n)) \<noteq> None \<and>
     (\<forall>seg\<in>nt_ab n. out_seg Sa (sn_isn (cn_sender (nt_b n))) (nt_a n) seg) \<and>
     (rc_received_syn (cn_receiver (nt_a n)) \<longrightarrow> sn_sent_syn (cn_sender (nt_b n))) \<and>
     nt_read_a n = take (rc_read (cn_receiver (nt_a n))) Sb \<and>
     (cn_fin_acked (nt_a n) \<longrightarrow> get_abs_ackno (cn_receiver (nt_b n)) = length Sa + 2)"

definition net_inv :: "bytes \<Rightarrow> bytes \<Rightarrow> network \<Rightarrow> bool" where
  "net_inv Sa Sb n \<longleftrightarrow> length Sa + 2 < two31 \<and> length Sb + 2 < two31 \<and> half_inv Sa Sb n \<and> half_inv Sb Sa (mirror n)"

lemma seg_on_wire:
  assumes inv: "net_inv Sa Sb n" and seg: "seg \<in> nt_ba n"
  shows "seg_admissible Sb (sn_isn (cn_sender (nt_b n))) (nt_a n) seg"
proof -
  have h: "half_inv Sa Sb n" "half_inv Sb Sa (mirror n)" "length Sb + 2 < two31" using inv unfolding net_inv_def by blast+
  have o: "out_seg Sb (sn_isn (cn_sender (nt_a n))) (nt_b n) seg" using h(2) seg unfolding half_inv_def by simp
  then obtain k where k: "seg_at Sb (sn_isn (cn_sender (nt_b n))) k seg" unfolding out_seg_def by blast
  have "rc_inv Sb (sn_isn (cn_sender (nt_b n))) (cn_receiver (nt_a n))"
    using h(1) conn_inv_base unfolding half_inv_def conn_base_def by blast
  from near_checkpoint_short [OF this h(3) k] have "near_checkpoint (cn_receiver (nt_a n)) k" .
  moreover have "th_ack (sg_header seg) \<longrightarrow> sn_sent_syn (cn_sender (nt_a n))"
    using o h(2) unfolding out_seg_def half_inv_def by simp
  moreover have "tc_fixed_isn (cn_cfg (nt_a n)) \<noteq> None" using h(1) unfolding half_inv_def by blast
  ultimately show ?thesis using k unfolding seg_admissible_def by blast
qed

text \<open>What a step of the first endpoint has to establish.\<close>

definition progress :: "bytes \<Rightarrow> bytes \<Rightarrow> network \<Rightarrow> TCPConnection \<Rightarrow> bool" where
  "progress Sa Sb n a \<longleftrightarrow> conn_inv Sa Sb (sn_isn (cn_sender (nt_b n))) a \<and> sn_isn (cn_sender a) = sn_isn (cn_sender (nt_a n)) \<and>
     cn_cfg a = cn_cfg (nt_a n) \<and> (sn_sent_syn (cn_sender (nt_a n)) \<longrightarrow> sn_sent_syn (cn_sender a)) \<and>
     get_abs_ackno (cn_receiver (nt_a n)) \<le> get_abs_ackno (cn_receiver a) \<and>
     (rc_received_syn (cn_receiver (nt_a n)) \<longrightarrow> rc_received_syn (cn_receiver a)) \<and>
     (rc_received_syn (cn_receiver a) \<longrightarrow> sn_sent_syn (cn_sender (nt_b n))) \<and>
     (cn_fin_acked a \<longrightarrow> get_abs_ackno (cn_receiver (nt_b n)) = length Sa + 2)"

lemma ackno_bound:
  assumes "conn_inv S P isn c"
  shows "get_abs_ackno (cn_receiver c) \<le> length P + 2"
proof -
  have "rc_inv P isn (cn_receiver c)" using conn_inv_base [OF assms] unfolding conn_base_def by blast
  from get_abs_ackno_ok [OF this] rc_inv_output(3) [OF this] show ?thesis by simp
qed

lemma out_seg_mono:
  assumes "out_seg S isn c seg" "sn_isn (cn_sender c') = sn_isn (cn_sender c)" "sn_sent_syn (cn_sender c) \<longrightarrow> sn_sent_syn (cn_sender c')"
    "rc_received_syn (cn_receiver c) \<longrightarrow> rc_received_syn (cn_receiver c')" "get_abs_ackno (cn_receiver c) \<le> get_abs_ackno (cn_receiver c')"
  shows "out_seg S isn c' seg"
  using assms unfolding out_seg_def by (auto intro: le_trans)

lemma progress_inv:
  assumes inv: "net_inv Sa Sb n" and p: "progress Sa Sb n a"
    and segs: "\<forall>seg\<in>segs. out_seg Sa (sn_isn (cn_sender (nt_b n))) (nt_a n) seg"
    and read: "take (rc_read (cn_receiver a)) Sb = nt_read_a n @ d"
  shows "net_inv Sa Sb (n\<lparr>nt_a := a, nt_ab := nt_ab n \<union> segs, nt_read_a := nt_read_a n @ d\<rparr>)"
proof -
  let ?n = "n\<lparr>nt_a := a, nt_ab := nt_ab n \<union> segs, nt_read_a := nt_read_a n @ d\<rparr>"
  have h: "half_inv Sa Sb n" "half_inv Sb Sa (mirror n)" "length Sa + 2 < two31" "length Sb + 2 < two31"
    using inv unfolding net_inv_def by blast+
  have "\<forall>seg\<in>nt_ab n \<union> segs. out_seg Sa (sn_isn (cn_sender (nt_b n))) a seg"
    using h(1) segs p out_seg_mono [of Sa _ "nt_a n" _ a] unfolding half_inv_def progress_def by blast
  then have 1: "half_inv Sa Sb ?n" using h(1) p read unfolding half_inv_def progress_def by simp
  have "conn_inv Sa Sb (sn_isn (cn_sender (nt_b n))) a" using p unfolding progress_def by blast
  from ackno_bound [OF this] have "half_inv Sb Sa (mirror ?n)"
    using h(2) p unfolding half_inv_def progress_def by auto
  then show ?thesis using 1 h(3,4) unfolding net_inv_def by blast
qed

lemma fin_ack_truth:
  assumes inv: "net_inv Sa Sb n" and seg: "seg \<in> nt_ba n" and op: "TCPConnection_segment_received (nt_a n) seg = Inr a"
    and fin: "cn_fin_acked a"
  shows "get_abs_ackno (cn_receiver (nt_b n)) = length Sa + 2"
proof (cases "cn_fin_acked (nt_a n)")
  case True
  then show ?thesis using inv unfolding net_inv_def half_inv_def by blast
next
  case False
  let ?isn = "sn_isn (cn_sender (nt_a n))"
  have h: "half_inv Sa Sb n" "half_inv Sb Sa (mirror n)" "length Sa + 2 < two31" using inv unfolding net_inv_def by blast+
  have "conn_inv Sa Sb (sn_isn (cn_sender (nt_b n))) (nt_a n)" using h(1) unfolding half_inv_def by blast
  from arrive_fin_acked [OF this op fin False] obtain cp where ack: "th_ack (sg_header seg)" "cp \<le> length Sa + 2"
    "unwrap (th_ackno (sg_header seg)) ?isn cp = length Sa + 2" by blast
  have "conn_inv Sb Sa ?isn (nt_b n)" "out_seg Sb ?isn (nt_b n) seg" using h(2) seg unfolding half_inv_def by simp_all
  moreover from this(2) obtain j where j: "j \<le> get_abs_ackno (cn_receiver (nt_b n))" "th_ackno (sg_header seg) = wrap j ?isn"
    using ack(1) unfolding out_seg_def by blast
  ultimately have le: "get_abs_ackno (cn_receiver (nt_b n)) \<le> length Sa + 2" using ackno_bound by blast
  have "unwrap (wrap j ?isn) ?isn cp = j" by (rule unwrap_wrap_near) (use ack(2) j(1) le h(3) in auto)
  then show ?thesis using ack(3) j le by simp
qed

lemma half_step_inv:
  assumes "half_step Sa Sb n n'" "net_inv Sa Sb n"
  shows "net_inv Sa Sb n'"
  using assms(1)
proof cases
  case (acts e segs d a)
  let ?isn = "sn_isn (cn_sender (nt_b n))"
  have h: "conn_inv Sa Sb ?isn (nt_a n)" "rc_received_syn (cn_receiver (nt_a n)) \<longrightarrow> sn_sent_syn (cn_sender (nt_b n))"
    "nt_read_a n = take (rc_read (cn_receiver (nt_a n))) Sb" "cn_fin_acked (nt_a n) \<longrightarrow> get_abs_ackno (cn_receiver (nt_b n)) = length Sa + 2"
    using assms(2) unfolding net_inv_def half_inv_def by blast+
  have ev: "event_ok Sa Sb ?isn (nt_a n) ((segs, d), a)" using conn_step_ok [OF h(1) acts(3)] acts(4) by simp
  have "calm (nt_a n) a" by (rule local_calm [OF acts(4,2)])
  then have "progress Sa Sb n a" using ev h unfolding progress_def event_ok_def calm_def by simp
  then show ?thesis unfolding acts(1) by (rule progress_inv [OF assms(2)]) (use ev h(3) in \<open>simp_all add: event_ok_def\<close>)
next
  case (hears seg a)
  let ?isn = "sn_isn (cn_sender (nt_b n))"
  have h: "conn_inv Sa Sb ?isn (nt_a n)" "nt_read_a n = take (rc_read (cn_receiver (nt_a n))) Sb"
    "out_seg Sb (sn_isn (cn_sender (nt_a n))) (nt_b n) seg"
    using assms(2) hears(2) unfolding net_inv_def half_inv_def by simp_all
  have "conn_inv Sa Sb ?isn a \<and> keeps (nt_a n) a"
    using segment_event [OF h(1), of seg] seg_on_wire [OF assms(2) hears(2)] hears(3) by simp
  then have k: "conn_inv Sa Sb ?isn a" "keeps (nt_a n) a" by simp_all
  then have "progress Sa Sb n a"
    using h(3) fin_ack_truth [OF assms(2) hears(2,3)] unfolding progress_def keeps_def out_seg_def by auto
  moreover have "take (rc_read (cn_receiver a)) Sb = nt_read_a n @ []" using k(2) h(2) by (simp add: keeps_def)
  ultimately have "net_inv Sa Sb (n\<lparr>nt_a := a, nt_ab := nt_ab n \<union> {}, nt_read_a := nt_read_a n @ []\<rparr>)"
    by (intro progress_inv [OF assms(2)]) simp_all
  then show ?thesis unfolding hears(1) by simp
qed

lemma net_inv_mirror: "net_inv Sb Sa (mirror n) \<longleftrightarrow> net_inv Sa Sb n"
  by (auto simp: net_inv_def)

lemma net_reachable_inv:
  assumes "net_reachable Sa Sb n0 n" "net_inv Sa Sb n0"
  shows "net_inv Sa Sb n"
  using assms
proof (induction rule: net_reachable.induct)
  case (step_b n n')
  then have "net_inv Sb Sa n'" by (auto intro: half_step_inv simp: net_inv_mirror)
  then show ?case by (simp add: net_inv_mirror)
qed (auto intro: half_step_inv)

lemma net_new_inv:
  assumes "cfg_ok cfga" "cfg_ok cfgb" "tc_fixed_isn cfga \<noteq> None" "tc_fixed_isn cfgb \<noteq> None" "length Sa + 2 < two31" "length Sb + 2 < two31"
  shows "net_inv Sa Sb (net_new (TCPConnection_new ra cfga) (TCPConnection_new rb cfgb))"
proof -
  have "half_inv S P (net_new (TCPConnection_new r cfg) (TCPConnection_new r' cfg'))"
    if "cfg_ok cfg" "tc_fixed_isn cfg \<noteq> None" "length S + 2 < two31" "length P + 2 < two31" for S P r cfg r' cfg'
    using that TCPConnection_new_inv [OF that(1), of S P _ r] unfolding half_inv_def net_new_def by (simp add: TCPConnection_new_def)
  moreover have "mirror (net_new a b) = net_new b a" for a b by (simp add: mirror_def net_new_def)
  ultimately show ?thesis using assms unfolding net_inv_def by simp
qed

section \<open>Properties\<close>

text \<open>The first endpoint has closed cleanly: its streams are not in error.\<close>

definition closed :: "TCPConnection \<Rightarrow> bool" where
  "closed c \<longleftrightarrow> \<not> cn_active c \<and> \<not> bs_error (inbound_stream c)"

lemma half_delivery:
  assumes "net_inv Sa Sb n"
  shows "nt_read_a n @ rc_unread (cn_receiver (nt_a n)) = take (rc_next (cn_receiver (nt_a n))) Sb \<and>
    (\<forall>seg\<in>nt_ba n. \<exists>a. TCPConnection_segment_received (nt_a n) seg = Inr a) \<and>
    (closed (nt_a n) \<longrightarrow> nt_read_a n = Sb \<and> rc_next (cn_receiver (nt_b n)) = length Sa)"
proof -
  let ?r = "cn_receiver (nt_a n)"
  have h: "half_inv Sa Sb n" "half_inv Sb Sa (mirror n)" using assms unfolding net_inv_def by blast+
  then have inv: "conn_inv Sa Sb (sn_isn (cn_sender (nt_b n))) (nt_a n)" and read: "nt_read_a n = take (rc_read ?r) Sb" unfolding half_inv_def by blast+
  have b: "conn_base Sa Sb (sn_isn (cn_sender (nt_b n))) (nt_a n)" by (rule conn_inv_base [OF inv])
  then have rc: "rc_inv Sb (sn_isn (cn_sender (nt_b n))) ?r" unfolding conn_base_def by blast
  have "rc_unread ?r = drop (rc_read ?r) (take (rc_next ?r) Sb)" "rc_read ?r \<le> rc_next ?r"
    using rc_inv_output(1) [OF rc] unfolding output_is_def by blast+
  then have "nt_read_a n @ rc_unread ?r = take (rc_next ?r) Sb"
    unfolding read by (metis append_take_drop_id min.absorb1 take_take)
  moreover have "\<forall>seg\<in>nt_ba n. \<exists>a. TCPConnection_segment_received (nt_a n) seg = Inr a"
    using segment_event [OF inv] seg_on_wire [OF assms] by (auto simp: yields_def)
  moreover have "nt_read_a n = Sb \<and> rc_next (cn_receiver (nt_b n)) = length Sa" if "closed (nt_a n)"
  proof -
    have fin: "finished (nt_a n)" using that inv unfolding closed_def conn_inv_def reset_def by auto
    then have "get_abs_ackno (cn_receiver (nt_b n)) = length Sa + 2" using h(1) unfolding half_inv_def finished_def by blast
    moreover have rb: "rc_inv Sa (sn_isn (cn_sender (nt_a n))) (cn_receiver (nt_b n))"
      using h(2) conn_inv_base unfolding half_inv_def conn_base_def by fastforce
    ultimately have "rc_next (cn_receiver (nt_b n)) = length Sa" using get_abs_ackno_ok [OF rb] rc_inv_output(3) [OF rb] by (auto split: if_splits)
    then show ?thesis using read finished_facts(1) [OF b fin] by simp
  qed
  ultimately show ?thesis by blast
qed



end
