(* ===== verification/IPv4.thy ===== *)
theory IPv4
  imports TCP_Segment
begin

text \<open>
  IPv4 headers and datagrams: \<open>src/libsponge/tcp_helpers/ipv4_header.hh\<close>, \<open>ipv4_header.cc\<close>,
  \<open>ipv4_datagram.hh\<close> and \<open>ipv4_datagram.cc\<close>. What the header's parser accepts, the round trip of a
  datagram, and what the datagram's parser lets through.
\<close>

section \<open>IPv4Header\<close>

record IPv4Header =
  ih_ver :: "8 word"
  ih_hlen :: "8 word"
  ih_tos :: "8 word"
  ih_len :: "16 word"
  ih_id :: "16 word"
  ih_df :: bool
  ih_mf :: bool
  ih_offset :: "16 word"
  ih_ttl :: "8 word"
  ih_proto :: "8 word"
  ih_cksum :: "16 word"
  ih_src :: "32 word"
  ih_dst :: "32 word"

definition IPv4Header_LENGTH :: size_t where
  "IPv4Header_LENGTH = 20"

definition DEFAULT_TTL :: "8 word" where
  "DEFAULT_TTL = 128"

definition PROTO_TCP :: "8 word" where
  "PROTO_TCP = 6"

definition IPv4Header_default :: IPv4Header where
  "IPv4Header_default =
     \<lparr>ih_ver = 4, ih_hlen = word_of_nat (IPv4Header_LENGTH div 4), ih_tos = 0, ih_len = 0, ih_id = 0,
      ih_df = True, ih_mf = False, ih_offset = 0, ih_ttl = DEFAULT_TTL, ih_proto = PROTO_TCP,
      ih_cksum = 0, ih_src = 0, ih_dst = 0\<rparr>"

text \<open>The checks at the end of \<open>IPv4Header::parse\<close>, and the whole of it.\<close>

definition IPv4Header_checks ::
  "size_t \<Rightarrow> Buffer \<Rightarrow> IPv4Header \<Rightarrow> NetParser \<Rightarrow> (ParseResult \<times> IPv4Header \<times> NetParser) result" where
  "IPv4Header_checks data_size original_serialized_version h p =
     (if data_size < 4 * unat (ih_hlen h) then Inr (PacketTooShort, h, p)
      else if ih_ver h \<noteq> 4 then Inr (WrongIPVersion, h, p)
      else if ih_hlen h < 5 then Inr (HeaderTooShort, h, p)
      else if data_size \<noteq> unat (ih_len h) then Inr (TruncatedPacket, h, p)
      else
        and_then (NetParser_remove_prefix p (sub64 (unat (ih_hlen h) * 4) IPv4Header_LENGTH)) (\<lambda>p.
        if np_error p \<noteq> NoError then Inr (np_error p, h, p)
        else
          (let check = InternetChecksum_add (InternetChecksum_of 0)
                 (take (4 * unat (ih_hlen h)) (Buffer_str original_serialized_version))
           in if InternetChecksum_value check \<noteq> 0 then Inr (BadChecksum, h, p)
              else Inr (NoError, h, p))))"

definition IPv4Header_parse :: "IPv4Header \<Rightarrow> NetParser \<Rightarrow> (ParseResult \<times> IPv4Header \<times> NetParser) result" where
  "IPv4Header_parse h p =
     (let original_serialized_version = np_buffer p;
          data_size = Buffer_size (np_buffer p)
      in
      if data_size < IPv4Header_LENGTH then Inr (PacketTooShort, h, p)
      else
        and_then (NetParser_u8 p) (\<lambda>(first_byte, p).
        and_then (NetParser_u8 p) (\<lambda>(tos, p).
        and_then (NetParser_u16 p) (\<lambda>(len, p).
        and_then (NetParser_u16 p) (\<lambda>(ident, p).
        and_then (NetParser_u16 p) (\<lambda>(fo_val, p).
        and_then (NetParser_u8 p) (\<lambda>(ttl, p).
        and_then (NetParser_u8 p) (\<lambda>(proto, p).
        and_then (NetParser_u16 p) (\<lambda>(cksum, p).
        and_then (NetParser_u32 p) (\<lambda>(src, p).
        and_then (NetParser_u32 p) (\<lambda>(dst, p).
        IPv4Header_checks data_size original_serialized_version
          (h\<lparr>ih_ver := drop_bit 4 first_byte, ih_hlen := first_byte AND 0x0f,
             ih_tos := tos, ih_len := len, ih_id := ident,
             ih_df := (fo_val AND 0x4000 \<noteq> 0), ih_mf := (fo_val AND 0x2000 \<noteq> 0),
             ih_offset := fo_val AND 0x1fff, ih_ttl := ttl, ih_proto := proto, ih_cksum := cksum,
             ih_src := src, ih_dst := dst\<rparr>) p)))))))))))"

definition fragment_word :: "IPv4Header \<Rightarrow> 16 word" where
  "fragment_word h =
     (if ih_df h then 0x4000 else 0) OR (if ih_mf h then 0x2000 else 0) OR (ih_offset h AND 0x1fff)"

definition IPv4Header_serialize :: "IPv4Header \<Rightarrow> bytes result" where
  "IPv4Header_serialize h =
     (if ih_ver h \<noteq> 4 then Inl (RuntimeError ''wrong IP version'')
      else if 4 * unat (ih_hlen h) < IPv4Header_LENGTH then Inl (RuntimeError ''IP header too short'')
      else
        (let first_byte = push_bit 4 (ih_ver h) OR (ih_hlen h AND 0xf);
             ret = NetUnparser_u8 [] first_byte;
             ret = NetUnparser_u8 ret (ih_tos h);
             ret = NetUnparser_u16 ret (ih_len h);
             ret = NetUnparser_u16 ret (ih_id h);
             ret = NetUnparser_u16 ret (fragment_word h);
             ret = NetUnparser_u8 ret (ih_ttl h);
             ret = NetUnparser_u8 ret (ih_proto h);
             ret = NetUnparser_u16 ret (ih_cksum h);
             ret = NetUnparser_u32 ret (ih_src h);
             ret = NetUnparser_u32 ret (ih_dst h)
         in Inr (string_resize ret (4 * unat (ih_hlen h)))))"

definition payload_length :: "IPv4Header \<Rightarrow> 16 word" where
  "payload_length h = ih_len h - 4 * ucast (ih_hlen h)"

definition pseudo_cksum :: "IPv4Header \<Rightarrow> 32 word" where
  "pseudo_cksum h =
     (let pcksum = drop_bit 16 (ih_src h) + (ih_src h AND 0xffff);
          pcksum = pcksum + (drop_bit 16 (ih_dst h) + (ih_dst h AND 0xffff));
          pcksum = pcksum + ucast (ih_proto h)
      in pcksum + ucast (payload_length h))"

section \<open>IPv4Datagram\<close>

record IPv4Datagram =
  dg_header :: IPv4Header
  dg_payload :: BufferList

definition IPv4Datagram_default :: IPv4Datagram where
  "IPv4Datagram_default = \<lparr>dg_header = IPv4Header_default, dg_payload = \<lparr>bl_buffers = []\<rparr>\<rparr>"

definition IPv4Datagram_parse :: "IPv4Datagram \<Rightarrow> Buffer \<Rightarrow> (ParseResult \<times> IPv4Datagram) result" where
  "IPv4Datagram_parse d buffer =
     and_then (IPv4Header_parse (dg_header d) (NetParser_of buffer)) (\<lambda>(_, header, p).
     let d' = d\<lparr>dg_header := header, dg_payload := BufferList_of_Buffer (np_buffer p)\<rparr> in
     if BufferList_size (dg_payload d') \<noteq> unat (payload_length header) then Inr (PacketTooShort, d')
     else Inr (np_error p, d'))"

definition IPv4Datagram_serialize :: "IPv4Datagram \<Rightarrow> BufferList result" where
  "IPv4Datagram_serialize d =
     (if BufferList_size (dg_payload d) \<noteq> unat (payload_length (dg_header d))
      then Inl (RuntimeError ''IPv4Datagram::serialize: payload is wrong size'')
      else
        (let header_out = (dg_header d)\<lparr>ih_cksum := 0\<rparr> in
         and_then (IPv4Header_serialize header_out) (\<lambda>header_zero_checksum.
         let check = InternetChecksum_add (InternetChecksum_of 0) header_zero_checksum;
             header_out = header_out\<lparr>ih_cksum := InternetChecksum_value check\<rparr>
         in
         and_then (IPv4Header_serialize header_out) (\<lambda>filled.
         let ret = BufferList_append \<lparr>bl_buffers = []\<rparr> (BufferList_of_string filled)
         in Inr (BufferList_append ret (dg_payload d))))))"

section \<open>The bytes of a header\<close>

definition ip_header_bytes :: "IPv4Header \<Rightarrow> bytes" where
  "ip_header_bytes h =
     (be_bytes 1 (push_bit 4 (ih_ver h) OR (ih_hlen h AND 0xf)) @ be_bytes 1 (ih_tos h) @ be_bytes 2 (ih_len h) @
      be_bytes 2 (ih_id h) @ be_bytes 2 (fragment_word h) @ be_bytes 1 (ih_ttl h) @ be_bytes 1 (ih_proto h)) @
     be_bytes 2 (ih_cksum h) @
     (be_bytes 4 (ih_src h) @ be_bytes 4 (ih_dst h) @ replicate (4 * unat (ih_hlen h) - 20) 0)"

definition ip_header_ok :: "IPv4Header \<Rightarrow> bool" where
  "ip_header_ok h \<longleftrightarrow> ih_ver h = 4 \<and> 5 \<le> ih_hlen h \<and> ih_hlen h < 16 \<and> ih_offset h < 0x2000"

lemma IPv4Header_serialize_ok:
  assumes "ih_ver h = 4" "5 \<le> ih_hlen h"
  shows "IPv4Header_serialize h = Inr (ip_header_bytes h)" "length (ip_header_bytes h) = 4 * unat (ih_hlen h)"
proof -
  have "5 \<le> unat (ih_hlen h)" using assms(2) by (simp add: word_le_nat_alt)
  then show "IPv4Header_serialize h = Inr (ip_header_bytes h)" "length (ip_header_bytes h) = 4 * unat (ih_hlen h)"
    using assms unfolding IPv4Header_serialize_def ip_header_bytes_def string_resize_def Let_def IPv4Header_LENGTH_def
    by (simp_all add: u8.unparse_enc [unfolded One_nat_def] u16.unparse_enc u32.unparse_enc)
qed

lemma fragment_word_bit:
  "bit (fragment_word h) n \<longleftrightarrow> (ih_df h \<and> n = 14) \<or> (ih_mf h \<and> n = 13) \<or> (bit (ih_offset h) n \<and> n < 13)"
proof -
  have nums: "(0x4000 :: 16 word) = 2 ^ 14" "(0x2000 :: 16 word) = 2 ^ 13" "(0x1fff :: 16 word) = mask 13"
    by (simp_all add: mask_eq_exp_minus_1)
  have e: "bit (if b then 2 ^ k else (0 :: 16 word)) n \<longleftrightarrow> b \<and> n = k" if "k < 16" for b k
    using that by (auto simp: bit_exp_iff)
  show ?thesis
    unfolding fragment_word_def nums bit_or_iff bit_and_iff by (simp add: e bit_mask_iff) (auto dest: bit_imp_le_length)
qed

lemma fragment_word_fields:
  "fragment_word h AND 0x4000 \<noteq> 0 \<longleftrightarrow> ih_df h" "fragment_word h AND 0x2000 \<noteq> 0 \<longleftrightarrow> ih_mf h"
  "ih_offset h < 0x2000 \<Longrightarrow> fragment_word h AND 0x1fff = ih_offset h"
proof -
  have nums: "(0x4000 :: 16 word) = 2 ^ 14" "(0x2000 :: 16 word) = 2 ^ 13" "(0x1fff :: 16 word) = mask 13"
    by (simp_all add: mask_eq_exp_minus_1)
  show "fragment_word h AND 0x4000 \<noteq> 0 \<longleftrightarrow> ih_df h" "fragment_word h AND 0x2000 \<noteq> 0 \<longleftrightarrow> ih_mf h"
    unfolding nums and_exp_eq_0_iff_not_bit by (simp_all add: fragment_word_bit)
  assume small: "ih_offset h < 0x2000"
  have "take_bit 13 (ih_offset h) = ih_offset h"
  proof -
    have "unat (take_bit 13 (ih_offset h)) = unat (ih_offset h) mod 8192"
      by (subst unsigned_take_bit_eq) (simp add: take_bit_eq_mod)
    then show ?thesis using small by (simp add: word_unat_eq_iff word_less_nat_alt)
  qed
  moreover have "fragment_word h AND 0x1fff = take_bit 13 (ih_offset h)"
    unfolding nums by (rule bit_word_eqI) (auto simp: bit_simps fragment_word_bit)
  ultimately show "fragment_word h AND 0x1fff = ih_offset h" by simp
qed

lemma first_byte_fields:
  assumes "(l :: 8 word) < 16"
  shows "drop_bit 4 (push_bit 4 4 OR (l AND 0xf)) = (4 :: 8 word)" "(push_bit 4 4 OR (l AND 0xf)) AND 0xf = l"
proof -
  have f: "(0xf :: 8 word) = mask 4" by (simp add: mask_eq_exp_minus_1)
  have "unat (take_bit 4 l) = unat l mod 16" by (subst unsigned_take_bit_eq) (simp add: take_bit_eq_mod)
  then have l: "take_bit 4 l = l" using assms by (simp add: word_unat_eq_iff word_less_nat_alt)
  have "drop_bit 4 (take_bit 4 l) = 0" by (rule bit_word_eqI) (auto simp: bit_simps)
  then have "drop_bit 4 l = 0" using l by simp
  then show "drop_bit 4 (push_bit 4 4 OR (l AND 0xf)) = (4 :: 8 word)"
    unfolding f take_bit_eq_mask [symmetric] l by (simp add: drop_bit_or)
  show "(push_bit 4 4 OR (l AND 0xf)) AND 0xf = l"
    unfolding f take_bit_eq_mask [symmetric] l using l by (simp add: take_bit_or)
qed

lemma IPv4Header_parse_bytes:
  assumes r: "reading p (ip_header_bytes h @ bs)" and ok: "ip_header_ok h"
    and len: "4 * unat (ih_hlen h) + length bs = unat (ih_len h)" and ck: "cksum_of 0 (ip_header_bytes h) = 0"
  shows "yields (IPv4Header_parse h0 p) (\<lambda>(res, h', p'). res = NoError \<and> h' = h \<and> reading p' bs)"
proof -
  have v: "ih_ver h = 4" "5 \<le> ih_hlen h" "ih_hlen h < 16" "ih_offset h < 0x2000"
    using ok by (simp_all add: ip_header_ok_def)
  have n: "5 \<le> unat (ih_hlen h)" "unat (ih_hlen h) < 16"
    using v(2,3) by (simp_all add: word_le_nat_alt word_less_nat_alt)
  note size = IPv4Header_serialize_ok(2) [OF v(1,2)]
  have str: "np_rest p = ip_header_bytes h @ bs" using r by (simp add: reading_def)
  have skip: "sub64 (unat (ih_hlen h) * 4) IPv4Header_LENGTH = 4 * unat (ih_hlen h) - 20"
    using n by (simp add: IPv4Header_LENGTH_def)
  have data: "Buffer_size (np_buffer p) = unat (ih_len h)" by (simp add: Buffer_size_def str size len)
  have nl: "\<not> unat (ih_len h) < IPv4Header_LENGTH" "\<not> unat (ih_len h) < 4 * unat (ih_hlen h)" "\<not> ih_hlen h < 5"
    using n len v(2) by (auto simp: IPv4Header_LENGTH_def not_less)
  have orig: "take (4 * unat (ih_hlen h)) (np_rest p) = ip_header_bytes h" by (simp add: str size)
  have fields: "drop_bit 4 (push_bit 4 (ih_ver h) OR (ih_hlen h AND 0xf)) = ih_ver h"
    "(push_bit 4 (ih_ver h) OR (ih_hlen h AND 0xf)) AND 0xf = ih_hlen h"
    unfolding v(1) by (rule first_byte_fields [OF v(3)])+
  note frag = fragment_word_fields(1,2) fragment_word_fields(3) [OF v(4)]
  have h: "h0\<lparr>ih_ver := ih_ver h, ih_hlen := ih_hlen h, ih_tos := ih_tos h, ih_len := ih_len h, ih_id := ih_id h,
      ih_df := ih_df h, ih_mf := ih_mf h, ih_offset := ih_offset h, ih_ttl := ih_ttl h, ih_proto := ih_proto h,
      ih_cksum := ih_cksum h, ih_src := ih_src h, ih_dst := ih_dst h\<rparr> = h" by simp
  have tail: "yields (IPv4Header_checks (unat (ih_len h)) (np_buffer p) h q)
      (\<lambda>(res, h', p'). res = NoError \<and> h' = h \<and> reading p' bs)"
    if "reading q (replicate (4 * unat (ih_hlen h) - 20) 0 @ bs)" for q
    using NetParser_remove_prefix_ok [OF that, of "4 * unat (ih_hlen h) - 20"] ck nl v(1)
    unfolding IPv4Header_checks_def Let_def skip orig by (auto elim!: yields_cases simp: reading_def)
  show ?thesis
    unfolding IPv4Header_parse_def Let_def data if_not_P [OF nl(1)]
    using r unfolding ip_header_bytes_def append_assoc
    by - ((rule u8.read_step u16.read_step u32.read_step, assumption, simp only: prod.case)+,
        simp only: fields frag h, rule tail, assumption)
qed

section \<open>Datagrams on the wire\<close>

definition dgram_ok :: "IPv4Datagram \<Rightarrow> bool" where
  "dgram_ok d \<longleftrightarrow> ip_header_ok (dg_header d) \<and> bl_inv (dg_payload d) \<and>
     4 * unat (ih_hlen (dg_header d)) + length (bl_str (dg_payload d)) = unat (ih_len (dg_header d))"

lemma payload_length_unat:
  assumes "4 * unat (ih_hlen h) \<le> unat (ih_len h)"
  shows "unat (payload_length h) = unat (ih_len h) - 4 * unat (ih_hlen h)"
proof -
  have "unat (ih_hlen h) < 256" by (rule byte_unat_less)
  then have "unat (4 * ucast (ih_hlen h) :: 16 word) = 4 * unat (ih_hlen h)"
    by (simp add: unat_word_ariths unsigned_ucast_eq take_bit_eq_mod)
  then show ?thesis using assms by (simp add: payload_length_def unat_sub word_le_nat_alt)
qed

lemma ip_header_bytes_cksum:
  obtains pre post where "even (length pre)" "\<And>c. ip_header_bytes (h\<lparr>ih_cksum := c\<rparr>) = pre @ be_bytes 2 c @ post"
proof (rule that)
  show "ip_header_bytes (h\<lparr>ih_cksum := c\<rparr>) =
      (be_bytes 1 (push_bit 4 (ih_ver h) OR (ih_hlen h AND 0xf)) @ be_bytes 1 (ih_tos h) @ be_bytes 2 (ih_len h) @
       be_bytes 2 (ih_id h) @ be_bytes 2 (fragment_word h) @ be_bytes 1 (ih_ttl h) @ be_bytes 1 (ih_proto h)) @
      be_bytes 2 c @ (be_bytes 4 (ih_src h) @ be_bytes 4 (ih_dst h) @ replicate (4 * unat (ih_hlen h) - 20) 0)" for c
    by (simp add: ip_header_bytes_def fragment_word_def)
qed simp

lemma IPv4Datagram_serialize_ok:
  assumes "dgram_ok d"
  shows "\<exists>bl c. IPv4Datagram_serialize d = Inr bl \<and> bl_inv bl \<and>
    bl_str bl = ip_header_bytes ((dg_header d)\<lparr>ih_cksum := c\<rparr>) @ bl_str (dg_payload d) \<and>
    length (bl_str bl) = unat (ih_len (dg_header d)) \<and>
    cksum_of 0 (ip_header_bytes ((dg_header d)\<lparr>ih_cksum := c\<rparr>)) = 0"
proof -
  define h where "h = dg_header d"
  have ok: "ip_header_ok h" "bl_inv (dg_payload d)" "4 * unat (ih_hlen h) + length (bl_str (dg_payload d)) = unat (ih_len h)"
    using assms by (simp_all add: dgram_ok_def h_def)
  have v: "ih_ver (h\<lparr>ih_cksum := c\<rparr>) = 4" "5 \<le> ih_hlen (h\<lparr>ih_cksum := c\<rparr>)" "unat (ih_hlen h) < 16" for c
    using ok(1) by (simp_all add: ip_header_ok_def word_less_nat_alt)
  have len: "length (ip_header_bytes (h\<lparr>ih_cksum := c\<rparr>)) = 4 * unat (ih_hlen h)" for c
    using IPv4Header_serialize_ok(2) [OF v(1,2)] by simp
  have lt: "unat (ih_len h) < 65536" using unsigned_less [where 'a = nat, of "ih_len h"] by simp
  have pay: "BufferList_size (dg_payload d) = unat (payload_length h)"
    using ok(3) lt by (simp add: payload_length_unat)
  define c where "c = cksum_of 0 (ip_header_bytes (h\<lparr>ih_cksum := 0\<rparr>))"
  define bl where "bl = BufferList_append (BufferList_append \<lparr>bl_buffers = []\<rparr>
    (BufferList_of_string (ip_header_bytes (h\<lparr>ih_cksum := c\<rparr>)))) (dg_payload d)"
  have ser: "IPv4Datagram_serialize d = Inr bl"
    unfolding IPv4Datagram_serialize_def Let_def h_def [symmetric] IPv4Header_serialize_ok(1) [OF v(1,2)] and_then.simps
    using pay by (simp add: IPv4Header_serialize_ok(1) [OF v(1,2)] bl_def c_def)
  have str: "bl_str bl = ip_header_bytes (h\<lparr>ih_cksum := c\<rparr>) @ bl_str (dg_payload d)" by (simp add: bl_def)
  have inv: "bl_inv bl" using ok(2) v(3) by (simp add: bl_def len)
  obtain pre post where split: "even (length pre)" "\<And>c. ip_header_bytes (h\<lparr>ih_cksum := c\<rparr>) = pre @ be_bytes 2 c @ post"
    using ip_header_bytes_cksum by blast
  have z: "be_bytes 2 (0 :: 16 word) = [0, 0]" by (simp add: be_bytes_eqs)
  have "cksum_bound 0 (pre @ [0, 0] @ post)"
    using len [of 0] v(3) unfolding split(2) z cksum_bound_def by simp
  from cksum_fill_in [OF this split(1)] have "cksum_of 0 (ip_header_bytes (h\<lparr>ih_cksum := c\<rparr>)) = 0"
    unfolding c_def split(2) z .
  moreover have "length (bl_str bl) = unat (ih_len h)" unfolding str length_append len by (rule ok(3))
  ultimately show ?thesis using ser inv str unfolding h_def by blast
qed

lemma IPv4Datagram_parse_wire:
  assumes "buf_inv b" "Buffer_str b = ip_header_bytes h @ bs" "ip_header_ok h"
    "4 * unat (ih_hlen h) + length bs = unat (ih_len h)" "cksum_of 0 (ip_header_bytes h) = 0"
  shows "\<exists>d'. IPv4Datagram_parse d b = Inr (NoError, d') \<and> dg_header d' = h \<and> bl_str (dg_payload d') = bs \<and>
    (\<exists>q. dg_payload d' = BufferList_of_Buffer q \<and> buf_inv q)"
proof -
  have "reading (NetParser_of b) (ip_header_bytes h @ bs)" using reading_of [OF assms(1)] assms(2) by simp
  from IPv4Header_parse_bytes [OF this assms(3-5)] obtain p where
    p: "IPv4Header_parse (dg_header d) (NetParser_of b) = Inr (NoError, h, p)" "reading p bs"
    by (auto elim!: yields_cases)
  have "unat (ih_len h) < 65536" using unsigned_less [where 'a = nat, of "ih_len h"] by simp
  then have "BufferList_size (BufferList_of_Buffer (np_buffer p)) = unat (payload_length h)"
    using p(2) assms(4) by (simp add: payload_length_unat reading_def)
  then show ?thesis using p by (auto simp: IPv4Datagram_parse_def Let_def reading_def np_inv_def)
qed

text \<open>What the header's parser reports as \<open>NoError\<close>.\<close>

lemma IPv4Header_parse_safe:
  assumes "np_inv p"
  shows "yields (IPv4Header_parse h p) (\<lambda>(res, h', p'). np_inv p' \<and> (res = NoError \<longrightarrow>
    ih_ver h' = 4 \<and> 5 \<le> ih_hlen h' \<and> length (np_rest p) = unat (ih_len h') \<and>
    cksum_of 0 (take (4 * unat (ih_hlen h')) (np_rest p)) = 0))"
proof (cases "length (np_rest p) < 20")
  case True
  then show ?thesis using assms by (simp add: IPv4Header_parse_def Buffer_size_def IPv4Header_LENGTH_def)
next
  case False
  have tail: "yields (IPv4Header_checks (length (np_rest p)) (np_buffer p) h' q) (\<lambda>(res, h', p'). np_inv p' \<and>
      (res = NoError \<longrightarrow> ih_ver h' = 4 \<and> 5 \<le> ih_hlen h' \<and> length (np_rest p) = unat (ih_len h') \<and>
       cksum_of 0 (take (4 * unat (ih_hlen h')) (np_rest p)) = 0))" if "np_inv q" for q h'
    unfolding IPv4Header_checks_def Let_def
    using NetParser_remove_prefix_safe [OF that] that
    by (auto elim!: yields_cases simp: not_less intro!: yields_and_then [OF NetParser_remove_prefix_safe])
  show ?thesis
    unfolding IPv4Header_parse_def Let_def Buffer_size_def IPv4Header_LENGTH_def if_not_P [OF False]
    using assms
    by - ((rule read_safe_step, assumption, simp only: prod.case)+, rule tail, assumption)
qed

text \<open>With a header of five words the parser stands after it whatever the header's parser reported.\<close>

lemma IPv4Header_parse_five:
  assumes "reading p bs" "20 \<le> length bs" "bs ! 0 AND 0xf = 5"
  shows "yields (IPv4Header_parse h p) (\<lambda>(res, h', p'). reading p' (drop 20 bs) \<and> ih_hlen h' = 5 \<and>
    ih_ver h' = drop_bit 4 (bs ! 0) \<and> ih_len h' = be_value (take 2 (drop 2 bs)))"
proof -
  have nth: "be_value (take 1 bs) = bs ! 0" using be_value_byte [of 0 bs] assms(2) by fastforce
  have str: "np_rest p = bs" using assms(1) by (simp add: reading_def)
  have "\<not> length bs < 20" using assms(2) by simp
  have tail: "yields (IPv4Header_checks n b h' q) (\<lambda>(res, h'', p'). reading p' (drop 20 bs) \<and> h'' = h')"
    if "reading q (drop 20 bs)" "ih_hlen h' = 5" for q n b h'
    using NetParser_remove_prefix_ok [OF that(1), of 0] that
    by (auto elim!: yields_cases simp: IPv4Header_checks_def Let_def IPv4Header_LENGTH_def reading_def)
  show ?thesis
    unfolding IPv4Header_parse_def Let_def Buffer_size_def IPv4Header_LENGTH_def str if_not_P [OF \<open>\<not> length bs < 20\<close>]
    using assms(1)
    by - ((rule read_any_step, assumption, use assms(2) in simp, simp only: prod.case drop_drop)+,
        rule yields_mono, rule tail, simp, use assms(3) in \<open>auto simp: nth [unfolded One_nat_def] numeral_2_eq_2\<close>)
qed

section \<open>Properties\<close>

text \<open>C21. A datagram survives the wire: \<open>serialize\<close> fills in a checksum under which the header's parser,
  which checks length, version, header length and checksum, accepts it, and \<open>parse\<close> returns
  \<open>NoError\<close>, the same header with that checksum, and the same payload.\<close>

theorem ipv4_round_trip:
  assumes "dgram_ok d"
  shows "\<exists>bl c d'. IPv4Datagram_serialize d = Inr bl \<and>
    IPv4Datagram_parse d0 (Buffer_of (BufferList_concatenate bl)) = Inr (NoError, d') \<and>
    dg_header d' = (dg_header d)\<lparr>ih_cksum := c\<rparr> \<and> bl_str (dg_payload d') = bl_str (dg_payload d) \<and>
    (\<exists>p. IPv4Header_parse h0 (NetParser_of (Buffer_of (BufferList_concatenate bl))) = Inr (NoError, dg_header d', p))"
proof -
  obtain bl c where bl: "IPv4Datagram_serialize d = Inr bl"
    "bl_str bl = ip_header_bytes ((dg_header d)\<lparr>ih_cksum := c\<rparr>) @ bl_str (dg_payload d)"
    "length (bl_str bl) = unat (ih_len (dg_header d))"
    "cksum_of 0 (ip_header_bytes ((dg_header d)\<lparr>ih_cksum := c\<rparr>)) = 0"
    using IPv4Datagram_serialize_ok [OF assms] by blast
  let ?h = "(dg_header d)\<lparr>ih_cksum := c\<rparr>" and ?b = "Buffer_of (bl_str bl)"
  have h: "ip_header_ok ?h" "4 * unat (ih_hlen ?h) + length (bl_str (dg_payload d)) = unat (ih_len ?h)"
    using assms by (simp_all add: dgram_ok_def ip_header_ok_def)
  have "unat (ih_len (dg_header d)) < 65536" using unsigned_less [where 'a = nat, of "ih_len (dg_header d)"] by simp
  then have b: "buf_inv ?b" "Buffer_str ?b = ip_header_bytes ?h @ bl_str (dg_payload d)" using bl(2,3) by simp_all
  obtain d' where d': "IPv4Datagram_parse d0 ?b = Inr (NoError, d')" "dg_header d' = ?h"
    "bl_str (dg_payload d') = bl_str (dg_payload d)"
    using IPv4Datagram_parse_wire [OF b h bl(4)] by blast
  have "reading (NetParser_of ?b) (ip_header_bytes ?h @ bl_str (dg_payload d))" using reading_of [OF b(1)] b(2) by simp
  from IPv4Header_parse_bytes [OF this h bl(4)] obtain p where
    "IPv4Header_parse h0 (NetParser_of ?b) = Inr (NoError, ?h, p)" by (auto elim!: yields_cases)
  with d' bl(1) show ?thesis by auto
qed

theorem ipv4_round_trip_witness:
  "\<exists>bl d'. IPv4Datagram_serialize \<lparr>dg_header = IPv4Header_default\<lparr>ih_len := 23, ih_src := 7\<rparr>,
      dg_payload = BufferList_of_string [1, 2, 3]\<rparr> = Inr bl \<and>
    IPv4Datagram_parse IPv4Datagram_default (Buffer_of (BufferList_concatenate bl)) = Inr (NoError, d') \<and>
    bl_str (dg_payload d') = [1, 2, 3]"
proof -
  have "dgram_ok \<lparr>dg_header = IPv4Header_default\<lparr>ih_len := 23, ih_src := 7\<rparr>, dg_payload = BufferList_of_string [1, 2, 3]\<rparr>"
    by (simp add: dgram_ok_def ip_header_ok_def IPv4Header_default_def IPv4Header_LENGTH_def)
  from ipv4_round_trip [OF this, of IPv4Datagram_default] show ?thesis by fastforce
qed

text \<open>C36. The header's parser throws on no input, and it reports \<open>NoError\<close> only for version 4, at least five
  header words, a buffer of exactly the advertised length, and a header whose checksum is zero.\<close>

theorem ipv4_header_parse_sound:
  assumes "buf_inv b"
  shows "\<exists>res h' p. IPv4Header_parse h (NetParser_of b) = Inr (res, h', p) \<and>
    (res = NoError \<longrightarrow> ih_ver h' = 4 \<and> 5 \<le> ih_hlen h' \<and> Buffer_size b = unat (ih_len h') \<and>
      InternetChecksum_value (InternetChecksum_add (InternetChecksum_of 0)
        (take (4 * unat (ih_hlen h')) (Buffer_str b))) = 0)"
proof -
  have "np_inv (NetParser_of b)" using assms by (simp add: np_inv_def NetParser_of_def)
  from IPv4Header_parse_safe [OF this, of h] show ?thesis
    by (auto simp: NetParser_of_def Buffer_size_def elim!: yields_cases)
qed

theorem ipv4_header_parse_sound_witness:
  "buf_inv (Buffer_of [4]) \<and> (\<exists>res h' p. IPv4Header_parse IPv4Header_default (NetParser_of (Buffer_of [4])) = Inr (res, h', p))"
  using ipv4_header_parse_sound [of "Buffer_of [4]" IPv4Header_default] by auto

text \<open>\<open>IPv4Datagram::parse\<close> drops that report: every buffer of at least 20 bytes with a header length of five
  words and the right total length is accepted with \<open>NoError\<close>, whatever its version and checksum.\<close>

theorem ipv4_datagram_unchecked:
  assumes "buf_inv b" "20 \<le> length (Buffer_str b)" "Buffer_str b ! 0 AND 0xf = 5"
    and "unat (be_value (take 2 (drop 2 (Buffer_str b))) :: 16 word) = length (Buffer_str b)"
  shows "\<exists>d'. IPv4Datagram_parse d b = Inr (NoError, d') \<and> ih_ver (dg_header d') = drop_bit 4 (Buffer_str b ! 0)"
proof -
  obtain res h p where h: "IPv4Header_parse (dg_header d) (NetParser_of b) = Inr (res, h, p)"
    "reading p (drop 20 (Buffer_str b))" "ih_hlen h = 5" "ih_ver h = drop_bit 4 (Buffer_str b ! 0)"
    "unat (ih_len h) = length (Buffer_str b)"
    using IPv4Header_parse_five [OF reading_of [OF assms(1)] assms(2,3), of "dg_header d"] assms(4)
    by (auto elim!: yields_cases)
  have "unat (ih_len h) < 65536" using unsigned_less [where 'a = nat, of "ih_len h"] by simp
  then have "BufferList_size (BufferList_of_Buffer (np_buffer p)) = unat (payload_length h)"
    using h assms(2) by (simp add: payload_length_unat reading_def)
  then show ?thesis using h by (simp add: IPv4Datagram_parse_def Let_def reading_def)
qed

theorem ipv4_datagram_unchecked_witness:
  "\<exists>d'. IPv4Datagram_parse IPv4Datagram_default (Buffer_of ([0x65, 0, 0, 20] @ replicate 16 1)) = Inr (NoError, d') \<and>
     ih_ver (dg_header d') = 6"
proof -
  let ?b = "Buffer_of ([0x65, 0, 0, 20] @ replicate 16 1)"
  have "unat (be_value (take 2 (drop 2 (Buffer_str ?b))) :: 16 word) = length (Buffer_str ?b)"
    by (simp add: be_value_def)
  from ipv4_datagram_unchecked [OF _ _ _ this, of IPv4Datagram_default] show ?thesis by simp
qed

end
