(* ===== verification/TCP_Over_IP.thy ===== *)
theory TCP_Over_IP
  imports IPv4
begin

text \<open>
  TCP segments inside IPv4 datagrams: \<open>FdAdapterConfig\<close> (\<open>src/libsponge/tcp_helpers/tcp_config.hh\<close>), \<open>FdAdapterBase\<close>
  (\<open>fd_adapter.hh\<close>) and \<open>TCPOverIPv4Adapter\<close> (\<open>tcp_over_ip.cc\<close>). An \<open>Address\<close> is the IPv4 address and the port it holds;
  the text form that \<open>inet_ntoa\<close> prints and the constructor reads back stands for the same address.
\<close>

section \<open>Configuration\<close>

record Address =
  ad_ip :: "32 word"
  ad_port :: "16 word"

record FdAdapterConfig =
  fc_source :: Address
  fc_destination :: Address
  fc_loss_rate_dn :: "16 word"
  fc_loss_rate_up :: "16 word"

definition FdAdapterConfig_default :: FdAdapterConfig where
  "FdAdapterConfig_default =
     \<lparr>fc_source = \<lparr>ad_ip = 0, ad_port = 0\<rparr>, fc_destination = \<lparr>ad_ip = 0, ad_port = 0\<rparr>,
      fc_loss_rate_dn = 0, fc_loss_rate_up = 0\<rparr>"

record FdAdapterBase =
  fa_cfg :: FdAdapterConfig
  fa_listen :: bool

definition FdAdapterBase_default :: FdAdapterBase where
  "FdAdapterBase_default = \<lparr>fa_cfg = FdAdapterConfig_default, fa_listen = False\<rparr>"

definition FdAdapterBase_set_listening :: "FdAdapterBase \<Rightarrow> bool \<Rightarrow> FdAdapterBase" where
  "FdAdapterBase_set_listening a l = a\<lparr>fa_listen := l\<rparr>"

text \<open>The ports an outgoing segment is given.\<close>

definition addressed :: "FdAdapterBase \<Rightarrow> TCPSegment \<Rightarrow> TCPSegment" where
  "addressed a seg = seg\<lparr>sg_header := (sg_header seg)\<lparr>th_sport := ad_port (fc_source (fa_cfg a)),
     th_dport := ad_port (fc_destination (fa_cfg a))\<rparr>\<rparr>"

section \<open>TCPOverIPv4Adapter\<close>

definition unwrap_tcp_in_ip :: "FdAdapterBase \<Rightarrow> IPv4Datagram \<Rightarrow> (TCPSegment option \<times> FdAdapterBase) result" where
  "unwrap_tcp_in_ip a ip_dgram =
     (let h = dg_header ip_dgram; cfg = fa_cfg a in
      if \<not> fa_listen a \<and> ih_dst h \<noteq> ad_ip (fc_source cfg) then Inr (None, a)
      else if \<not> fa_listen a \<and> ih_src h \<noteq> ad_ip (fc_destination cfg) then Inr (None, a)
      else if ih_proto h \<noteq> PROTO_TCP then Inr (None, a)
      else
        and_then (BufferList_to_Buffer (dg_payload ip_dgram)) (\<lambda>payload.
        and_then (TCPSegment_parse TCPSegment_default payload (pseudo_cksum h)) (\<lambda>(res, tcp_seg).
        if res \<noteq> NoError then Inr (None, a)
        else if th_dport (sg_header tcp_seg) \<noteq> ad_port (fc_source cfg) then Inr (None, a)
        else if fa_listen a \<and> \<not> (th_syn (sg_header tcp_seg) \<and> \<not> th_rst (sg_header tcp_seg)) then Inr (None, a)
        else
          (let a' = (if fa_listen a
                     then FdAdapterBase_set_listening
                       (a\<lparr>fa_cfg := cfg\<lparr>fc_source := \<lparr>ad_ip = ih_dst h, ad_port = ad_port (fc_source cfg)\<rparr>,
                          fc_destination := \<lparr>ad_ip = ih_src h, ad_port = th_sport (sg_header tcp_seg)\<rparr>\<rparr>\<rparr>) False
                     else a)
           in
           if th_sport (sg_header tcp_seg) \<noteq> ad_port (fc_destination (fa_cfg a')) then Inr (None, a')
           else Inr (Some tcp_seg, a')))))"

text \<open>The length is computed in wider integers and cut to the 16 bits of its field.\<close>

definition wrap_tcp_in_ip :: "FdAdapterBase \<Rightarrow> TCPSegment \<Rightarrow> (IPv4Datagram \<times> TCPSegment) result" where
  "wrap_tcp_in_ip a seg =
     (let cfg = fa_cfg a;
          seg = addressed a seg;
          h = dg_header IPv4Datagram_default;
          h = h\<lparr>ih_src := ad_ip (fc_source cfg), ih_dst := ad_ip (fc_destination cfg),
                ih_len := word_of_nat (unat (ih_hlen h) * 4 + unat (th_doff (sg_header seg)) * 4 + Buffer_size (sg_payload seg))\<rparr>
      in
      and_then (TCPSegment_serialize seg (pseudo_cksum h)) (\<lambda>payload.
      Inr (IPv4Datagram_default\<lparr>dg_header := h, dg_payload := payload\<rparr>, seg)))"

section \<open>Lemmas\<close>

lemma unat_add_bound: "unat a \<le> m \<Longrightarrow> unat b \<le> n \<Longrightarrow> unat (a + b :: 'a :: len word) \<le> m + n"
  using unat_word_ariths(1) [of a b] by (metis add_mono mod_less_eq_dividend order_trans)

text \<open>The pseudo-header sum has room to spare in 32 bits, so it can start an Internet checksum.\<close>

lemma pseudo_cksum_bound: "unat (pseudo_cksum h) < 16777216"
proof -
  have hi: "unat (drop_bit 16 (w :: 32 word)) \<le> 65535" for w
    using unsigned_less [where 'a = nat, of w] by (subst unat_drop_bit_eq) (simp add: drop_bit_eq_div)
  have lo: "unat (w AND 0xffff :: 32 word) \<le> 65535" for w
  proof -
    have "(0xffff :: 32 word) = mask 16" by (simp add: mask_eq_exp_minus_1)
    then have "w AND 0xffff = take_bit 16 w" by (simp only: take_bit_eq_mask)
    then have "unat (w AND 0xffff) = take_bit 16 (unat w)" by (simp only: unsigned_take_bit_eq)
    also have "\<dots> < 2 ^ 16" by (rule take_bit_nat_less_exp)
    finally show ?thesis by simp
  qed
  have byte: "unat (ucast (p :: 8 word) :: 32 word) \<le> 255" for p
    using byte_unat_less [of p] by (simp add: unsigned_ucast_eq take_bit_eq_mod)
  have half: "unat (ucast (p :: 16 word) :: 32 word) \<le> 65535" for p
    using unsigned_less [where 'a = nat, of p] by (simp add: unsigned_ucast_eq take_bit_eq_mod)
  have "unat (pseudo_cksum h) \<le> (65535 + 65535) + (65535 + 65535) + 255 + 65535"
    unfolding pseudo_cksum_def Let_def by (intro unat_add_bound hi lo byte half)
  then show ?thesis by simp
qed

lemma pseudo_cksum_cksum [simp]: "pseudo_cksum (h\<lparr>ih_cksum := c\<rparr>) = pseudo_cksum h"
  by (simp add: pseudo_cksum_def payload_length_def)

lemma addressed_fields [simp]:
  "sg_payload (addressed a seg) = sg_payload seg" "th_doff (sg_header (addressed a seg)) = th_doff (sg_header seg)"
  by (simp_all add: addressed_def)

lemma addressed_ok:
  "seg_ok seg \<Longrightarrow> seg_ok (addressed a seg)" "wire_size (addressed a seg) = wire_size seg"
  by (simp_all add: seg_ok_def wire_size_def addressed_def)

lemma wrap_tcp_in_ip_ok:
  assumes "seg_ok seg" "wire_size seg + IPv4Header_LENGTH \<le> 65535"
  shows "\<exists>d c. wrap_tcp_in_ip a seg = Inr (d, addressed a seg) \<and> dgram_ok d \<and>
    ih_src (dg_header d) = ad_ip (fc_source (fa_cfg a)) \<and> ih_dst (dg_header d) = ad_ip (fc_destination (fa_cfg a)) \<and>
    ih_proto (dg_header d) = PROTO_TCP \<and> cksum_of (pseudo_cksum (dg_header d)) (bl_str (dg_payload d)) = 0 \<and>
    bl_str (dg_payload d) = header_bytes ((sg_header (addressed a seg))\<lparr>th_cksum := c\<rparr>) @ Buffer_str (sg_payload seg)"
proof -
  define h where "h = IPv4Header_default\<lparr>ih_src := ad_ip (fc_source (fa_cfg a)), ih_dst := ad_ip (fc_destination (fa_cfg a)),
    ih_len := word_of_nat (wire_size seg + IPv4Header_LENGTH)\<rparr>"
  have "wire_size (addressed a seg) \<le> 65535" using assms(2) by (simp add: addressed_ok)
  from TCPSegment_serialize_ok [OF addressed_ok(1) [OF assms(1)] pseudo_cksum_bound this, of h]
  obtain bl c where bl: "TCPSegment_serialize (addressed a seg) (pseudo_cksum h) = Inr bl" "bl_inv bl"
    "bl_str bl = header_bytes ((sg_header (addressed a seg))\<lparr>th_cksum := c\<rparr>) @ Buffer_str (sg_payload seg)"
    "length (bl_str bl) = wire_size seg" "cksum_of (pseudo_cksum h) (bl_str bl) = 0"
    unfolding addressed_ok(2) addressed_fields(1) by blast
  let ?d = "\<lparr>dg_header = h, dg_payload = bl\<rparr>"
  have "word_of_nat (unat (ih_hlen IPv4Header_default) * 4 + unat (th_doff (sg_header seg)) * 4 + Buffer_size (sg_payload seg)) =
      (word_of_nat (wire_size seg + IPv4Header_LENGTH) :: 16 word)"
    by (rule arg_cong [where f = word_of_nat])
      (simp add: IPv4Header_default_def IPv4Header_LENGTH_def wire_size_def Buffer_size_def)
  then have "wrap_tcp_in_ip a seg = Inr (?d, addressed a seg)"
    using bl(1) unfolding wrap_tcp_in_ip_def Let_def IPv4Datagram_default_def addressed_fields
    by (simp add: h_def)
  moreover have "unat (word_of_nat (wire_size seg + IPv4Header_LENGTH) :: 16 word) = wire_size seg + IPv4Header_LENGTH"
    unfolding unat_of_nat using assms(2) by (intro mod_less) simp
  then have "dgram_ok ?d" using bl(2,4)
    by (simp add: dgram_ok_def ip_header_ok_def h_def IPv4Header_default_def IPv4Header_LENGTH_def)
  moreover have "ih_src h = ad_ip (fc_source (fa_cfg a))" "ih_dst h = ad_ip (fc_destination (fa_cfg a))" "ih_proto h = PROTO_TCP"
    by (simp_all add: h_def IPv4Header_default_def)
  ultimately show ?thesis using bl(3,5) by (intro exI conjI) (assumption | simp only: IPv4Datagram.select_convs)+
qed

text \<open>What the receiving adapter makes of such a datagram, and of any datagram.\<close>

lemma unwrap_tcp_in_ip_safe:
  assumes "BufferList_to_Buffer (dg_payload d) = Inr q" "buf_inv q"
  shows "yields (unwrap_tcp_in_ip a d) (\<lambda>(r, a'). if r = None then a' = a else
    \<not> fa_listen a' \<and> buf_inv (sg_payload (the r)) \<and> th_dport (sg_header (the r)) = ad_port (fc_source (fa_cfg a')) \<and>
    th_sport (sg_header (the r)) = ad_port (fc_destination (fa_cfg a')) \<and>
    ad_ip (fc_source (fa_cfg a')) = ih_dst (dg_header d) \<and> ad_ip (fc_destination (fa_cfg a')) = ih_src (dg_header d) \<and>
    (fa_listen a \<longrightarrow> th_syn (sg_header (the r)) \<and> \<not> th_rst (sg_header (the r))) \<and> (\<not> fa_listen a \<longrightarrow> a' = a))"
proof -
  obtain res seg where "TCPSegment_parse TCPSegment_default q (pseudo_cksum (dg_header d)) = Inr (res, seg)"
    "res \<noteq> BadChecksum \<Longrightarrow> buf_inv (sg_payload seg)"
    using TCPSegment_parse_safe [OF assms(2), of TCPSegment_default "pseudo_cksum (dg_header d)"] by (auto elim!: yields_cases)
  with assms(1) show ?thesis by (auto simp: unwrap_tcp_in_ip_def Let_def FdAdapterBase_set_listening_def)
qed

text \<open>The peer, whose source and destination are swapped, gets the segment back from the datagram, however the checksum of
  the IP header was filled in on the way.\<close>

lemma unwrap_wire:
  assumes seg: "seg_ok seg" "wire_size seg + IPv4Header_LENGTH \<le> 65535"
    and b: "\<not> fa_listen b" "fc_source (fa_cfg b) = fc_destination (fa_cfg a)" "fc_destination (fa_cfg b) = fc_source (fa_cfg a)"
    and d: "wrap_tcp_in_ip a seg = Inr (d, addressed a seg)"
    and d': "dg_header d' = (dg_header d)\<lparr>ih_cksum := k\<rparr>" "dg_payload d' = BufferList_of_Buffer q" "buf_inv q" "Buffer_str q = bl_str (dg_payload d)"
  shows "\<exists>seg' c. unwrap_tcp_in_ip b d' = Inr (Some seg', b) \<and> sg_header seg' = (sg_header (addressed a seg))\<lparr>th_cksum := c\<rparr> \<and>
    Buffer_str (sg_payload seg') = Buffer_str (sg_payload seg)"
proof -
  obtain c where h: "ih_proto (dg_header d) = PROTO_TCP"
    "ih_src (dg_header d) = ad_ip (fc_source (fa_cfg a))" "ih_dst (dg_header d) = ad_ip (fc_destination (fa_cfg a))"
    and ck: "cksum_of (pseudo_cksum (dg_header d)) (bl_str (dg_payload d)) = 0"
    and pay: "bl_str (dg_payload d) = header_bytes ((sg_header (addressed a seg))\<lparr>th_cksum := c\<rparr>) @ Buffer_str (sg_payload seg)"
    using wrap_tcp_in_ip_ok [OF seg, of a] d by auto
  let ?s = "(addressed a seg)\<lparr>sg_header := (sg_header (addressed a seg))\<lparr>th_cksum := c\<rparr>\<rparr>"
  have q: "Buffer_str q = header_bytes (sg_header ?s) @ Buffer_str (sg_payload ?s)"
    using d'(4) pay by (simp add: addressed_def)
  have "length (Buffer_str q) < two64" using d'(3) by (auto simp: buf_inv_def Buffer_str_def split: option.splits)
  then obtain seg' where "TCPSegment_parse TCPSegment_default q (pseudo_cksum (dg_header d)) = Inr (NoError, seg')"
    "sg_header seg' = sg_header ?s" "Buffer_str (sg_payload seg') = Buffer_str (sg_payload seg)"
    using TCPSegment_parse_wire [of ?s "pseudo_cksum (dg_header d)" q TCPSegment_default] q ck pay d'(3) addressed_ok(1) [OF seg(1), of a]
    by (auto simp: seg_ok_def addressed_def)
  moreover from this(1,2) have "unwrap_tcp_in_ip b d' = Inr (Some seg', b)"
    using h d'(1,2) b by (simp add: unwrap_tcp_in_ip_def Let_def BufferList_to_Buffer_def BufferList_of_Buffer_def addressed_def)
  ultimately show ?thesis by auto
qed

section \<open>Properties\<close>

text \<open>C7. A segment crosses an IPv4 link: what one end wraps and writes to the wire, the other end, whose source and
  destination are swapped, parses and unwraps to the same segment with the sender's ports in it, up to the checksum field.
  This holds for every header length, flag combination and payload that fits an IPv4 datagram.\<close>

theorem tcp_over_ip_round_trip:
  assumes "seg_ok seg" "wire_size seg + IPv4Header_LENGTH \<le> 65535" "\<not> fa_listen b"
    and "fc_source (fa_cfg b) = fc_destination (fa_cfg a)" "fc_destination (fa_cfg b) = fc_source (fa_cfg a)"
  shows "\<exists>d bl d' seg' c. wrap_tcp_in_ip a seg = Inr (d, addressed a seg) \<and> IPv4Datagram_serialize d = Inr bl \<and>
    IPv4Datagram_parse IPv4Datagram_default (Buffer_of (BufferList_concatenate bl)) = Inr (NoError, d') \<and>
    unwrap_tcp_in_ip b d' = Inr (Some seg', b) \<and> sg_header seg' = (sg_header (addressed a seg))\<lparr>th_cksum := c\<rparr> \<and>
    Buffer_str (sg_payload seg') = Buffer_str (sg_payload seg)"
proof -
  obtain d where d: "wrap_tcp_in_ip a seg = Inr (d, addressed a seg)" "dgram_ok d" using wrap_tcp_in_ip_ok [OF assms(1,2)] by blast
  obtain bl k where bl: "IPv4Datagram_serialize d = Inr bl"
    "bl_str bl = ip_header_bytes ((dg_header d)\<lparr>ih_cksum := k\<rparr>) @ bl_str (dg_payload d)"
    "length (bl_str bl) = unat (ih_len (dg_header d))" "cksum_of 0 (ip_header_bytes ((dg_header d)\<lparr>ih_cksum := k\<rparr>)) = 0"
    using IPv4Datagram_serialize_ok [OF d(2)] by blast
  have lt: "length (bl_str bl) < 65536" unfolding bl(3) using unsigned_less [where 'a = nat, of "ih_len (dg_header d)"] by simp
  obtain d' q where d': "IPv4Datagram_parse IPv4Datagram_default (Buffer_of (bl_str bl)) = Inr (NoError, d')"
    "dg_header d' = (dg_header d)\<lparr>ih_cksum := k\<rparr>" "dg_payload d' = BufferList_of_Buffer q" "buf_inv q" "Buffer_str q = bl_str (dg_payload d)"
    using IPv4Datagram_parse_wire [of "Buffer_of (bl_str bl)" "(dg_header d)\<lparr>ih_cksum := k\<rparr>" "bl_str (dg_payload d)" IPv4Datagram_default]
      bl(2,4) lt d(2) by (auto simp: dgram_ok_def ip_header_ok_def)
  from unwrap_wire [OF assms d(1) d'(2-5)] d(1) bl(1) d'(1) show ?thesis unfolding bl_concatenate by blast
qed

theorem tcp_over_ip_round_trip_witness:
  "\<exists>d bl d' seg'. let seg = \<lparr>sg_header = TCPHeader_default\<lparr>th_syn := True\<rparr>, sg_payload = Buffer_of [1, 2, 3]\<rparr>;
      a = FdAdapterBase_default\<lparr>fa_cfg := FdAdapterConfig_default\<lparr>fc_source := \<lparr>ad_ip = 1, ad_port = 80\<rparr>\<rparr>\<rparr>;
      b = FdAdapterBase_default\<lparr>fa_cfg := FdAdapterConfig_default\<lparr>fc_destination := \<lparr>ad_ip = 1, ad_port = 80\<rparr>\<rparr>\<rparr>
    in wrap_tcp_in_ip a seg = Inr (d, addressed a seg) \<and> IPv4Datagram_serialize d = Inr bl \<and>
      IPv4Datagram_parse IPv4Datagram_default (Buffer_of (BufferList_concatenate bl)) = Inr (NoError, d') \<and>
      unwrap_tcp_in_ip b d' = Inr (Some seg', b) \<and> Buffer_str (sg_payload seg') = [1, 2, 3]"
proof -
  let ?seg = "\<lparr>sg_header = TCPHeader_default\<lparr>th_syn := True\<rparr>, sg_payload = Buffer_of [1, 2, 3]\<rparr>"
  let ?a = "FdAdapterBase_default\<lparr>fa_cfg := FdAdapterConfig_default\<lparr>fc_source := \<lparr>ad_ip = 1, ad_port = 80\<rparr>\<rparr>\<rparr>"
  let ?b = "FdAdapterBase_default\<lparr>fa_cfg := FdAdapterConfig_default\<lparr>fc_destination := \<lparr>ad_ip = 1, ad_port = 80\<rparr>\<rparr>\<rparr>"
  have "seg_ok ?seg" "wire_size ?seg + IPv4Header_LENGTH \<le> 65535"
    by (simp_all add: seg_ok_def wire_size_def TCPHeader_default_def TCPHeader_LENGTH_def IPv4Header_LENGTH_def)
  from tcp_over_ip_round_trip [OF this, of ?b ?a] show ?thesis
    by (simp add: Let_def FdAdapterBase_default_def FdAdapterConfig_default_def) blast
qed

text \<open>C22. The adapter filters what it hands on: a datagram with a payload in one buffer never makes it throw; a segment
  it returns carries the ports and came from and for the addresses of the connection, which a listening adapter takes from
  a segment with SYN and without RST; when it returns nothing, its configuration is untouched and it goes on listening.\<close>

theorem unwrap_tcp_in_ip_filters:
  assumes "buf_inv q"
  shows "case unwrap_tcp_in_ip a (\<lparr>dg_header = h, dg_payload = BufferList_of_Buffer q\<rparr>) of
      Inl _ \<Rightarrow> False
    | Inr (None, a') \<Rightarrow> a' = a
    | Inr (Some seg, a') \<Rightarrow> \<not> fa_listen a' \<and>
        fc_source (fa_cfg a') = \<lparr>ad_ip = ih_dst h, ad_port = th_dport (sg_header seg)\<rparr> \<and>
        fc_destination (fa_cfg a') = \<lparr>ad_ip = ih_src h, ad_port = th_sport (sg_header seg)\<rparr> \<and>
        (if fa_listen a then th_syn (sg_header seg) \<and> \<not> th_rst (sg_header seg) else a' = a)"
proof -
  let ?d = "\<lparr>dg_header = h, dg_payload = BufferList_of_Buffer q\<rparr>"
  have "BufferList_to_Buffer (dg_payload ?d) = Inr q" by (simp add: BufferList_to_Buffer_def BufferList_of_Buffer_def)
  from unwrap_tcp_in_ip_safe [OF this assms, of a] show ?thesis
    by (auto elim!: yields_cases split: option.splits if_splits)
qed

theorem unwrap_tcp_in_ip_filters_witness:
  "unwrap_tcp_in_ip FdAdapterBase_default \<lparr>dg_header = IPv4Header_default, dg_payload = BufferList_of_Buffer (Buffer_of [1])\<rparr>
     \<noteq> Inl OutOfBounds"
  using unwrap_tcp_in_ip_filters [of "Buffer_of [1]" FdAdapterBase_default IPv4Header_default] by auto

end
