(* ===== verification/File_Descriptor.thy ===== *)
theory File_Descriptor
  imports TCP_Over_IP
begin

text \<open>
  \<open>FileDescriptor\<close> of \<open>src/libsponge/util/file_descriptor.hh\<close> and \<open>file_descriptor.cc\<close>, and \<open>SystemCall\<close> of \<open>util.cc\<close>. The
  kernel is not part of the program: it is the argument \<open>K\<close>, a record of system calls over a kernel state that the operations pass
  on. A system call gives its return value, the value of \<open>errno\<close> and what it stored in the caller's memory.
\<close>

section \<open>The kernel\<close>

text \<open>A file descriptor that is polled, and what is found: the bits of \<open>revents\<close> that the event loop looks at.\<close>

datatype Direction = In | Out

record pollfd =
  pf_fd :: int
  pf_events :: "Direction option"

record revents =
  re_in :: bool
  re_out :: bool
  re_err :: bool
  re_nval :: bool
  re_hup :: bool

record 'k kernel =
  sys_read :: "int \<Rightarrow> size_t \<Rightarrow> 'k \<Rightarrow> (int \<times> int \<times> bytes) \<times> 'k"
  sys_writev :: "int \<Rightarrow> bytes \<Rightarrow> 'k \<Rightarrow> (int \<times> int) \<times> 'k"
  sys_close :: "int \<Rightarrow> 'k \<Rightarrow> (int \<times> int) \<times> 'k"
  sys_getfl :: "int \<Rightarrow> 'k \<Rightarrow> (int \<times> int) \<times> 'k"
  sys_setfl :: "int \<Rightarrow> int \<Rightarrow> 'k \<Rightarrow> (int \<times> int) \<times> 'k"
  sys_shutdown :: "int \<Rightarrow> int \<Rightarrow> 'k \<Rightarrow> (int \<times> int) \<times> 'k"
  sys_recvfrom :: "int \<Rightarrow> size_t \<Rightarrow> 'k \<Rightarrow> (int \<times> int \<times> Address \<times> bytes) \<times> 'k"
  sys_sendmsg :: "int \<Rightarrow> Address option \<Rightarrow> bytes \<Rightarrow> 'k \<Rightarrow> (int \<times> int) \<times> 'k"
  sys_poll :: "pollfd list \<Rightarrow> int \<Rightarrow> 'k \<Rightarrow> (int \<times> int \<times> revents list) \<times> 'k"
  sys_socket :: "int \<Rightarrow> int \<Rightarrow> 'k \<Rightarrow> (int \<times> int) \<times> 'k"
  sys_socketpair :: "int \<Rightarrow> int \<Rightarrow> 'k \<Rightarrow> (int \<times> int \<times> int \<times> int) \<times> 'k"
  sys_getsockopt :: "int \<Rightarrow> int \<Rightarrow> int \<Rightarrow> 'k \<Rightarrow> (int \<times> int \<times> int \<times> size_t) \<times> 'k"
  sys_setsockopt :: "int \<Rightarrow> int \<Rightarrow> int \<Rightarrow> int \<Rightarrow> 'k \<Rightarrow> (int \<times> int) \<times> 'k"
  sys_getsockname :: "int \<Rightarrow> 'k \<Rightarrow> (int \<times> int \<times> Address) \<times> 'k"
  sys_getpeername :: "int \<Rightarrow> 'k \<Rightarrow> (int \<times> int \<times> Address) \<times> 'k"
  sys_bind :: "int \<Rightarrow> Address \<Rightarrow> 'k \<Rightarrow> (int \<times> int) \<times> 'k"
  sys_connect :: "int \<Rightarrow> Address \<Rightarrow> 'k \<Rightarrow> (int \<times> int) \<times> 'k"
  sys_listen :: "int \<Rightarrow> int \<Rightarrow> 'k \<Rightarrow> (int \<times> int) \<times> 'k"
  sys_accept :: "int \<Rightarrow> 'k \<Rightarrow> (int \<times> int) \<times> 'k"
  sys_open :: "string \<Rightarrow> int \<Rightarrow> 'k \<Rightarrow> (int \<times> int) \<times> 'k"
  sys_tunsetiff :: "int \<Rightarrow> string \<Rightarrow> int \<Rightarrow> 'k \<Rightarrow> (int \<times> int) \<times> 'k"
  sys_clock :: "'k \<Rightarrow> nat \<times> 'k"
  sys_random :: "'k \<Rightarrow> 32 word \<times> 'k"

text \<open>The return value is passed as an \<open>int\<close>, whatever the type the call has.\<close>

definition to_int :: "int \<Rightarrow> int" where
  "to_int n = signed_take_bit 31 n"

definition SystemCall :: "string \<Rightarrow> int \<Rightarrow> int \<Rightarrow> int \<Rightarrow> int result" where
  "SystemCall attempt return_value errno errno_mask =
     (if return_value \<ge> 0 \<or> errno = errno_mask then Inr return_value else Inl (UnixError attempt errno))"

section \<open>FileDescriptor\<close>

record FDWrapper =
  fd_fd :: int
  fd_eof :: bool
  fd_closed :: bool
  fd_read_count :: "32 word"
  fd_write_count :: "32 word"

text \<open>The message names the number, in the decimal digits of \<open>std::to_string\<close>.\<close>

fun to_string_nat :: "nat \<Rightarrow> string" where
  "to_string_nat n = (if n < 10 then [char_of (48 + n)] else to_string_nat (n div 10) @ [char_of (48 + n mod 10)])"

declare to_string_nat.simps [simp del]

definition FDWrapper_new :: "int \<Rightarrow> FDWrapper result" where
  "FDWrapper_new fd =
     (if fd < 0 then Inl (RuntimeError (''invalid fd number:-'' @ to_string_nat (nat (- fd))))
      else Inr \<lparr>fd_fd = fd, fd_eof = False, fd_closed = False, fd_read_count = 0, fd_write_count = 0\<rparr>)"

definition FDWrapper_close :: "'k kernel \<Rightarrow> FDWrapper \<Rightarrow> 'k \<Rightarrow> (FDWrapper \<times> 'k) result" where
  "FDWrapper_close K fd k =
     (let ((return_value, errno), k) = sys_close K (fd_fd fd) k in
      and_then (SystemCall ''close'' (to_int return_value) errno 0) (\<lambda>_.
      Inr (fd\<lparr>fd_eof := True, fd_closed := True\<rparr>, k)))"

text \<open>The destructor closes a descriptor that is open, and swallows the exception of a close that fails.\<close>

definition FDWrapper_destroy :: "'k kernel \<Rightarrow> FDWrapper \<Rightarrow> 'k \<Rightarrow> 'k" where
  "FDWrapper_destroy K fd k = (if fd_closed fd then k else snd (sys_close K (fd_fd fd) k))"

definition register_read :: "FDWrapper \<Rightarrow> FDWrapper" where
  "register_read fd = fd\<lparr>fd_read_count := fd_read_count fd + 1\<rparr>"

definition register_write :: "FDWrapper \<Rightarrow> FDWrapper" where
  "register_write fd = fd\<lparr>fd_write_count := fd_write_count fd + 1\<rparr>"

text \<open>\<open>std::string::resize\<close> of what a call stored, to the length it returned.\<close>

definition resize_to :: "bytes \<Rightarrow> int \<Rightarrow> bytes result" where
  "resize_to str n = (if n < 0 then Inl LengthError else Inr (string_resize str (nat n)))"

definition READ_BUFFER_SIZE :: size_t where
  "READ_BUFFER_SIZE = 1024 * 1024"

definition FileDescriptor_read :: "'k kernel \<Rightarrow> FDWrapper \<Rightarrow> size_t \<Rightarrow> 'k \<Rightarrow> (bytes \<times> FDWrapper \<times> 'k) result" where
  "FileDescriptor_read K fd limit k =
     (let size_to_read = min READ_BUFFER_SIZE limit;
          ((return_value, errno, str), k) = sys_read K (fd_fd fd) size_to_read k
      in
      and_then (SystemCall ''read'' (to_int return_value) errno 0) (\<lambda>bytes_read.
      let fd = (if limit > 0 \<and> bytes_read = 0 then fd\<lparr>fd_eof := True\<rparr> else fd) in
      if bytes_read > int size_to_read then Inl (RuntimeError ''read() read more than requested'')
      else and_then (resize_to str bytes_read) (\<lambda>str. Inr (str, register_read fd, k))))"

text \<open>A negative count, which only a failed call with \<open>errno\<close> zero could give, becomes a huge \<open>size_t\<close>.\<close>

definition to_size :: "int \<Rightarrow> size_t" where
  "to_size n = nat (n mod int two64)"

definition iovec_bytes :: "BufferViewList \<Rightarrow> bytes" where
  "iovec_bytes buffer = concat (map fst (BufferViewList_as_iovecs buffer))"

lemma remove_prefix_result:
  assumes "BufferViewList_remove_prefix l n = Inr l'" "n < two64"
  shows "n \<le> length (bv_str l)" "bv_str l' = drop n (bv_str l)" "n = 0 \<Longrightarrow> l' = l"
proof -
  show *: "n \<le> length (bv_str l)" using view_list.discard_short [of l n] assms by force
  show "bv_str l' = drop n (bv_str l)" using view_list.discard_ok [OF _ * assms(2)] assms(1) by auto
  show "l' = l" if "n = 0" using that assms(1) by (cases "bv_views l") (auto simp: BufferViewList_remove_prefix_def)
qed

lemma to_int_range: "- 2147483648 \<le> to_int n" "to_int n < 2147483648"
  unfolding to_int_def using signed_take_bit_int_greater_eq_minus_exp [of 31 n] signed_take_bit_int_less_exp [of 31 n] by simp_all

lemma to_int_id [simp]: "0 \<le> n \<Longrightarrow> n < 2147483648 \<Longrightarrow> to_int n = n"
  unfolding to_int_def by (simp add: signed_take_bit_int_eq_self_iff)

lemma SystemCall_ok [simp]: "0 \<le> n \<Longrightarrow> SystemCall attempt n errno m0 = Inr n"
  by (simp add: SystemCall_def)

lemma SystemCall_result: "SystemCall attempt n errno m0 = Inr m \<Longrightarrow> m = n"
  by (auto simp: SystemCall_def split: if_splits)

lemma to_size_less [simp]: "to_size n < two64"
proof -
  have "n mod int two64 < int two64" by (rule pos_mod_bound) simp
  then show ?thesis unfolding to_size_def by linarith
qed

lemma to_size_id [simp]: "0 \<le> n \<Longrightarrow> n < int two64 \<Longrightarrow> to_size n = nat n"
  by (simp add: to_size_def)

lemma to_size_0: "- 2147483648 \<le> n \<Longrightarrow> n < 2147483648 \<Longrightarrow> to_size n = 0 \<Longrightarrow> n = 0"
proof -
  assume a: "- 2147483648 \<le> n" "n < 2147483648" "to_size n = 0"
  have "0 \<le> n mod int two64" by (rule pos_mod_sign) simp
  with a(3) have "n mod int two64 = 0" unfolding to_size_def by simp
  then have "int two64 dvd n" by (rule mod_0_imp_dvd)
  with a(1,2) show "n = 0" using zdvd_imp_le [of "int two64" n] zdvd_imp_le [of "int two64" "- n"] by fastforce
qed

text \<open>The loop of \<open>write\<close>. A round that returns without a fault has written something, or there was nothing to write.\<close>

function write_loop :: "'k kernel \<Rightarrow> bool \<Rightarrow> FDWrapper \<Rightarrow> BufferViewList \<Rightarrow> size_t \<Rightarrow> 'k \<Rightarrow> (size_t \<times> FDWrapper \<times> 'k) result" where
  "write_loop K write_all fd buffer total_bytes_written k =
     (let ((return_value, errno), k) = sys_writev K (fd_fd fd) (iovec_bytes buffer) k in
      and_then (SystemCall ''writev'' (to_int return_value) errno 0) (\<lambda>bytes_written.
      if bytes_written = 0 \<and> BufferViewList_size buffer \<noteq> 0 then
        Inl (RuntimeError ''write returned 0 given non-empty input buffer'')
      else if bytes_written > signed_take_bit 63 (int (BufferViewList_size buffer)) then
        Inl (RuntimeError ''write wrote more than length of input buffer'')
      else
        (let fd = register_write fd in
         and_then (BufferViewList_remove_prefix buffer (to_size bytes_written)) (\<lambda>buffer.
         let total_bytes_written = add64 total_bytes_written (to_size bytes_written) in
         if write_all \<and> BufferViewList_size buffer \<noteq> 0
         then write_loop K write_all fd buffer total_bytes_written k
         else Inr (total_bytes_written, fd, k)))))"
  by pat_completeness auto

termination
proof (relation "measure (\<lambda>(K, write_all, fd, buffer, total, k). length (bv_str buffer))", goal_cases)
  case (2 K write_all fd buffer total k x xa k1 ret errno k2 n fd' buffer' total')
  then have n: "n = to_int ret" by (auto dest: SystemCall_result)
  have r: "to_size n \<le> length (bv_str buffer)" "bv_str buffer' = drop (to_size n) (bv_str buffer)" "to_size n = 0 \<Longrightarrow> buffer' = buffer"
    using remove_prefix_result [of buffer "to_size n" buffer'] 2 by auto
  have "to_size n \<noteq> 0"
  proof
    assume z: "to_size n = 0"
    with to_size_0 to_int_range [of ret] n have "n = 0" by simp
    with 2 r(3) [OF z] show False by auto
  qed
  with r show ?case by auto
qed simp

declare write_loop.simps [simp del]

definition FileDescriptor_write :: "'k kernel \<Rightarrow> FDWrapper \<Rightarrow> BufferViewList \<Rightarrow> bool \<Rightarrow> 'k \<Rightarrow> (size_t \<times> FDWrapper \<times> 'k) result" where
  "FileDescriptor_write K fd buffer write_all k = write_loop K write_all fd buffer 0 k"

unbundle bit_operations_syntax

definition O_NONBLOCK :: int where
  "O_NONBLOCK = 2048"

definition set_blocking :: "'k kernel \<Rightarrow> FDWrapper \<Rightarrow> bool \<Rightarrow> 'k \<Rightarrow> 'k result" where
  "set_blocking K fd blocking_state k =
     (let ((return_value, errno), k) = sys_getfl K (fd_fd fd) k in
      and_then (SystemCall ''fcntl'' (to_int return_value) errno 0) (\<lambda>flags.
      let flags = (if blocking_state then flags XOR (flags AND O_NONBLOCK) else flags OR O_NONBLOCK);
          ((return_value, errno), k) = sys_setfl K (fd_fd fd) flags k
      in
      and_then (SystemCall ''fcntl'' (to_int return_value) errno 0) (\<lambda>_. Inr k)))"

section \<open>Reading and writing\<close>

lemma FileDescriptor_read_ok:
  assumes "sys_read K (fd_fd fd) (min READ_BUFFER_SIZE limit) k = ((int (length d), errno, d), k')" "length d \<le> min READ_BUFFER_SIZE limit"
  shows "FileDescriptor_read K fd limit k = Inr (d, register_read (fd\<lparr>fd_eof := fd_eof fd \<or> (limit > 0 \<and> d = [])\<rparr>), k')"
proof -
  have "int (length d) < 2147483648" using assms(2) by (simp add: READ_BUFFER_SIZE_def)
  moreover have "\<not> min READ_BUFFER_SIZE limit < length d" using assms(2) by linarith
  ultimately show ?thesis using assms(1) by (simp add: FileDescriptor_read_def resize_to_def string_resize_def Let_def)
qed

text \<open>A call to \<open>writev\<close> on a descriptor that accepts bytes takes a non-empty prefix of what it is offered.\<close>

definition takes_prefix :: "'k kernel \<Rightarrow> int \<Rightarrow> ('k \<Rightarrow> bytes) \<Rightarrow> bool" where
  "takes_prefix K f sent \<longleftrightarrow> (\<forall>bs k. \<exists>n errno k'. sys_writev K f bs k = ((int n, errno), k') \<and> n \<le> length bs \<and> n < two31 \<and>
     (bs \<noteq> [] \<longrightarrow> 0 < n) \<and> sent k' = sent k @ take n bs)"

lemma iovec_bytes_str [simp]: "iovec_bytes buffer = bv_str buffer"
  by (simp add: iovec_bytes_def BufferViewList_as_iovecs_def snoc_fold bv_str_def comp_def)

lemma write_round:
  assumes K: "sys_writev K (fd_fd fd) (bv_str buffer) k = ((int n, errno), k')" "n \<le> length (bv_str buffer)" "n < two31"
      "bv_str buffer \<noteq> [] \<longrightarrow> 0 < n" and len: "length (bv_str buffer) < two63"
  shows "\<exists>buffer'. bv_str buffer' = drop n (bv_str buffer) \<and>
    write_loop K write_all fd buffer tot k =
      (if write_all \<and> n < length (bv_str buffer) then write_loop K write_all (register_write fd) buffer' (add64 tot n) k'
       else Inr (add64 tot n, register_write fd, k'))"
proof -
  obtain buffer' where b: "BufferViewList_remove_prefix buffer n = Inr buffer'" "bv_str buffer' = drop n (bv_str buffer)"
    using view_list.discard_ok [of n buffer] K(2) len by auto
  have sz: "BufferViewList_size buffer = length (bv_str buffer)" "BufferViewList_size buffer' = length (bv_str buffer) - n"
    using len b(2) by simp_all
  have "signed_take_bit 63 (int (length (bv_str buffer))) = int (length (bv_str buffer))"
    using len by (subst signed_take_bit_int_eq_self_iff) simp
  with K b sz len have "write_loop K write_all fd buffer tot k =
      (if write_all \<and> n < length (bv_str buffer) then write_loop K write_all (register_write fd) buffer' (add64 tot n) k'
       else Inr (add64 tot n, register_write fd, k'))"
    by (subst write_loop.simps) (auto simp: Let_def)
  with b(2) show ?thesis by blast
qed

lemma register_fields [simp]:
  "fd_fd (register_write fd) = fd_fd fd" "fd_eof (register_write fd) = fd_eof fd" "fd_closed (register_write fd) = fd_closed fd"
  "fd_read_count (register_write fd) = fd_read_count fd" "fd_write_count (register_write fd) = fd_write_count fd + 1"
  "fd_fd (register_read fd) = fd_fd fd" "fd_eof (register_read fd) = fd_eof fd" "fd_closed (register_read fd) = fd_closed fd"
  "fd_read_count (register_read fd) = fd_read_count fd + 1" "fd_write_count (register_read fd) = fd_write_count fd"
  by (simp_all add: register_write_def register_read_def)

lemma write_loop_all:
  assumes "takes_prefix K (fd_fd fd) sent" "length (bv_str buffer) < two63" "tot + length (bv_str buffer) < two64"
  shows "\<exists>fd' k'. write_loop K True fd buffer tot k = Inr (tot + length (bv_str buffer), fd', k') \<and> sent k' = sent k @ bv_str buffer \<and>
    fd_fd fd' = fd_fd fd"
  using assms
proof (induction "length (bv_str buffer)" arbitrary: fd buffer tot k rule: less_induct)
  case less
  let ?b = "bv_str buffer"
  obtain n errno k1 where n: "sys_writev K (fd_fd fd) ?b k = ((int n, errno), k1)" "n \<le> length ?b" "n < two31"
    "?b \<noteq> [] \<longrightarrow> 0 < n" "sent k1 = sent k @ take n ?b" using less.prems(1) unfolding takes_prefix_def by blast
  obtain buffer' where b: "bv_str buffer' = drop n ?b"
    "write_loop K True fd buffer tot k = (if True \<and> n < length ?b then write_loop K True (register_write fd) buffer' (add64 tot n) k1
       else Inr (add64 tot n, register_write fd, k1))"
    using write_round [OF n(1-4) less.prems(2), of True tot] by blast
  have t: "add64 tot n = tot + n" using n(2) less.prems(3) by simp
  show ?case
  proof (cases "n < length ?b")
    case True
    then have "length (bv_str buffer') < length ?b" using b(1) n(4) by (cases ?b) auto
    with less.hyps [of buffer' "register_write fd" "tot + n" k1] less.prems n(2) b(1) obtain fd' k' where
      "write_loop K True (register_write fd) buffer' (tot + n) k1 = Inr (tot + length ?b, fd', k')"
      "sent k' = sent k1 @ drop n ?b" "fd_fd fd' = fd_fd fd" by auto
    with True b(2) t n(5) show ?thesis by simp
  next
    case False
    with n b(2) t show ?thesis by simp
  qed
qed

section \<open>Properties\<close>

text \<open>C17. Writing everything terminates and loses nothing: with a kernel that takes a non-empty prefix of what it is offered, \<open>write\<close>
  with \<open>write_all\<close> returns the length of the buffers, after having handed the kernel exactly their bytes, in order, however the
  kernel cuts them up.\<close>

theorem write_all_complete:
  assumes "takes_prefix K (fd_fd fd) sent" "length (bv_str buffer) < two63"
  shows "\<exists>fd' k'. FileDescriptor_write K fd buffer True k = Inr (length (bv_str buffer), fd', k') \<and> sent k' = sent k @ bv_str buffer"
  using write_loop_all [OF assms, of 0 k] assms(2) by (auto simp: FileDescriptor_write_def)

definition one_byte_kernel :: "bytes kernel" where
  "one_byte_kernel = \<lparr>sys_read = \<lambda>f n k. ((0, 0, []), k), sys_writev = \<lambda>f bs k. ((int (length (take 1 bs)), 0), k @ take 1 bs),
     sys_close = \<lambda>f k. ((0, 0), k), sys_getfl = \<lambda>f k. ((0, 0), k), sys_setfl = \<lambda>f flags k. ((0, 0), k),
     sys_shutdown = \<lambda>f how k. ((0, 0), k), sys_recvfrom = \<lambda>f n k. ((0, 0, \<lparr>ad_ip = 0, ad_port = 0\<rparr>, []), k),
     sys_sendmsg = \<lambda>f a bs k. ((int (length bs), 0), k), sys_poll = \<lambda>fds t k. ((0, 0, []), k),
     sys_socket = \<lambda>d t k. ((3, 0), k), sys_socketpair = \<lambda>d t k. ((0, 0, 4, 5), k), sys_getsockopt = \<lambda>f l n k. ((0, 0, 1, 4), k),
     sys_setsockopt = \<lambda>f l n v k. ((0, 0), k), sys_getsockname = \<lambda>f k. ((0, 0, \<lparr>ad_ip = 0, ad_port = 0\<rparr>), k),
     sys_getpeername = \<lambda>f k. ((0, 0, \<lparr>ad_ip = 0, ad_port = 0\<rparr>), k), sys_bind = \<lambda>f a k. ((0, 0), k), sys_connect = \<lambda>f a k. ((0, 0), k),
     sys_listen = \<lambda>f n k. ((0, 0), k), sys_accept = \<lambda>f k. ((3, 0), k), sys_open = \<lambda>n f k. ((3, 0), k), sys_tunsetiff = \<lambda>f n m k. ((0, 0), k),
     sys_clock = \<lambda>k. (0, k), sys_random = \<lambda>k. (0, k)\<rparr>"

theorem write_all_complete_witness:
  "\<exists>fd' k'. FileDescriptor_write one_byte_kernel \<lparr>fd_fd = 1, fd_eof = False, fd_closed = False, fd_read_count = 0, fd_write_count = 0\<rparr>
     (BufferViewList_of_string [7, 8, 9]) True [] = Inr (3, fd', k') \<and> k' = [7, 8, 9]"
proof -
  have "takes_prefix one_byte_kernel 1 (\<lambda>k. k)"
    unfolding takes_prefix_def
  proof (intro allI)
    fix bs k :: bytes
    show "\<exists>n errno k'. sys_writev one_byte_kernel 1 bs k = ((int n, errno), k') \<and> n \<le> length bs \<and> n < two31 \<and> (bs \<noteq> [] \<longrightarrow> 0 < n) \<and> k' = k @ take n bs"
      by (intro exI [of _ "length (take 1 bs)"] exI [of _ 0] exI [of _ "k @ take 1 bs"]) (cases bs; simp add: one_byte_kernel_def)
  qed
  then show ?thesis using write_all_complete [of one_byte_kernel
      "\<lparr>fd_fd = 1, fd_eof = False, fd_closed = False, fd_read_count = 0, fd_write_count = 0\<rparr>" "\<lambda>k. k" "BufferViewList_of_string [7, 8, 9]" "[]"]
    by (simp add: numeral_3_eq_3)
qed

end
