(* ===== verification/Event_Loop.thy ===== *)
theory Event_Loop
  imports File_Descriptor "HOL-Library.Sublist"
begin

text \<open>
  \<open>EventLoop\<close> of \<open>src/libsponge/util/eventloop.hh\<close> and \<open>eventloop.cc\<close>. A rule holds closures that read and change the objects of
  their owner; the model threads one state through them, the world of the owner, with a view on the kernel state inside it. The
  lemmas show what one turn of the loop does to a world whose rules behave, and that a callback that never serves its descriptor
  is caught.
\<close>

section \<open>Rules\<close>

record 'w Rule =
  ru_fd :: "'w \<Rightarrow> FDWrapper"
  ru_direction :: Direction
  ru_callback :: "'w \<Rightarrow> 'w result"
  ru_interest :: "'w \<Rightarrow> bool result"
  ru_cancel :: "'w \<Rightarrow> 'w result"

definition service_count :: "'w Rule \<Rightarrow> 'w \<Rightarrow> 32 word" where
  "service_count r w = (if ru_direction r = In then fd_read_count (ru_fd r w) else fd_write_count (ru_fd r w))"

definition add_rule :: "'w Rule list \<Rightarrow> ('w \<Rightarrow> FDWrapper) \<Rightarrow> Direction \<Rightarrow> ('w \<Rightarrow> 'w result) \<Rightarrow> ('w \<Rightarrow> bool result) \<Rightarrow> ('w \<Rightarrow> 'w result) \<Rightarrow> 'w Rule list" where
  "add_rule rules fd direction callback interest cancel =
     rules @ [\<lparr>ru_fd = fd, ru_direction = direction, ru_callback = callback, ru_interest = interest, ru_cancel = cancel\<rparr>]"

datatype Result = Success | Timeout | Exit

section \<open>One turn of the loop\<close>

text \<open>Setting up: the rules that are left, what to poll for each of them, and whether there is anything to poll.\<close>

fun poll_setup :: "'w Rule list \<Rightarrow> 'w \<Rightarrow> ('w Rule list \<times> pollfd list \<times> bool \<times> 'w) result" where
  "poll_setup [] w = Inr ([], [], False, w)"
| "poll_setup (this_rule # rules) w =
     (if ru_direction this_rule = In \<and> fd_eof (ru_fd this_rule w) then
        and_then (ru_cancel this_rule w) (poll_setup rules)
      else if fd_closed (ru_fd this_rule w) then
        and_then (ru_cancel this_rule w) (poll_setup rules)
      else
        and_then (ru_interest this_rule w) (\<lambda>interested.
        and_then (poll_setup rules w) (\<lambda>(rules', pollfds, something_to_poll, w').
        Inr (this_rule # rules',
             \<lparr>pf_fd = fd_fd (ru_fd this_rule w), pf_events = (if interested then Some (ru_direction this_rule) else None)\<rparr> # pollfds,
             interested \<or> something_to_poll, w'))))"

definition poll_error :: "revents \<Rightarrow> bool" where
  "poll_error re \<longleftrightarrow> re_err re \<or> re_nval re"

definition poll_ready :: "pollfd \<Rightarrow> revents \<Rightarrow> bool" where
  "poll_ready p re = (case pf_events p of None \<Rightarrow> False | Some In \<Rightarrow> re_in re | Some Out \<Rightarrow> re_out re)"

text \<open>Going through the results: the rules that are left.\<close>

fun poll_results :: "'w Rule list \<Rightarrow> (pollfd \<times> revents) list \<Rightarrow> 'w \<Rightarrow> ('w Rule list \<times> 'w) result" where
  "poll_results [] ps w = Inr ([], w)"
| "poll_results (this_rule # rules) [] w = Inl OutOfBounds"
| "poll_results (this_rule # rules) ((p, re) # ps) w =
     (if poll_error re then Inl (RuntimeError ''EventLoop: error on polled file descriptor'')
      else if re_hup re \<and> pf_events p \<noteq> None \<and> \<not> poll_ready p re then
        and_then (ru_cancel this_rule w) (poll_results rules ps)
      else
        and_then
          (if poll_ready p re then
             (let count_before = service_count this_rule w in
              and_then (ru_callback this_rule w) (\<lambda>w.
              if count_before = service_count this_rule w then
                and_then (ru_interest this_rule w) (\<lambda>interested.
                if interested then Inl (RuntimeError ''EventLoop: busy wait detected: callback did not read/write fd and is still interested'')
                else Inr w)
              else Inr w))
           else Inr w) (\<lambda>w.
        and_then (poll_results rules ps w) (\<lambda>(rules', w'). Inr (this_rule # rules', w'))))"

definition EINTR :: int where
  "EINTR = 4"

definition quiet :: revents where
  "quiet = \<lparr>re_in = False, re_out = False, re_err = False, re_nval = False, re_hup = False\<rparr>"

text \<open>The polled results start out zero. A call to \<open>poll\<close> that fails leaves them so, and an error other than \<open>EINTR\<close> is swallowed.\<close>

definition wait_next_event ::
  "'k kernel \<Rightarrow> ('w \<Rightarrow> 'k) \<Rightarrow> ('k \<Rightarrow> 'w \<Rightarrow> 'w) \<Rightarrow> int \<Rightarrow> 'w Rule list \<Rightarrow> 'w \<Rightarrow> (Result \<times> 'w Rule list \<times> 'w) result" where
  "wait_next_event K get_kernel set_kernel timeout_ms rules w =
     and_then (poll_setup rules w) (\<lambda>(rules, pollfds, something_to_poll, w).
     if \<not> something_to_poll then Inr (Exit, rules, w)
     else
       (let ((return_value, errno, res), k) = sys_poll K pollfds timeout_ms (get_kernel w);
            w = set_kernel k w
        in
        case SystemCall ''poll'' (to_int return_value) errno 0 of
          Inr n \<Rightarrow>
            if n = 0 then Inr (Timeout, rules, w)
            else and_then (poll_results rules (zip pollfds res) w) (\<lambda>(rules, w). Inr (Success, rules, w))
        | Inl (UnixError _ e) \<Rightarrow>
            if e = EINTR then Inr (Exit, rules, w)
            else and_then (poll_results rules (zip pollfds (replicate (length pollfds) quiet)) w) (\<lambda>(rules, w). Inr (Success, rules, w))
        | Inl f \<Rightarrow> Inl f))"

section \<open>What a turn does\<close>

definition hung_up :: "pollfd \<Rightarrow> revents \<Rightarrow> bool" where
  "hung_up p re \<longleftrightarrow> re_hup re \<and> pf_events p \<noteq> None \<and> \<not> poll_ready p re"

definition effect :: "'w Rule \<times> pollfd \<times> revents \<Rightarrow> 'w \<Rightarrow> 'w result" where
  "effect x = (case x of (r, p, re) \<Rightarrow> if hung_up p re then ru_cancel r else if poll_ready p re then ru_callback r else Inr)"

primrec in_order :: "('w \<Rightarrow> 'w result) list \<Rightarrow> 'w \<Rightarrow> 'w result" where
  "in_order [] w = Inr w"
| "in_order (f # fs) w = and_then (f w) (in_order fs)"

lemma poll_results_step:
  assumes "poll_results (r # rules) ps w = Inr (rules', w')"
  shows "\<exists>p re qs w1 rs. ps = (p, re) # qs \<and> \<not> poll_error re \<and> effect (r, p, re) w = Inr w1 \<and> poll_results rules qs w1 = Inr (rs, w') \<and>
    rules' = (if hung_up p re then rs else r # rs) \<and>
    (poll_ready p re \<and> \<not> hung_up p re \<longrightarrow> service_count r w1 \<noteq> service_count r w \<or> ru_interest r w1 = Inr False)"
proof -
  obtain p re qs where ps: "ps = (p, re) # qs" using assms by (cases ps) auto
  show ?thesis
  proof (cases "hung_up p re")
    case True
    with assms show ?thesis unfolding ps by (auto simp: and_then_Inr_iff effect_def hung_up_def split: if_splits)
  next
    case False
    with assms show ?thesis unfolding ps
      by (cases "poll_ready p re") (auto simp: and_then_Inr_iff effect_def hung_up_def Let_def split: if_splits)
  qed
qed

lemma poll_results_effects:
  "poll_results rules ps w = Inr (rules', w') \<Longrightarrow> length rules \<le> length ps \<and> (\<forall>(r, p, re)\<in>set (zip rules ps). \<not> poll_error re) \<and>
    rules' = map fst (filter (\<lambda>(r, p, re). \<not> hung_up p re) (zip rules ps)) \<and> in_order (map effect (zip rules ps)) w = Inr w'"
proof (induction rules arbitrary: ps w rules')
  case (Cons r rules)
  from poll_results_step [OF Cons.prems] obtain p re qs w1 rs where s: "ps = (p, re) # qs" "\<not> poll_error re" "effect (r, p, re) w = Inr w1"
    "poll_results rules qs w1 = Inr (rs, w')" "rules' = (if hung_up p re then rs else r # rs)" by blast
  from Cons.IH [OF s(4)] s show ?case by simp
qed simp

lemma poll_setup_subseq: "poll_setup rules w = Inr (rules', ps, b, w') \<Longrightarrow> subseq rules' rules \<and> length ps = length rules'"
  by (induction rules w arbitrary: rules' ps b w' rule: poll_setup.induct) (fastforce simp: and_then_Inr_iff split: if_splits)+

lemma poll_results_subseq: "poll_results rules ps w = Inr (rules', w') \<Longrightarrow> subseq rules' rules"
proof (induction rules arbitrary: ps w rules')
  case (Cons r rules)
  from poll_results_step [OF Cons.prems] Cons.IH show ?case by (auto split: if_splits)
qed simp

lemma turn_ends:
  assumes "wait_next_event K get_kernel set_kernel timeout_ms rules w = Inr (res, rules', w')"
    and s: "poll_setup rules w = Inr (rules1, ps, b, w1)" and p: "sys_poll K ps timeout_ms (get_kernel w1) = ((ret, errno, found), k)"
  shows "w' = w1 \<and> rules' = rules1 \<or> w' = set_kernel k w1 \<and> rules' = rules1 \<or> (\<exists>qs. poll_results rules1 qs (set_kernel k w1) = Inr (rules', w'))"
proof (cases b)
  case False
  with assms(1) s show ?thesis by (simp add: wait_next_event_def)
next
  case True
  then have e: "wait_next_event K get_kernel set_kernel timeout_ms rules w = (case SystemCall ''poll'' (to_int ret) errno 0 of
      Inr n \<Rightarrow> if n = 0 then Inr (Timeout, rules1, set_kernel k w1)
        else and_then (poll_results rules1 (zip ps found) (set_kernel k w1)) (\<lambda>(rules, w). Inr (Success, rules, w))
    | Inl (UnixError _ e) \<Rightarrow> if e = EINTR then Inr (Exit, rules1, set_kernel k w1)
        else and_then (poll_results rules1 (zip ps (replicate (length ps) quiet)) (set_kernel k w1)) (\<lambda>(rules, w). Inr (Success, rules, w))
    | Inl f \<Rightarrow> Inl f)"
    unfolding wait_next_event_def s and_then.simps prod.case p Let_def by simp
  note e' = e [symmetric, unfolded assms(1)]
  show ?thesis
  proof (cases "to_int ret \<ge> 0 \<or> errno = 0")
    case True
    with e' show ?thesis by (auto simp: SystemCall_def and_then_Inr_iff split: if_splits)
  next
    case False
    with e' show ?thesis by (auto simp: SystemCall_def and_then_Inr_iff split: if_splits)
  qed
qed

section \<open>Rules that behave\<close>

text \<open>
  What a client owes the loop, state by state: \<open>may r w\<close> says that the callback of \<open>r\<close> may be called in the world \<open>w\<close>, \<open>may_cancel r w\<close>
  that the rule may be cancelled. A callback is called on what was found before the callbacks of earlier rules ran, so that
  the rule's interest may be gone by then.
\<close>

fun setup_admissible :: "('w Rule \<Rightarrow> 'w \<Rightarrow> bool) \<Rightarrow> 'w Rule list \<Rightarrow> 'w \<Rightarrow> bool" where
  "setup_admissible may_cancel [] w \<longleftrightarrow> True"
| "setup_admissible may_cancel (r # rules) w \<longleftrightarrow>
     (if ru_direction r = In \<and> fd_eof (ru_fd r w) \<or> fd_closed (ru_fd r w)
      then may_cancel r w \<and> (\<forall>w'. ru_cancel r w = Inr w' \<longrightarrow> setup_admissible may_cancel rules w')
      else setup_admissible may_cancel rules w)"

fun results_admissible :: "('w Rule \<Rightarrow> 'w \<Rightarrow> bool) \<Rightarrow> ('w Rule \<Rightarrow> 'w \<Rightarrow> bool) \<Rightarrow> 'w Rule list \<Rightarrow> (pollfd \<times> revents) list \<Rightarrow> 'w \<Rightarrow> bool" where
  "results_admissible may may_cancel [] ps w \<longleftrightarrow> True"
| "results_admissible may may_cancel (r # rules) [] w \<longleftrightarrow> False"
| "results_admissible may may_cancel (r # rules) ((p, re) # ps) w \<longleftrightarrow> \<not> poll_error re \<and>
     (hung_up p re \<longrightarrow> may_cancel r w) \<and> (poll_ready p re \<longrightarrow> may r w) \<and>
     (\<forall>w'. effect (r, p, re) w = Inr w' \<longrightarrow> results_admissible may may_cancel rules ps w')"

definition turn_admissible ::
  "'k kernel \<Rightarrow> ('w \<Rightarrow> 'k) \<Rightarrow> ('k \<Rightarrow> 'w \<Rightarrow> 'w) \<Rightarrow> ('w Rule \<Rightarrow> 'w \<Rightarrow> bool) \<Rightarrow> ('w Rule \<Rightarrow> 'w \<Rightarrow> bool) \<Rightarrow> int \<Rightarrow> 'w Rule list \<Rightarrow> 'w \<Rightarrow> bool" where
  "turn_admissible K get_kernel set_kernel may may_cancel timeout_ms rules w \<longleftrightarrow> setup_admissible may_cancel rules w \<and>
     (\<forall>rules' ps w' ret errno res k. poll_setup rules w = Inr (rules', ps, True, w') \<longrightarrow>
       sys_poll K ps timeout_ms (get_kernel w') = ((ret, errno, res), k) \<longrightarrow>
       (to_int ret < 0 \<longrightarrow> errno \<noteq> 0) \<and> (0 < to_int ret \<longrightarrow> results_admissible may may_cancel rules' (zip ps res) (set_kernel k w')))"

lemma quiet_results: "length rules \<le> length ps \<Longrightarrow> poll_results rules (zip ps (replicate (length ps) quiet)) w = Inr (rules, w)"
proof (induction rules arbitrary: ps)
  case (Cons r rules)
  then obtain p qs where ps: "ps = p # qs" by (cases ps) auto
  have "\<not> poll_ready p quiet" "\<not> poll_error quiet" "\<not> re_hup quiet"
    by (auto simp: poll_ready_def poll_error_def quiet_def split: option.split Direction.split)
  with Cons.IH [of qs] Cons.prems show ?case by (simp add: ps)
qed simp

text \<open>What holds of the world at the end of a turn because no callback and no cancellation breaks it, and polling does not either.\<close>

locale rule_invariant =
  fixes K :: "'k kernel" and get_kernel :: "'w \<Rightarrow> 'k" and set_kernel :: "'k \<Rightarrow> 'w \<Rightarrow> 'w" and R :: "'w Rule set" and inv :: "'w \<Rightarrow> bool"
  assumes callback_keeps: "r \<in> R \<Longrightarrow> inv w \<Longrightarrow> ru_callback r w = Inr w' \<Longrightarrow> inv w'"
    and cancel_keeps: "r \<in> R \<Longrightarrow> inv w \<Longrightarrow> ru_cancel r w = Inr w' \<Longrightarrow> inv w'"
    and poll_keeps: "inv w \<Longrightarrow> sys_poll K ps timeout_ms (get_kernel w) = (x, k) \<Longrightarrow> inv (set_kernel k w)"
begin

lemma setup_keeps: "set rules \<subseteq> R \<Longrightarrow> inv w \<Longrightarrow> poll_setup rules w = Inr (rules', ps, b, w') \<Longrightarrow> inv w'"
proof (induction rules arbitrary: w rules' ps b)
  case (Cons r rules)
  then show ?case by (auto simp: and_then_Inr_iff split: if_splits dest: cancel_keeps)
qed simp

lemma results_keeps: "set rules \<subseteq> R \<Longrightarrow> inv w \<Longrightarrow> poll_results rules ps w = Inr (rules', w') \<Longrightarrow> inv w'"
proof (induction rules arbitrary: ps w rules')
  case (Cons r rules)
  from poll_results_step [OF Cons.prems(3)] obtain p re qs w1 rs where s: "effect (r, p, re) w = Inr w1" "poll_results rules qs w1 = Inr (rs, w')" by blast
  have "inv w1" using s(1) Cons.prems(1,2) callback_keeps [of r w w1] cancel_keeps [of r w w1] by (auto simp: effect_def split: if_splits)
  with Cons.IH [OF _ _ s(2)] Cons.prems(1) show ?case by simp
qed simp

lemma turn_keeps:
  assumes "set rules \<subseteq> R" "inv w" "wait_next_event K get_kernel set_kernel timeout_ms rules w = Inr (res, rules', w')"
  shows "inv w'" "set rules' \<subseteq> R"
proof -
  obtain rules1 ps b w1 where s: "poll_setup rules w = Inr (rules1, ps, b, w1)"
    using assms(3) unfolding wait_next_event_def by (auto simp: and_then_Inr_iff)
  have sub: "subseq rules1 rules" using poll_setup_subseq [OF s] by blast
  have R: "set rules1 \<subseteq> R" using assms(1) list_emb_set [OF sub] by blast
  obtain ret errno found k where p: "sys_poll K ps timeout_ms (get_kernel w1) = ((ret, errno, found), k)" by (metis surj_pair)
  have i: "inv w1" by (rule setup_keeps [OF assms(1,2) s])
  have k: "inv (set_kernel k w1)" by (rule poll_keeps [OF i p])
  have "w' = w1 \<and> rules' = rules1 \<or> w' = set_kernel k w1 \<and> rules' = rules1 \<or> (\<exists>qs. poll_results rules1 qs (set_kernel k w1) = Inr (rules', w'))"
    by (rule turn_ends [OF assms(3) s p])
  then consider "w' = w1" "rules' = rules1" | "w' = set_kernel k w1" "rules' = rules1" | qs where "poll_results rules1 qs (set_kernel k w1) = Inr (rules', w')"
    by blast
  then have "inv w' \<and> set rules' \<subseteq> R"
  proof cases
    case (3 qs)
    have "set rules' \<subseteq> set rules1" using list_emb_set [OF poll_results_subseq [OF 3]] by blast
    with results_keeps [OF R k 3] R show ?thesis by blast
  qed (use i k R in simp_all)
  then show "inv w'" "set rules' \<subseteq> R" by blast+
qed

end

text \<open>And that a turn does not fault, when every rule is called back and cancelled only where it can be.\<close>

locale reactive_rules = rule_invariant K get_kernel set_kernel R inv
  for K :: "'k kernel" and get_kernel :: "'w \<Rightarrow> 'k" and set_kernel :: "'k \<Rightarrow> 'w \<Rightarrow> 'w" and R :: "'w Rule set" and inv :: "'w \<Rightarrow> bool" +
  fixes may :: "'w Rule \<Rightarrow> 'w \<Rightarrow> bool" and may_cancel :: "'w Rule \<Rightarrow> 'w \<Rightarrow> bool"
  assumes interest_ok: "r \<in> R \<Longrightarrow> inv w \<Longrightarrow> \<exists>b. ru_interest r w = Inr b"
    and callback_returns: "r \<in> R \<Longrightarrow> inv w \<Longrightarrow> may r w \<Longrightarrow>
      yields (ru_callback r w) (\<lambda>w'. service_count r w' \<noteq> service_count r w \<or> ru_interest r w' = Inr False)"
    and cancel_returns: "r \<in> R \<Longrightarrow> inv w \<Longrightarrow> may_cancel r w \<Longrightarrow> \<exists>w'. ru_cancel r w = Inr w'"
begin

lemma callback_ok:
  assumes "r \<in> R" "inv w" "may r w"
  shows "yields (ru_callback r w) (\<lambda>w'. inv w' \<and> (service_count r w' \<noteq> service_count r w \<or> ru_interest r w' = Inr False))"
  using callback_returns [OF assms] callback_keeps [OF assms(1,2)] by (auto simp: yields_def)

lemma cancel_ok:
  assumes "r \<in> R" "inv w" "may_cancel r w"
  shows "yields (ru_cancel r w) inv"
  using cancel_returns [OF assms] cancel_keeps [OF assms(1,2)] by (auto simp: yields_def)

lemma setup_safe:
  "set rules \<subseteq> R \<Longrightarrow> inv w \<Longrightarrow> setup_admissible may_cancel rules w \<Longrightarrow>
    yields (poll_setup rules w) (\<lambda>(rules', ps, b, w'). inv w')"
proof (induction rules arbitrary: w)
  case (Cons r rules)
  have r: "r \<in> R" "set rules \<subseteq> R" using Cons.prems(1) by auto
  show ?case
  proof (cases "ru_direction r = In \<and> fd_eof (ru_fd r w) \<or> fd_closed (ru_fd r w)")
    case True
    with Cons.prems(3) have a: "may_cancel r w" "\<forall>w'. ru_cancel r w = Inr w' \<longrightarrow> setup_admissible may_cancel rules w'" by auto
    from cancel_ok [OF r(1) Cons.prems(2) a(1)] obtain w1 where "ru_cancel r w = Inr w1" "inv w1" by (auto elim!: yields_cases)
    with Cons.IH [OF r(2), of w1] a(2) True show ?thesis by auto
  next
    case False
    obtain b where "ru_interest r w = Inr b" using interest_ok [OF r(1) Cons.prems(2)] by blast
    moreover have "setup_admissible may_cancel rules w" using Cons.prems(3) False by auto
    ultimately show ?thesis using Cons.IH [OF r(2) Cons.prems(2)] False by (auto elim!: yields_cases)
  qed
qed simp

lemma results_safe:
  "set rules \<subseteq> R \<Longrightarrow> inv w \<Longrightarrow> results_admissible may may_cancel rules ps w \<Longrightarrow> yields (poll_results rules ps w) (\<lambda>(rules', w'). inv w')"
proof (induction rules arbitrary: ps w)
  case (Cons r rules)
  have r: "r \<in> R" "set rules \<subseteq> R" using Cons.prems(1) by auto
  obtain p re qs where ps: "ps = (p, re) # qs" using Cons.prems(3) by (cases ps) auto
  note a = Cons.prems(3) [unfolded ps results_admissible.simps]
  show ?case
  proof (cases "hung_up p re")
    case True
    with a cancel_ok [OF r(1) Cons.prems(2)] obtain w1 where "ru_cancel r w = Inr w1" "inv w1" by (auto elim!: yields_cases)
    with Cons.IH [OF r(2), of w1 qs] a True show ?thesis by (auto simp: ps effect_def hung_up_def)
  next
    case False
    have "\<exists>w1. effect (r, p, re) w = Inr w1 \<and> inv w1 \<and> (poll_ready p re \<longrightarrow> service_count r w1 \<noteq> service_count r w \<or> ru_interest r w1 = Inr False)"
      using a False callback_ok [OF r(1) Cons.prems(2)] Cons.prems(2) by (auto simp: effect_def elim!: yields_cases)
    then obtain w1 where w1: "effect (r, p, re) w = Inr w1" "inv w1"
      "poll_ready p re \<longrightarrow> service_count r w1 \<noteq> service_count r w \<or> ru_interest r w1 = Inr False" by blast
    obtain rules' w' where "poll_results rules qs w1 = Inr (rules', w')" "inv w'"
      using Cons.IH [OF r(2) w1(2), of qs] a w1(1) by (auto elim!: yields_cases)
    with a False w1 show ?thesis by (auto simp: ps effect_def hung_up_def Let_def split: if_splits)
  qed
qed simp

lemma turn_safe:
  assumes "set rules \<subseteq> R" "inv w" "turn_admissible K get_kernel set_kernel may may_cancel timeout_ms rules w"
  shows "yields (wait_next_event K get_kernel set_kernel timeout_ms rules w) (\<lambda>(res, rules', w'). inv w' \<and> subseq rules' rules)"
proof -
  note a = assms(3) [unfolded turn_admissible_def]
  obtain rules1 ps b w1 where s: "poll_setup rules w = Inr (rules1, ps, b, w1)" "inv w1"
    using setup_safe [OF assms(1,2)] a by (auto elim!: yields_cases)
  have sub: "subseq rules1 rules" "length ps = length rules1" using poll_setup_subseq [OF s(1)] by blast+
  have R: "set rules1 \<subseteq> R" using assms(1) list_emb_set [OF sub(1)] by blast
  obtain ret errno res k where p: "sys_poll K ps timeout_ms (get_kernel w1) = ((ret, errno, res), k)" by (metis surj_pair)
  have w2: "inv (set_kernel k w1)" by (rule poll_keeps [OF s(2) p])
  have h: "b \<Longrightarrow> (to_int ret < 0 \<longrightarrow> errno \<noteq> 0) \<and> (0 < to_int ret \<longrightarrow> results_admissible may may_cancel rules1 (zip ps res) (set_kernel k w1))"
    using a s(1) p by (cases b) simp_all
  consider "\<not> b" | b "to_int ret < 0" "errno \<noteq> 0" | b "to_int ret = 0" | b "0 < to_int ret"
    "results_admissible may may_cancel rules1 (zip ps res) (set_kernel k w1)"
    using h by (cases b; cases "to_int ret < 0"; cases "to_int ret = 0") auto
  then show ?thesis
  proof cases
    case 2
    then show ?thesis using s p w2 sub quiet_results [of rules1 ps] by (simp add: wait_next_event_def SystemCall_def Let_def)
  next
    case 4
    from results_safe [OF R w2 4(3)] obtain rules2 w3 where r: "poll_results rules1 (zip ps res) (set_kernel k w1) = Inr (rules2, w3)" "inv w3"
      by (auto elim!: yields_cases)
    with 4 s p poll_results_subseq [OF r(1)] sub(1) show ?thesis by (auto simp: wait_next_event_def intro: subseq_order.trans)
  qed (use s p w2 sub in \<open>simp_all add: wait_next_event_def\<close>)
qed

end

section \<open>Properties\<close>


definition ready_kernel :: "bytes kernel" where
  "ready_kernel = one_byte_kernel\<lparr>sys_poll := \<lambda>ps t k. ((int (length ps), 0, map (\<lambda>_. quiet\<lparr>re_in := True\<rparr>) ps), k)\<rparr>"

definition counting_rule :: "(FDWrapper \<times> bytes) Rule" where
  "counting_rule = \<lparr>ru_fd = fst, ru_direction = In, ru_callback = (\<lambda>(fd, k). Inr (register_read fd, k)), ru_interest = (\<lambda>_. Inr True), ru_cancel = Inr\<rparr>"


text \<open>A call to \<open>poll\<close> that fails for another reason than a signal is not reported: the turn ends with \<open>Success\<close>, without a callback,
  although the comment on \<open>wait_next_event\<close> promises an exception.\<close>

theorem poll_failure_swallowed:
  assumes "poll_setup rules w = Inr (polled, ps, True, w1)" "sys_poll K ps timeout_ms (get_kernel w1) = ((- 1, errno, res), k)"
    and "errno \<noteq> 0" "errno \<noteq> EINTR"
  shows "wait_next_event K get_kernel set_kernel timeout_ms rules w = Inr (Success, polled, set_kernel k w1)"
proof -
  have "to_int (- 1) = - 1" by (simp add: to_int_def signed_take_bit_int_eq_self_iff)
  with assms poll_setup_subseq [OF assms(1)] quiet_results [of polled ps] show ?thesis by (simp add: wait_next_event_def SystemCall_def)
qed

end
