(* ===== verification/Sockets.thy ===== *)
theory Sockets
  imports File_Descriptor
begin

text \<open>
  \<open>Socket\<close>, \<open>UDPSocket\<close>, \<open>TCPSocket\<close> and \<open>LocalStreamSocket\<close> of \<open>src/libsponge/util/socket.hh\<close> and \<open>socket.cc\<close>, and the devices of
  \<open>tun.hh\<close> and \<open>tun.cc\<close>. The numbers are those of Linux.
\<close>

section \<open>Making sockets\<close>

definition AF_UNIX :: int where "AF_UNIX = 1"

definition AF_INET :: int where "AF_INET = 2"

definition SOCK_STREAM :: int where "SOCK_STREAM = 1"

definition SOCK_DGRAM :: int where "SOCK_DGRAM = 2"

definition SOL_SOCKET :: int where "SOL_SOCKET = 1"

definition SO_REUSEADDR :: int where "SO_REUSEADDR = 2"

definition SO_TYPE :: int where "SO_TYPE = 3"

definition SO_DOMAIN :: int where "SO_DOMAIN = 39"

definition Socket_new :: "'k kernel \<Rightarrow> int \<Rightarrow> int \<Rightarrow> 'k \<Rightarrow> (FDWrapper \<times> 'k) result" where
  "Socket_new K domain type k =
     (let ((return_value, errno), k) = sys_socket K domain type k in
      and_then (SystemCall ''socket'' (to_int return_value) errno 0) (\<lambda>fd.
      and_then (FDWrapper_new fd) (\<lambda>fd. Inr (fd, k))))"

text \<open>A descriptor becomes a socket when its domain and its type are the ones it should have.\<close>

definition Socket_of :: "'k kernel \<Rightarrow> FDWrapper \<Rightarrow> int \<Rightarrow> int \<Rightarrow> 'k \<Rightarrow> (FDWrapper \<times> 'k) result" where
  "Socket_of K fd domain type k =
     (let ((return_value, errno, actual_value, len), k) = sys_getsockopt K (fd_fd fd) SOL_SOCKET SO_DOMAIN k in
      and_then (SystemCall ''getsockopt'' (to_int return_value) errno 0) (\<lambda>_.
      if len \<noteq> 4 \<or> actual_value \<noteq> domain then Inl (RuntimeError ''socket domain mismatch'')
      else
        (let ((return_value, errno, actual_value, len), k) = sys_getsockopt K (fd_fd fd) SOL_SOCKET SO_TYPE k in
         and_then (SystemCall ''getsockopt'' (to_int return_value) errno 0) (\<lambda>_.
         if len \<noteq> 4 \<or> actual_value \<noteq> type then Inl (RuntimeError ''socket type mismatch'')
         else Inr (fd, k)))))"

definition UDPSocket_of :: "'k kernel \<Rightarrow> FDWrapper \<Rightarrow> 'k \<Rightarrow> (FDWrapper \<times> 'k) result" where
  "UDPSocket_of K fd k = Socket_of K fd AF_INET SOCK_DGRAM k"

definition UDPSocket_new :: "'k kernel \<Rightarrow> 'k \<Rightarrow> (FDWrapper \<times> 'k) result" where
  "UDPSocket_new K k = Socket_new K AF_INET SOCK_DGRAM k"

definition TCPSocket_of :: "'k kernel \<Rightarrow> FDWrapper \<Rightarrow> 'k \<Rightarrow> (FDWrapper \<times> 'k) result" where
  "TCPSocket_of K fd k = Socket_of K fd AF_INET SOCK_STREAM k"

definition TCPSocket_new :: "'k kernel \<Rightarrow> 'k \<Rightarrow> (FDWrapper \<times> 'k) result" where
  "TCPSocket_new K k = Socket_new K AF_INET SOCK_STREAM k"

definition LocalStreamSocket_of :: "'k kernel \<Rightarrow> FDWrapper \<Rightarrow> 'k \<Rightarrow> (FDWrapper \<times> 'k) result" where
  "LocalStreamSocket_of K fd k = Socket_of K fd AF_UNIX SOCK_STREAM k"

section \<open>Addresses and connections\<close>

definition get_address ::
  "string \<Rightarrow> (int \<Rightarrow> 'k \<Rightarrow> (int \<times> int \<times> Address) \<times> 'k) \<Rightarrow> FDWrapper \<Rightarrow> 'k \<Rightarrow> (Address \<times> 'k) result" where
  "get_address name_of_function function fd k =
     (let ((return_value, errno, address), k) = function (fd_fd fd) k in
      and_then (SystemCall name_of_function (to_int return_value) errno 0) (\<lambda>_. Inr (address, k)))"

definition local_address :: "'k kernel \<Rightarrow> FDWrapper \<Rightarrow> 'k \<Rightarrow> (Address \<times> 'k) result" where
  "local_address K fd k = get_address ''getsockname'' (sys_getsockname K) fd k"

definition peer_address :: "'k kernel \<Rightarrow> FDWrapper \<Rightarrow> 'k \<Rightarrow> (Address \<times> 'k) result" where
  "peer_address K fd k = get_address ''getpeername'' (sys_getpeername K) fd k"

definition Socket_bind :: "'k kernel \<Rightarrow> FDWrapper \<Rightarrow> Address \<Rightarrow> 'k \<Rightarrow> 'k result" where
  "Socket_bind K fd address k =
     (let ((return_value, errno), k) = sys_bind K (fd_fd fd) address k in
      and_then (SystemCall ''bind'' (to_int return_value) errno 0) (\<lambda>_. Inr k))"

definition Socket_connect :: "'k kernel \<Rightarrow> FDWrapper \<Rightarrow> Address \<Rightarrow> 'k \<Rightarrow> 'k result" where
  "Socket_connect K fd address k =
     (let ((return_value, errno), k) = sys_connect K (fd_fd fd) address k in
      and_then (SystemCall ''connect'' (to_int return_value) errno 0) (\<lambda>_. Inr k))"

definition TCPSocket_listen :: "'k kernel \<Rightarrow> FDWrapper \<Rightarrow> int \<Rightarrow> 'k \<Rightarrow> 'k result" where
  "TCPSocket_listen K fd backlog k =
     (let ((return_value, errno), k) = sys_listen K (fd_fd fd) backlog k in
      and_then (SystemCall ''listen'' (to_int return_value) errno 0) (\<lambda>_. Inr k))"

text \<open>The new socket, and the one that accepted it, which counts a read.\<close>

definition TCPSocket_accept :: "'k kernel \<Rightarrow> FDWrapper \<Rightarrow> 'k \<Rightarrow> (FDWrapper \<times> FDWrapper \<times> 'k) result" where
  "TCPSocket_accept K fd k =
     (let fd = register_read fd;
          ((return_value, errno), k) = sys_accept K (fd_fd fd) k
      in
      and_then (SystemCall ''accept'' (to_int return_value) errno 0) (\<lambda>n.
      and_then (FDWrapper_new n) (\<lambda>accepted.
      and_then (TCPSocket_of K accepted k) (\<lambda>(accepted, k). Inr (accepted, fd, k)))))"

definition Socket_setsockopt :: "'k kernel \<Rightarrow> FDWrapper \<Rightarrow> int \<Rightarrow> int \<Rightarrow> int \<Rightarrow> 'k \<Rightarrow> 'k result" where
  "Socket_setsockopt K fd level option_name option_value k =
     (let ((return_value, errno), k) = sys_setsockopt K (fd_fd fd) level option_name option_value k in
      and_then (SystemCall ''setsockopt'' (to_int return_value) errno 0) (\<lambda>_. Inr k))"

definition set_reuseaddr :: "'k kernel \<Rightarrow> FDWrapper \<Rightarrow> 'k \<Rightarrow> 'k result" where
  "set_reuseaddr K fd k = Socket_setsockopt K fd SOL_SOCKET SO_REUSEADDR 1 k"

section \<open>Shutting down, and datagrams\<close>

definition SHUT_RD :: int where "SHUT_RD = 0"

definition SHUT_WR :: int where "SHUT_WR = 1"

definition SHUT_RDWR :: int where "SHUT_RDWR = 2"

definition Socket_shutdown :: "'k kernel \<Rightarrow> FDWrapper \<Rightarrow> int \<Rightarrow> 'k \<Rightarrow> (FDWrapper \<times> 'k) result" where
  "Socket_shutdown K fd how k =
     (let ((return_value, errno), k) = sys_shutdown K (fd_fd fd) how k in
      and_then (SystemCall ''shutdown'' (to_int return_value) errno 0) (\<lambda>_.
      if how = SHUT_RD then Inr (register_read fd, k)
      else if how = SHUT_WR then Inr (register_write fd, k)
      else if how = SHUT_RDWR then Inr (register_write (register_read fd), k)
      else Inl (RuntimeError ''Socket::shutdown() called with invalid `how`'')))"

record received_datagram =
  rd_source_address :: Address
  rd_payload :: bytes

definition UDPSocket_recv :: "'k kernel \<Rightarrow> FDWrapper \<Rightarrow> size_t \<Rightarrow> 'k \<Rightarrow> (received_datagram \<times> FDWrapper \<times> 'k) result" where
  "UDPSocket_recv K fd mtu k =
     (let ((return_value, errno, source, payload), k) = sys_recvfrom K (fd_fd fd) mtu k in
      and_then (SystemCall ''recvfrom'' (to_int return_value) errno 0) (\<lambda>recv_len.
      if recv_len > int mtu then Inl (RuntimeError ''recvfrom (oversized datagram)'')
      else
        and_then (resize_to payload recv_len) (\<lambda>payload.
        Inr (\<lparr>rd_source_address = source, rd_payload = payload\<rparr>, register_read fd, k))))"

definition sendmsg_helper :: "'k kernel \<Rightarrow> int \<Rightarrow> Address option \<Rightarrow> BufferViewList \<Rightarrow> 'k \<Rightarrow> 'k result" where
  "sendmsg_helper K fd_num destination_address payload k =
     (let ((return_value, errno), k) = sys_sendmsg K fd_num destination_address (iovec_bytes payload) k in
      and_then (SystemCall ''sendmsg'' (to_int return_value) errno 0) (\<lambda>bytes_sent.
      if to_size bytes_sent \<noteq> BufferViewList_size payload then Inl (RuntimeError ''datagram payload too big for sendmsg()'')
      else Inr k))"

definition UDPSocket_sendto :: "'k kernel \<Rightarrow> FDWrapper \<Rightarrow> Address \<Rightarrow> BufferViewList \<Rightarrow> 'k \<Rightarrow> (FDWrapper \<times> 'k) result" where
  "UDPSocket_sendto K fd destination payload k =
     and_then (sendmsg_helper K (fd_fd fd) (Some destination) payload k) (\<lambda>k. Inr (register_write fd, k))"

definition UDPSocket_send :: "'k kernel \<Rightarrow> FDWrapper \<Rightarrow> BufferViewList \<Rightarrow> 'k \<Rightarrow> (FDWrapper \<times> 'k) result" where
  "UDPSocket_send K fd payload k =
     and_then (sendmsg_helper K (fd_fd fd) None payload k) (\<lambda>k. Inr (register_write fd, k))"

section \<open>Devices\<close>

definition CLONEDEV :: string where
  "CLONEDEV = ''/dev/net/tun''"

definition O_RDWR :: int where "O_RDWR = 2"

definition IFF_TUN :: int where "IFF_TUN = 1"

definition IFF_TAP :: int where "IFF_TAP = 2"

definition IFF_NO_PI :: int where "IFF_NO_PI = 4096"

definition IFNAMSIZ :: nat where "IFNAMSIZ = 16"

text \<open>The name that fits in a request: \<open>strncpy\<close> stops at a null character and leaves room for one.\<close>

definition ifr_name :: "string \<Rightarrow> string" where
  "ifr_name devname = take (IFNAMSIZ - 1) (takeWhile (\<lambda>c. c \<noteq> CHR 0x00) devname)"

definition TunTapFD_new :: "'k kernel \<Rightarrow> string \<Rightarrow> bool \<Rightarrow> 'k \<Rightarrow> (FDWrapper \<times> 'k) result" where
  "TunTapFD_new K devname is_tun k =
     (let ((return_value, errno), k) = sys_open K CLONEDEV O_RDWR k in
      and_then (SystemCall ''open'' (to_int return_value) errno 0) (\<lambda>n.
      and_then (FDWrapper_new n) (\<lambda>fd.
      let ((return_value, errno), k) = sys_tunsetiff K (fd_fd fd) (ifr_name devname) ((if is_tun then IFF_TUN else IFF_TAP) OR IFF_NO_PI) k in
      and_then (SystemCall ''ioctl'' (to_int return_value) errno 0) (\<lambda>_. Inr (fd, k)))))"

section \<open>What a socket is\<close>

text \<open>A descriptor passes for a socket exactly when the kernel reports the domain and the type; nothing else about it changes.\<close>

lemma Socket_of_Inr:
  "Socket_of K fd domain type k = Inr (fd', k') \<longleftrightarrow> fd' = fd \<and> (\<exists>ret e k1 ret' e'.
     sys_getsockopt K (fd_fd fd) SOL_SOCKET SO_DOMAIN k = ((ret, e, domain, 4), k1) \<and> (0 \<le> to_int ret \<or> e = 0) \<and>
     sys_getsockopt K (fd_fd fd) SOL_SOCKET SO_TYPE k1 = ((ret', e', type, 4), k') \<and> (0 \<le> to_int ret' \<or> e' = 0))"
  by (auto simp: Socket_of_def SystemCall_def and_then_Inr_iff split: prod.splits if_splits)

text \<open>A turn of the event loop in which a listening socket accepted a connection has served that socket.\<close>

lemma accept_serves:
  "TCPSocket_accept K fd k = Inr (new, fd', k') \<Longrightarrow> fd_read_count fd' = fd_read_count fd + 1 \<and> fd_fd fd' = fd_fd fd \<and>
    fd_read_count new = 0 \<and> \<not> fd_eof new \<and> \<not> fd_closed new \<and> 0 \<le> fd_fd new"
  by (auto simp: TCPSocket_accept_def TCPSocket_of_def Socket_of_Inr FDWrapper_new_def and_then_Inr_iff split: prod.splits if_splits)

lemma ifr_name_length: "length (ifr_name devname) < IFNAMSIZ"
  unfolding ifr_name_def IFNAMSIZ_def by simp

end
