(* ===== verification/Ethernet.thy ===== *)
theory Ethernet
  imports IPv4
begin

text \<open>
  Ethernet frames and ARP messages: \<open>src/libsponge/tcp_helpers/ethernet_header.hh\<close>, \<open>ethernet_header.cc\<close>,
  \<open>ethernet_frame.hh\<close>, \<open>ethernet_frame.cc\<close>, \<open>arp_message.hh\<close> and \<open>arp_message.cc\<close>. An Ethernet address, an
  array of six bytes in the code, is a byte list of length six.
\<close>

section \<open>EthernetHeader\<close>

type_synonym EthernetAddress = bytes

definition ETHERNET_BROADCAST :: EthernetAddress where
  "ETHERNET_BROADCAST = [0xff, 0xff, 0xff, 0xff, 0xff, 0xff]"

record EthernetHeader =
  eh_dst :: EthernetAddress
  eh_src :: EthernetAddress
  eh_type :: "16 word"

definition EthernetHeader_LENGTH :: size_t where
  "EthernetHeader_LENGTH = 14"

definition TYPE_IPv4 :: "16 word" where
  "TYPE_IPv4 = 0x800"

definition TYPE_ARP :: "16 word" where
  "TYPE_ARP = 0x806"

definition EthernetHeader_default :: EthernetHeader where
  "EthernetHeader_default = \<lparr>eh_dst = replicate 6 0, eh_src = replicate 6 0, eh_type = 0\<rparr>"

definition EthernetHeader_parse :: "EthernetHeader \<Rightarrow> NetParser \<Rightarrow> (ParseResult \<times> EthernetHeader \<times> NetParser) result" where
  "EthernetHeader_parse h p =
     (if Buffer_size (np_buffer p) < EthernetHeader_LENGTH then Inr (PacketTooShort, h, p)
      else
        and_then (parse_array NetParser_u8 6 p) (\<lambda>(dst, p).
        and_then (parse_array NetParser_u8 6 p) (\<lambda>(src, p).
        and_then (NetParser_u16 p) (\<lambda>(ty, p).
        Inr (np_error p, h\<lparr>eh_dst := dst, eh_src := src, eh_type := ty\<rparr>, p)))))"

definition EthernetHeader_serialize :: "EthernetHeader \<Rightarrow> bytes" where
  "EthernetHeader_serialize h =
     (let ret = unparse_array NetUnparser_u8 [] (eh_dst h);
          ret = unparse_array NetUnparser_u8 ret (eh_src h)
      in NetUnparser_u16 ret (eh_type h))"

section \<open>EthernetFrame\<close>

record EthernetFrame =
  ef_header :: EthernetHeader
  ef_payload :: BufferList

definition EthernetFrame_default :: EthernetFrame where
  "EthernetFrame_default = \<lparr>ef_header = EthernetHeader_default, ef_payload = \<lparr>bl_buffers = []\<rparr>\<rparr>"

definition EthernetFrame_parse :: "EthernetFrame \<Rightarrow> Buffer \<Rightarrow> (ParseResult \<times> EthernetFrame) result" where
  "EthernetFrame_parse f buffer =
     and_then (EthernetHeader_parse (ef_header f) (NetParser_of buffer)) (\<lambda>(_, header, p).
     Inr (np_error p, f\<lparr>ef_header := header, ef_payload := BufferList_of_Buffer (np_buffer p)\<rparr>))"

definition EthernetFrame_serialize :: "EthernetFrame \<Rightarrow> BufferList" where
  "EthernetFrame_serialize f =
     (let ret = BufferList_append \<lparr>bl_buffers = []\<rparr> (BufferList_of_string (EthernetHeader_serialize (ef_header f)))
      in BufferList_append ret (ef_payload f))"

section \<open>ARPMessage\<close>

record ARPMessage =
  ar_hardware_type :: "16 word"
  ar_protocol_type :: "16 word"
  ar_hardware_address_size :: "8 word"
  ar_protocol_address_size :: "8 word"
  ar_opcode :: "16 word"
  ar_sender_ethernet_address :: EthernetAddress
  ar_sender_ip_address :: "32 word"
  ar_target_ethernet_address :: EthernetAddress
  ar_target_ip_address :: "32 word"

definition ARPMessage_LENGTH :: size_t where
  "ARPMessage_LENGTH = 28"

definition TYPE_ETHERNET :: "16 word" where
  "TYPE_ETHERNET = 1"

definition OPCODE_REQUEST :: "16 word" where
  "OPCODE_REQUEST = 1"

definition OPCODE_REPLY :: "16 word" where
  "OPCODE_REPLY = 2"

definition ARPMessage_default :: ARPMessage where
  "ARPMessage_default =
     \<lparr>ar_hardware_type = TYPE_ETHERNET, ar_protocol_type = TYPE_IPv4,
      ar_hardware_address_size = 6, ar_protocol_address_size = 4, ar_opcode = 0,
      ar_sender_ethernet_address = replicate 6 0, ar_sender_ip_address = 0,
      ar_target_ethernet_address = replicate 6 0, ar_target_ip_address = 0\<rparr>"

definition ARPMessage_supported :: "ARPMessage \<Rightarrow> bool" where
  "ARPMessage_supported m \<longleftrightarrow>
     ar_hardware_type m = TYPE_ETHERNET \<and> ar_protocol_type m = TYPE_IPv4 \<and>
     ar_hardware_address_size m = 6 \<and> ar_protocol_address_size m = 4 \<and>
     (ar_opcode m = OPCODE_REQUEST \<or> ar_opcode m = OPCODE_REPLY)"

definition ARPMessage_parse :: "ARPMessage \<Rightarrow> Buffer \<Rightarrow> (ParseResult \<times> ARPMessage) result" where
  "ARPMessage_parse m buffer =
     (let p = NetParser_of buffer in
      if Buffer_size (np_buffer p) < ARPMessage_LENGTH then Inr (PacketTooShort, m)
      else
        and_then (NetParser_u16 p) (\<lambda>(hardware_type, p).
        and_then (NetParser_u16 p) (\<lambda>(protocol_type, p).
        and_then (NetParser_u8 p) (\<lambda>(hardware_address_size, p).
        and_then (NetParser_u8 p) (\<lambda>(protocol_address_size, p).
        and_then (NetParser_u16 p) (\<lambda>(opcode, p).
        let m' = m\<lparr>ar_hardware_type := hardware_type, ar_protocol_type := protocol_type,
                   ar_hardware_address_size := hardware_address_size,
                   ar_protocol_address_size := protocol_address_size, ar_opcode := opcode\<rparr>
        in
        if \<not> ARPMessage_supported m' then Inr (Unsupported, m')
        else
          and_then (parse_array NetParser_u8 6 p) (\<lambda>(sender_ethernet, p).
          and_then (NetParser_u32 p) (\<lambda>(sender_ip, p).
          and_then (parse_array NetParser_u8 6 p) (\<lambda>(target_ethernet, p).
          and_then (NetParser_u32 p) (\<lambda>(target_ip, p).
          Inr (np_error p, m'\<lparr>ar_sender_ethernet_address := sender_ethernet, ar_sender_ip_address := sender_ip,
                              ar_target_ethernet_address := target_ethernet, ar_target_ip_address := target_ip\<rparr>)))))))))))"

definition ARPMessage_serialize :: "ARPMessage \<Rightarrow> bytes result" where
  "ARPMessage_serialize m =
     (if \<not> ARPMessage_supported m then
        Inl (RuntimeError ''ARPMessage::serialize(): unsupported field combination (must be Ethernet/IP, and request or reply)'')
      else
        (let ret = NetUnparser_u16 [] (ar_hardware_type m);
             ret = NetUnparser_u16 ret (ar_protocol_type m);
             ret = NetUnparser_u8 ret (ar_hardware_address_size m);
             ret = NetUnparser_u8 ret (ar_protocol_address_size m);
             ret = NetUnparser_u16 ret (ar_opcode m);
             ret = unparse_array NetUnparser_u8 ret (ar_sender_ethernet_address m);
             ret = NetUnparser_u32 ret (ar_sender_ip_address m);
             ret = unparse_array NetUnparser_u8 ret (ar_target_ethernet_address m)
         in Inr (NetUnparser_u32 ret (ar_target_ip_address m))))"

section \<open>Arrays of bytes\<close>

definition arp_ok :: "ARPMessage \<Rightarrow> bool" where
  "arp_ok m \<longleftrightarrow> ARPMessage_supported m \<and> length (ar_sender_ethernet_address m) = 6 \<and>
     length (ar_target_ethernet_address m) = 6"

definition eth_ok :: "EthernetHeader \<Rightarrow> bool" where
  "eth_ok h \<longleftrightarrow> length (eh_dst h) = 6 \<and> length (eh_src h) = 6"

lemma address_bytes: "concat (map (be_bytes 1) vs) = (vs :: bytes)"
  by (induction vs) (simp_all add: be_bytes_eqs)

lemma unparse_address: "unparse_array NetUnparser_u8 s vs = s @ vs"
  by (simp only: u8.unparse_array_enc address_bytes)

lemma address_step:
  assumes "reading p (vs @ bs)" "length vs = 6" "\<And>p'. reading p' bs \<Longrightarrow> yields (f (vs, p')) Q"
  shows "yields (and_then (parse_array NetParser_u8 6 p) f) Q"
proof -
  have "reading p (concat (map (be_bytes 1) vs) @ bs)" using assms(1) by (simp only: address_bytes)
  from u8.parse_array_enc [OF this] assms(2,3) show ?thesis by (auto elim!: yields_cases)
qed

lemma EthernetHeader_serialize_eq: "EthernetHeader_serialize h = eh_dst h @ eh_src h @ be_bytes 2 (eh_type h)"
  by (simp add: EthernetHeader_serialize_def Let_def unparse_address u16.unparse_enc)

lemma EthernetHeader_parse_bytes:
  assumes "reading p (eh_dst h @ eh_src h @ be_bytes 2 (eh_type h) @ bs)" "eth_ok h"
  shows "yields (EthernetHeader_parse h0 p) (\<lambda>(res, h', p'). res = NoError \<and> h' = h \<and> reading p' bs)"
proof -
  have len: "\<not> Buffer_size (np_buffer p) < EthernetHeader_LENGTH"
    using assms by (simp add: reading_def Buffer_size_def EthernetHeader_LENGTH_def eth_ok_def)
  have six: "length (eh_dst h) = 6" "length (eh_src h) = 6" using assms(2) by (simp_all add: eth_ok_def)
  show ?thesis
    unfolding EthernetHeader_parse_def if_not_P [OF len]
    using assms(1)
    by - (rule address_step, assumption, rule six, simp only: prod.case,
        rule address_step, assumption, rule six, simp only: prod.case,
        rule u16.read_step, assumption, simp add: reading_def)
qed

lemma EthernetHeader_parse_safe:
  assumes "np_inv p" "eth_ok h"
  shows "yields (EthernetHeader_parse h p) (\<lambda>(res, h', p'). np_inv p' \<and> eth_ok h')"
proof (cases "Buffer_size (np_buffer p) < EthernetHeader_LENGTH")
  case True
  then show ?thesis using assms by (simp add: EthernetHeader_parse_def)
next
  case False
  show ?thesis
    unfolding EthernetHeader_parse_def if_not_P [OF False] using assms(1)
    by - (rule parse_array_step, assumption, simp only: prod.case, rule parse_array_step, assumption, simp only: prod.case,
        rule read_safe_step, assumption, simp add: eth_ok_def)
qed

definition arp_bytes :: "ARPMessage \<Rightarrow> bytes" where
  "arp_bytes m = be_bytes 2 (ar_hardware_type m) @ be_bytes 2 (ar_protocol_type m) @
     be_bytes 1 (ar_hardware_address_size m) @ be_bytes 1 (ar_protocol_address_size m) @ be_bytes 2 (ar_opcode m) @
     ar_sender_ethernet_address m @ be_bytes 4 (ar_sender_ip_address m) @
     ar_target_ethernet_address m @ be_bytes 4 (ar_target_ip_address m)"

lemma ARPMessage_serialize_ok: "ARPMessage_supported m \<Longrightarrow> ARPMessage_serialize m = Inr (arp_bytes m)"
  by (simp add: ARPMessage_serialize_def arp_bytes_def Let_def unparse_address
      u8.unparse_enc [unfolded One_nat_def] u16.unparse_enc u32.unparse_enc)

lemma ARPMessage_parse_bytes:
  assumes "buf_inv b" "Buffer_str b = arp_bytes m" "arp_ok m"
  shows "ARPMessage_parse m0 b = Inr (NoError, m)"
proof -
  have six: "length (ar_sender_ethernet_address m) = 6" "length (ar_target_ethernet_address m) = 6"
    and sup: "ARPMessage_supported m"
    using assms(3) by (simp_all add: arp_ok_def)
  have len: "\<not> Buffer_size (np_buffer (NetParser_of b)) < ARPMessage_LENGTH"
    using assms(2) six by (simp add: Buffer_size_def ARPMessage_LENGTH_def arp_bytes_def NetParser_of_def)
  have sup': "ARPMessage_supported (m0\<lparr>ar_hardware_type := ar_hardware_type m, ar_protocol_type := ar_protocol_type m,
      ar_hardware_address_size := ar_hardware_address_size m,
      ar_protocol_address_size := ar_protocol_address_size m, ar_opcode := ar_opcode m\<rparr>)"
    using sup by (simp add: ARPMessage_supported_def)
  have r: "reading (NetParser_of b) (arp_bytes m @ [])" using reading_of [OF assms(1)] assms(2) by simp
  have "yields (ARPMessage_parse m0 b) (\<lambda>(res, m'). res = NoError \<and> m' = m)"
    unfolding ARPMessage_parse_def Let_def if_not_P [OF len]
    using r unfolding arp_bytes_def append_assoc
    by - ((rule u8.read_step u16.read_step u32.read_step, assumption, simp only: prod.case)+,
        simp only: sup' not_True_eq_False if_False,
        rule address_step, assumption, rule six, simp only: prod.case, rule u32.read_step, assumption, simp only: prod.case,
        rule address_step, assumption, rule six, simp only: prod.case, rule u32.read_step, assumption, simp add: reading_def)
  then show ?thesis by (auto elim!: yields_cases)
qed

lemma ARPMessage_parse_safe:
  assumes "buf_inv b"
  shows "yields (ARPMessage_parse m b) (\<lambda>(res, m'). res = NoError \<longrightarrow> arp_ok m')"
proof (cases "Buffer_size (np_buffer (NetParser_of b)) < ARPMessage_LENGTH")
  case True
  then show ?thesis by (simp add: ARPMessage_parse_def Let_def)
next
  case False
  have "np_inv (NetParser_of b)" using assms by (simp add: np_inv_def NetParser_of_def)
  then show ?thesis
    unfolding ARPMessage_parse_def Let_def if_not_P [OF False]
    by - ((rule read_safe_step, assumption, simp only: prod.case)+, rule yields_if_else, simp,
        rule parse_array_step, assumption, simp only: prod.case, rule read_safe_step, assumption, simp only: prod.case,
        rule parse_array_step, assumption, simp only: prod.case, rule read_safe_step, assumption,
        simp add: arp_ok_def ARPMessage_supported_def)
qed

text \<open>A frame on the wire and back; the payload is then a single buffer.\<close>

lemma frame_wire:
  assumes "eth_ok (ef_header f)" "length (bl_str (ef_payload f)) + EthernetHeader_LENGTH < two64"
  shows "\<exists>b. EthernetFrame_parse f0 (Buffer_of (BufferList_concatenate (EthernetFrame_serialize f))) =
      Inr (NoError, f0\<lparr>ef_header := ef_header f, ef_payload := BufferList_of_Buffer b\<rparr>) \<and>
    buf_inv b \<and> Buffer_str b = bl_str (ef_payload f)"
proof -
  let ?h = "ef_header f"
  let ?wire = "eh_dst ?h @ eh_src ?h @ be_bytes 2 (eh_type ?h) @ bl_str (ef_payload f)"
  have "BufferList_concatenate (EthernetFrame_serialize f) = ?wire"
    by (simp add: EthernetFrame_serialize_def EthernetHeader_serialize_eq Let_def)
  moreover have "reading (NetParser_of (Buffer_of ?wire)) ?wire"
    using reading_of [of "Buffer_of ?wire"] assms by (simp add: eth_ok_def EthernetHeader_LENGTH_def)
  from EthernetHeader_parse_bytes [OF this assms(1), of "ef_header f0"]
  have "yields (EthernetFrame_parse f0 (Buffer_of ?wire)) (\<lambda>(res, f'). res = NoError \<and>
      (\<exists>b. f' = f0\<lparr>ef_header := ?h, ef_payload := BufferList_of_Buffer b\<rparr> \<and> buf_inv b \<and> Buffer_str b = bl_str (ef_payload f)))"
    by (auto simp: EthernetFrame_parse_def reading_def np_inv_def elim!: yields_cases)
  ultimately show ?thesis by (auto elim!: yields_cases)
qed

section \<open>Properties\<close>

text \<open>A supported ARP message survives serialisation and parsing, whatever message it is parsed into; an unsupported
  one is refused by \<open>serialize\<close> with an exception.\<close>

theorem arp_round_trip:
  assumes "length (ar_sender_ethernet_address m) = 6" "length (ar_target_ethernet_address m) = 6"
  shows "if ARPMessage_supported m
    then \<exists>s. ARPMessage_serialize m = Inr s \<and> length s = ARPMessage_LENGTH \<and> ARPMessage_parse m0 (Buffer_of s) = Inr (NoError, m)
    else \<exists>e. ARPMessage_serialize m = Inl e"
proof (cases "ARPMessage_supported m")
  case True
  have "ARPMessage_parse m0 (Buffer_of (arp_bytes m)) = Inr (NoError, m)"
    using True assms by (intro ARPMessage_parse_bytes) (simp_all add: arp_ok_def arp_bytes_def)
  then show ?thesis using True assms by (simp add: ARPMessage_serialize_ok ARPMessage_LENGTH_def arp_bytes_def)
next
  case False
  then show ?thesis by (simp add: ARPMessage_serialize_def)
qed

theorem arp_round_trip_witness:
  "\<exists>s. ARPMessage_serialize (ARPMessage_default\<lparr>ar_opcode := OPCODE_REPLY, ar_sender_ip_address := 9\<rparr>) = Inr s \<and>
    length s = ARPMessage_LENGTH \<and>
    ARPMessage_parse ARPMessage_default (Buffer_of s) = Inr (NoError, ARPMessage_default\<lparr>ar_opcode := OPCODE_REPLY, ar_sender_ip_address := 9\<rparr>)"
  using arp_round_trip [of "ARPMessage_default\<lparr>ar_opcode := OPCODE_REPLY, ar_sender_ip_address := 9\<rparr>" ARPMessage_default]
  by (simp add: ARPMessage_default_def ARPMessage_supported_def)

text \<open>A frame written to the wire is read back with its header and its payload.\<close>

theorem ethernet_frame_round_trip:
  assumes "eth_ok (ef_header f)" "length (bl_str (ef_payload f)) + EthernetHeader_LENGTH < two64"
  shows "\<exists>f'. EthernetFrame_parse f0 (Buffer_of (BufferList_concatenate (EthernetFrame_serialize f))) = Inr (NoError, f') \<and>
    ef_header f' = ef_header f \<and> bl_str (ef_payload f') = bl_str (ef_payload f)"
  using frame_wire [OF assms, of f0] by force

theorem ethernet_frame_round_trip_witness:
  "\<exists>f'. EthernetFrame_parse EthernetFrame_default (Buffer_of (BufferList_concatenate (EthernetFrame_serialize
      \<lparr>ef_header = \<lparr>eh_dst = ETHERNET_BROADCAST, eh_src = replicate 6 2, eh_type = TYPE_ARP\<rparr>,
       ef_payload = BufferList_of_string [1, 2]\<rparr>))) = Inr (NoError, f') \<and> bl_str (ef_payload f') = [1, 2]"
  using ethernet_frame_round_trip [of "\<lparr>ef_header = \<lparr>eh_dst = ETHERNET_BROADCAST, eh_src = replicate 6 2, eh_type = TYPE_ARP\<rparr>,
       ef_payload = BufferList_of_string [1, 2]\<rparr>" EthernetFrame_default]
  by (fastforce simp: eth_ok_def ETHERNET_BROADCAST_def EthernetHeader_LENGTH_def)

text \<open>\<open>EthernetFrame::parse\<close> drops the report of its header: a frame too short to hold a header is accepted with
  \<open>NoError\<close>, its header left as it was and all its bytes taken for the payload.\<close>

theorem ethernet_short_frame_accepted:
  assumes "length (Buffer_str b) < EthernetHeader_LENGTH"
  shows "EthernetFrame_parse f b = Inr (NoError, f\<lparr>ef_payload := BufferList_of_Buffer b\<rparr>)"
  using assms by (simp add: EthernetFrame_parse_def EthernetHeader_parse_def Buffer_size_def NetParser_of_def)

theorem ethernet_short_frame_accepted_witness:
  "EthernetFrame_parse EthernetFrame_default (Buffer_of [1, 2, 3]) =
     Inr (NoError, EthernetFrame_default\<lparr>ef_payload := BufferList_of_Buffer (Buffer_of [1, 2, 3])\<rparr>)"
  using ethernet_short_frame_accepted [of "Buffer_of [1, 2, 3]" EthernetFrame_default] by (simp add: EthernetHeader_LENGTH_def)

end
