(* ===== verification/Network_Interface.thy ===== *)
theory Network_Interface
  imports Ethernet TCP_Over_IP
begin

text \<open>
  \<open>NetworkInterface\<close> of \<open>src/libsponge/network_interface.hh\<close> and \<open>network_interface.cc\<close>: IP over Ethernet, with the cache of
  addresses learned by ARP, the datagrams that wait for an address, and the times since the last request. The unordered maps
  are maps; debugging output is left out. The proofs are in \<open>Address_Resolution\<close>.
\<close>

section \<open>State\<close>

record RememberedEthAddr =
  re_addr :: EthernetAddress
  re_time :: size_t

record NetworkInterface =
  ni_ethernet_address :: EthernetAddress
  ni_ip_address :: Address
  ni_frames_out :: "EthernetFrame list"
  ni_waiting_dgrams :: "32 word \<rightharpoonup> IPv4Datagram list"
  ni_ip_eth_map :: "32 word \<rightharpoonup> RememberedEthAddr"
  ni_ip_waiting_time_map :: "32 word \<rightharpoonup> size_t"

definition NetworkInterface_new :: "EthernetAddress \<Rightarrow> Address \<Rightarrow> NetworkInterface" where
  "NetworkInterface_new ethernet_address ip_address =
     \<lparr>ni_ethernet_address = ethernet_address, ni_ip_address = ip_address, ni_frames_out = [],
      ni_waiting_dgrams = Map.empty, ni_ip_eth_map = Map.empty, ni_ip_waiting_time_map = Map.empty\<rparr>"

section \<open>Frames\<close>

definition push_frame :: "NetworkInterface \<Rightarrow> EthernetFrame \<Rightarrow> NetworkInterface" where
  "push_frame n frame = n\<lparr>ni_frames_out := ni_frames_out n @ [frame]\<rparr>"

definition ipv4_frame :: "NetworkInterface \<Rightarrow> EthernetAddress \<Rightarrow> IPv4Datagram \<Rightarrow> EthernetFrame result" where
  "ipv4_frame n dst dgram =
     and_then (IPv4Datagram_serialize dgram) (\<lambda>payload.
     Inr \<lparr>ef_header = \<lparr>eh_dst = dst, eh_src = ni_ethernet_address n, eh_type = TYPE_IPv4\<rparr>, ef_payload = payload\<rparr>)"

definition arp_frame :: "NetworkInterface \<Rightarrow> EthernetAddress \<Rightarrow> ARPMessage \<Rightarrow> EthernetFrame result" where
  "arp_frame n dst arp_msg =
     and_then (ARPMessage_serialize arp_msg) (\<lambda>payload.
     Inr \<lparr>ef_header = \<lparr>eh_dst = dst, eh_src = ni_ethernet_address n, eh_type = TYPE_ARP\<rparr>,
          ef_payload = BufferList_of_string payload\<rparr>)"

definition request_msg :: "NetworkInterface \<Rightarrow> 32 word \<Rightarrow> ARPMessage" where
  "request_msg n next_hop_ip =
     ARPMessage_default\<lparr>ar_opcode := OPCODE_REQUEST, ar_sender_ethernet_address := ni_ethernet_address n,
       ar_sender_ip_address := ad_ip (ni_ip_address n), ar_target_ip_address := next_hop_ip\<rparr>"

definition reply_msg :: "NetworkInterface \<Rightarrow> EthernetAddress \<Rightarrow> 32 word \<Rightarrow> ARPMessage" where
  "reply_msg n eth_addr ip_addr =
     ARPMessage_default\<lparr>ar_opcode := OPCODE_REPLY, ar_sender_ethernet_address := ni_ethernet_address n,
       ar_sender_ip_address := ad_ip (ni_ip_address n), ar_target_ip_address := ip_addr,
       ar_target_ethernet_address := eth_addr\<rparr>"

section \<open>Sending\<close>

definition enqueue_waiting :: "NetworkInterface \<Rightarrow> 32 word \<Rightarrow> IPv4Datagram \<Rightarrow> NetworkInterface" where
  "enqueue_waiting n next_hop_ip dgram =
     (case ni_waiting_dgrams n next_hop_ip of
        Some queue \<Rightarrow> n\<lparr>ni_waiting_dgrams := (ni_waiting_dgrams n)(next_hop_ip \<mapsto> queue @ [dgram])\<rparr>
      | None \<Rightarrow> n\<lparr>ni_waiting_dgrams := (ni_waiting_dgrams n)(next_hop_ip \<mapsto> [dgram])\<rparr>)"

definition broadcast_arp :: "NetworkInterface \<Rightarrow> 32 word \<Rightarrow> NetworkInterface result" where
  "broadcast_arp n next_hop_ip =
     (case ni_ip_waiting_time_map n next_hop_ip of
        Some time \<Rightarrow>
          if time \<le> 5000 then Inr n
          else
            and_then (arp_frame n ETHERNET_BROADCAST (request_msg n next_hop_ip)) (\<lambda>frame.
            Inr (push_frame (n\<lparr>ni_ip_waiting_time_map := (ni_ip_waiting_time_map n)(next_hop_ip \<mapsto> 0)\<rparr>) frame))
      | None \<Rightarrow>
          and_then (arp_frame n ETHERNET_BROADCAST (request_msg n next_hop_ip)) (\<lambda>frame.
          Inr (push_frame (n\<lparr>ni_ip_waiting_time_map := (ni_ip_waiting_time_map n)(next_hop_ip \<mapsto> 0)\<rparr>) frame)))"

definition send_datagram :: "NetworkInterface \<Rightarrow> IPv4Datagram \<Rightarrow> Address \<Rightarrow> NetworkInterface result" where
  "send_datagram n dgram next_hop =
     (let next_hop_ip = ad_ip next_hop in
      case ni_ip_eth_map n next_hop_ip of
        Some remembered \<Rightarrow>
          and_then (ipv4_frame n (re_addr remembered) dgram) (\<lambda>frame. Inr (push_frame n frame))
      | None \<Rightarrow> broadcast_arp (enqueue_waiting n next_hop_ip dgram) next_hop_ip)"

section \<open>Receiving\<close>

text \<open>The loop that sends the datagrams that waited for an address.\<close>

primrec flush_waiting :: "32 word \<Rightarrow> EthernetAddress \<Rightarrow> IPv4Datagram list \<Rightarrow> NetworkInterface \<Rightarrow> NetworkInterface result" where
  "flush_waiting ip eth [] n = Inr n"
| "flush_waiting ip eth (dgram # dgrams) n =
     and_then (ipv4_frame n eth dgram) (\<lambda>waiting_frame.
     flush_waiting ip eth dgrams
       ((push_frame n waiting_frame)\<lparr>ni_waiting_dgrams := (ni_waiting_dgrams n)(ip \<mapsto> dgrams)\<rparr>))"

definition learn :: "NetworkInterface \<Rightarrow> 32 word \<Rightarrow> EthernetAddress \<Rightarrow> NetworkInterface result" where
  "learn n sender_ip_addr sender_eth_addr =
     (let n = n\<lparr>ni_ip_eth_map := (ni_ip_eth_map n)(sender_ip_addr \<mapsto> \<lparr>re_addr = sender_eth_addr, re_time = 0\<rparr>)\<rparr> in
      case ni_ip_waiting_time_map n sender_ip_addr of
        None \<Rightarrow> Inr n
      | Some _ \<Rightarrow>
          (let n = n\<lparr>ni_ip_waiting_time_map := (ni_ip_waiting_time_map n)(sender_ip_addr := None)\<rparr> in
           case ni_waiting_dgrams n sender_ip_addr of
             None \<Rightarrow> Inl AssertionFailed
           | Some queue \<Rightarrow>
               and_then (flush_waiting sender_ip_addr sender_eth_addr queue n) (\<lambda>n.
               Inr (n\<lparr>ni_waiting_dgrams := (ni_waiting_dgrams n)(sender_ip_addr := None)\<rparr>))))"

definition answer :: "NetworkInterface \<Rightarrow> ARPMessage \<Rightarrow> NetworkInterface result" where
  "answer n arp_msg =
     (if ar_opcode arp_msg = OPCODE_REQUEST \<and> ar_target_ip_address arp_msg = ad_ip (ni_ip_address n) then
        and_then (arp_frame n (ar_sender_ethernet_address arp_msg)
          (reply_msg n (ar_sender_ethernet_address arp_msg) (ar_sender_ip_address arp_msg))) (\<lambda>reply_frame.
        Inr (push_frame n reply_frame))
      else Inr n)"

definition recv_frame :: "NetworkInterface \<Rightarrow> EthernetFrame \<Rightarrow> (IPv4Datagram option \<times> NetworkInterface) result" where
  "recv_frame n frame =
     (let header = ef_header frame in
      if eh_dst header \<noteq> ni_ethernet_address n \<and> eh_dst header \<noteq> ETHERNET_BROADCAST then Inr (None, n)
      else if eh_type header = TYPE_IPv4 then
        and_then (BufferList_to_Buffer (ef_payload frame)) (\<lambda>payload.
        and_then (IPv4Datagram_parse IPv4Datagram_default payload) (\<lambda>(parse_result, dgram).
        Inr (if parse_result = NoError then Some dgram else None, n)))
      else if eh_type header = TYPE_ARP then
        and_then (BufferList_to_Buffer (ef_payload frame)) (\<lambda>payload.
        and_then (ARPMessage_parse ARPMessage_default payload) (\<lambda>(parse_result, arp_msg).
        if parse_result \<noteq> NoError then Inr (None, n)
        else
          and_then (learn n (ar_sender_ip_address arp_msg) (ar_sender_ethernet_address arp_msg)) (\<lambda>n.
          and_then (answer n arp_msg) (\<lambda>n. Inr (None, n)))))
      else Inl AssertionFailed)"

section \<open>Time\<close>

definition NetworkInterface_tick :: "NetworkInterface \<Rightarrow> size_t \<Rightarrow> NetworkInterface" where
  "NetworkInterface_tick n ms_since_last_tick =
     n\<lparr>ni_ip_waiting_time_map := (\<lambda>ip. map_option (\<lambda>waiting_time. add64 waiting_time ms_since_last_tick) (ni_ip_waiting_time_map n ip)),
       ni_ip_eth_map := (\<lambda>ip.
         case ni_ip_eth_map n ip of
           None \<Rightarrow> None
         | Some remembered \<Rightarrow>
             (let time = add64 (re_time remembered) ms_since_last_tick in
              if time > 30000 then None else Some (remembered\<lparr>re_time := time\<rparr>)))\<rparr>"

end
