(* ===== verification/Address_Resolution.thy ===== *)
theory Address_Resolution
  imports Network_Interface "HOL-Library.Multiset"
begin

text \<open>
  The correctness of \<open>NetworkInterface\<close>: no datagram is lost or sent twice, requests are rationed, and two interfaces on one link
  resolve each other's addresses and exchange the datagram that waited.
\<close>

section \<open>The invariant\<close>

definition ni_inv :: "NetworkInterface \<Rightarrow> bool" where
  "ni_inv n \<longleftrightarrow> length (ni_ethernet_address n) = 6 \<and>
     dom (ni_waiting_dgrams n) = dom (ni_ip_waiting_time_map n) \<and> dom (ni_waiting_dgrams n) \<inter> dom (ni_ip_eth_map n) = {} \<and>
     (\<forall>ip q. ni_waiting_dgrams n ip = Some q \<longrightarrow> (\<forall>d\<in>set q. dgram_ok d)) \<and>
     (\<forall>ip r. ni_ip_eth_map n ip = Some r \<longrightarrow> re_time r \<le> 30000)"

lemma NetworkInterface_new_inv: "length eth = 6 \<Longrightarrow> ni_inv (NetworkInterface_new eth ip)"
  by (simp add: ni_inv_def NetworkInterface_new_def)

text \<open>The payload a datagram is sent as.\<close>

definition dgram_payload :: "IPv4Datagram \<Rightarrow> BufferList" where
  "dgram_payload d = (case IPv4Datagram_serialize d of Inr bl \<Rightarrow> bl | Inl _ \<Rightarrow> \<lparr>bl_buffers = []\<rparr>)"

definition data_frame :: "NetworkInterface \<Rightarrow> EthernetAddress \<Rightarrow> IPv4Datagram \<Rightarrow> EthernetFrame" where
  "data_frame n dst d = \<lparr>ef_header = \<lparr>eh_dst = dst, eh_src = ni_ethernet_address n, eh_type = TYPE_IPv4\<rparr>, ef_payload = dgram_payload d\<rparr>"

definition message_frame :: "NetworkInterface \<Rightarrow> EthernetAddress \<Rightarrow> ARPMessage \<Rightarrow> EthernetFrame" where
  "message_frame n dst m = \<lparr>ef_header = \<lparr>eh_dst = dst, eh_src = ni_ethernet_address n, eh_type = TYPE_ARP\<rparr>,
     ef_payload = BufferList_of_string (arp_bytes m)\<rparr>"

lemma ipv4_frame_ok: "dgram_ok d \<Longrightarrow> ipv4_frame n dst d = Inr (data_frame n dst d)"
  using IPv4Datagram_serialize_ok [of d] by (auto simp: ipv4_frame_def data_frame_def dgram_payload_def)

lemma msgs_ok [simp]:
  "length (ni_ethernet_address n) = 6 \<Longrightarrow> arp_ok (request_msg n ip)"
  "length (ni_ethernet_address n) = 6 \<Longrightarrow> length eth = 6 \<Longrightarrow> arp_ok (reply_msg n eth ip)"
  by (simp_all add: arp_ok_def request_msg_def reply_msg_def ARPMessage_default_def ARPMessage_supported_def OPCODE_REQUEST_def OPCODE_REPLY_def)

lemma arp_frame_ok: "arp_ok m \<Longrightarrow> arp_frame n dst m = Inr (message_frame n dst m)"
  by (simp add: arp_frame_def arp_ok_def ARPMessage_serialize_ok message_frame_def)

section \<open>Sending\<close>

text \<open>The datagrams that wait for an address.\<close>

definition ni_queue :: "NetworkInterface \<Rightarrow> 32 word \<Rightarrow> IPv4Datagram list" where
  "ni_queue n ip = (case ni_waiting_dgrams n ip of None \<Rightarrow> [] | Some q \<Rightarrow> q)"

lemma enqueue_waiting_eq:
  "enqueue_waiting n ip d = n\<lparr>ni_waiting_dgrams := (ni_waiting_dgrams n)(ip \<mapsto> ni_queue n ip @ [d])\<rparr>"
  by (auto simp: enqueue_waiting_def ni_queue_def split: option.split)

definition request_due :: "NetworkInterface \<Rightarrow> 32 word \<Rightarrow> bool" where
  "request_due n ip \<longleftrightarrow> (case ni_ip_waiting_time_map n ip of None \<Rightarrow> True | Some t \<Rightarrow> t > 5000)"

lemma send_datagram_ok:
  assumes inv: "ni_inv n" and d: "dgram_ok d"
  shows "\<exists>n'. send_datagram n d hop = Inr n' \<and> ni_inv n' \<and>
    n' = (case ni_ip_eth_map n (ad_ip hop) of
        Some r \<Rightarrow> n\<lparr>ni_frames_out := ni_frames_out n @ [data_frame n (re_addr r) d]\<rparr>
      | None \<Rightarrow> if request_due n (ad_ip hop)
          then n\<lparr>ni_waiting_dgrams := (ni_waiting_dgrams n)(ad_ip hop \<mapsto> ni_queue n (ad_ip hop) @ [d]),
                 ni_ip_waiting_time_map := (ni_ip_waiting_time_map n)(ad_ip hop \<mapsto> 0),
                 ni_frames_out := ni_frames_out n @ [message_frame n ETHERNET_BROADCAST (request_msg n (ad_ip hop))]\<rparr>
          else n\<lparr>ni_waiting_dgrams := (ni_waiting_dgrams n)(ad_ip hop \<mapsto> ni_queue n (ad_ip hop) @ [d])\<rparr>)"
proof (cases "ni_ip_eth_map n (ad_ip hop)")
  case (Some r)
  then show ?thesis using inv unfolding ni_inv_def by (auto simp: send_datagram_def ipv4_frame_ok [OF d] push_frame_def)
next
  case None
  let ?n = "n\<lparr>ni_waiting_dgrams := (ni_waiting_dgrams n)(ad_ip hop \<mapsto> ni_queue n (ad_ip hop) @ [d])\<rparr>"
  have six: "length (ni_ethernet_address n) = 6" and q: "\<forall>d'\<in>set (ni_queue n (ad_ip hop) @ [d]). dgram_ok d'"
    using inv d unfolding ni_inv_def ni_queue_def by (simp, cases "ni_waiting_dgrams n (ad_ip hop)") auto
  have "request_msg ?n = request_msg n" by (simp add: fun_eq_iff request_msg_def)
  then have f: "arp_frame ?n ETHERNET_BROADCAST (request_msg ?n (ad_ip hop)) = Inr (message_frame n ETHERNET_BROADCAST (request_msg n (ad_ip hop)))"
    using arp_frame_ok [OF msgs_ok(1) [OF six]] by (simp add: message_frame_def)
  have op: "send_datagram n d hop = broadcast_arp ?n (ad_ip hop)"
    using None by (simp add: send_datagram_def enqueue_waiting_eq Let_def)
  show ?thesis
  proof (cases "request_due n (ad_ip hop)")
    case True
    then have "broadcast_arp ?n (ad_ip hop) = Inr (?n\<lparr>ni_ip_waiting_time_map := (ni_ip_waiting_time_map n)(ad_ip hop \<mapsto> 0),
        ni_frames_out := ni_frames_out n @ [message_frame n ETHERNET_BROADCAST (request_msg n (ad_ip hop))]\<rparr>)"
      unfolding broadcast_arp_def f by (auto simp: request_due_def push_frame_def split: option.splits)
    then show ?thesis using op None True inv q unfolding ni_inv_def by auto
  next
    case False
    then have "broadcast_arp ?n (ad_ip hop) = Inr ?n" "ad_ip hop \<in> dom (ni_ip_waiting_time_map n)"
      unfolding broadcast_arp_def by (auto simp: request_due_def split: option.splits)
    then show ?thesis using op None False inv q unfolding ni_inv_def by auto
  qed
qed

section \<open>Receiving\<close>

lemma if_twice: "(if b then x else if b then y else z) = (if b then x else z)"
  by simp

lemma flush_waiting_ok:
  assumes "\<forall>d\<in>set ds. dgram_ok d" "ds \<noteq> [] \<or> ni_waiting_dgrams n ip = Some []"
  shows "flush_waiting ip eth ds n = Inr (n\<lparr>ni_frames_out := ni_frames_out n @ map (data_frame n eth) ds,
    ni_waiting_dgrams := (ni_waiting_dgrams n)(ip \<mapsto> [])\<rparr>)"
  using assms
proof (induction ds arbitrary: n)
  case Nil
  then show ?case by (cases n) (simp add: fun_upd_idem)
next
  case (Cons d ds)
  let ?n = "(push_frame n (data_frame n eth d))\<lparr>ni_waiting_dgrams := (ni_waiting_dgrams n)(ip \<mapsto> ds)\<rparr>"
  have "data_frame ?n eth = data_frame n eth" by (simp add: fun_eq_iff data_frame_def push_frame_def)
  then show ?case using Cons.IH [of ?n] Cons.prems by (cases "ds = []") (simp_all add: ipv4_frame_ok push_frame_def if_twice)
qed

lemma learn_ok:
  assumes inv: "ni_inv n" and eth: "length eth = 6"
  shows "\<exists>n'. learn n ip eth = Inr n' \<and> ni_inv n' \<and>
    n' = n\<lparr>ni_ip_eth_map := (ni_ip_eth_map n)(ip \<mapsto> \<lparr>re_addr = eth, re_time = 0\<rparr>),
      ni_ip_waiting_time_map := (ni_ip_waiting_time_map n)(ip := None), ni_waiting_dgrams := (ni_waiting_dgrams n)(ip := None),
      ni_frames_out := ni_frames_out n @ map (data_frame n eth) (ni_queue n ip)\<rparr>"
proof -
  define n' where "n' = n\<lparr>ni_ip_eth_map := (ni_ip_eth_map n)(ip \<mapsto> \<lparr>re_addr = eth, re_time = 0\<rparr>),
      ni_ip_waiting_time_map := (ni_ip_waiting_time_map n)(ip := None), ni_waiting_dgrams := (ni_waiting_dgrams n)(ip := None),
      ni_frames_out := ni_frames_out n @ map (data_frame n eth) (ni_queue n ip)\<rparr>"
  have keep: "ni_inv n'" using inv unfolding ni_inv_def n'_def by auto
  show ?thesis
  proof (cases "ni_waiting_dgrams n ip")
    case None
    then have "ni_ip_waiting_time_map n ip = None" using inv unfolding ni_inv_def by (metis domIff)
    with None have "learn n ip eth = Inr n'" unfolding n'_def by (cases n) (simp add: learn_def ni_queue_def fun_upd_idem)
    then show ?thesis using keep unfolding n'_def by blast
  next
    case (Some q)
    then obtain t where t: "ni_ip_waiting_time_map n ip = Some t"
      using inv domI [of "ni_waiting_dgrams n" ip q] unfolding ni_inv_def by auto
    let ?m = "n\<lparr>ni_ip_eth_map := (ni_ip_eth_map n)(ip \<mapsto> \<lparr>re_addr = eth, re_time = 0\<rparr>), ni_ip_waiting_time_map := (ni_ip_waiting_time_map n)(ip := None)\<rparr>"
    have "data_frame ?m eth = data_frame n eth" by (simp add: fun_eq_iff data_frame_def)
    moreover have "\<forall>d\<in>set q. dgram_ok d" using inv Some unfolding ni_inv_def by blast
    ultimately have "flush_waiting ip eth q ?m = Inr (?m\<lparr>ni_frames_out := ni_frames_out n @ map (data_frame n eth) q,
        ni_waiting_dgrams := (ni_waiting_dgrams n)(ip \<mapsto> [])\<rparr>)"
      using flush_waiting_ok [of q ?m ip eth] Some by simp
    then have "learn n ip eth = Inr n'" using t Some unfolding n'_def by (simp add: learn_def ni_queue_def if_twice)
    then show ?thesis using keep unfolding n'_def by blast
  qed
qed

lemma answer_ok:
  assumes inv: "ni_inv n" and m: "arp_ok m"
  shows "answer n m = Inr (if ar_opcode m = OPCODE_REQUEST \<and> ar_target_ip_address m = ad_ip (ni_ip_address n)
    then n\<lparr>ni_frames_out := ni_frames_out n @ [message_frame n (ar_sender_ethernet_address m)
      (reply_msg n (ar_sender_ethernet_address m) (ar_sender_ip_address m))]\<rparr> else n)"
proof -
  have "arp_ok (reply_msg n (ar_sender_ethernet_address m) (ar_sender_ip_address m))"
    using inv m by (intro msgs_ok) (simp_all add: ni_inv_def arp_ok_def)
  then show ?thesis by (simp add: answer_def arp_frame_ok push_frame_def)
qed

lemma frames_inv: "ni_inv (n\<lparr>ni_frames_out := fs\<rparr>) = ni_inv n"
  by (simp add: ni_inv_def)

text \<open>What an ARP message that is for this interface makes it do.\<close>

definition after_arp :: "NetworkInterface \<Rightarrow> ARPMessage \<Rightarrow> NetworkInterface" where
  "after_arp n m = (let ip = ar_sender_ip_address m; eth = ar_sender_ethernet_address m in
     n\<lparr>ni_ip_eth_map := (ni_ip_eth_map n)(ip \<mapsto> \<lparr>re_addr = eth, re_time = 0\<rparr>),
       ni_ip_waiting_time_map := (ni_ip_waiting_time_map n)(ip := None), ni_waiting_dgrams := (ni_waiting_dgrams n)(ip := None),
       ni_frames_out := ni_frames_out n @ map (data_frame n eth) (ni_queue n ip) @
         (if ar_opcode m = OPCODE_REQUEST \<and> ar_target_ip_address m = ad_ip (ni_ip_address n)
          then [message_frame n eth (reply_msg n eth ip)] else [])\<rparr>)"

lemma recv_arp_ok:
  assumes inv: "ni_inv n" and m: "arp_ok m" and f: "eh_dst (ef_header f) = ni_ethernet_address n \<or> eh_dst (ef_header f) = ETHERNET_BROADCAST"
    "eh_type (ef_header f) = TYPE_ARP" "BufferList_to_Buffer (ef_payload f) = Inr b" "ARPMessage_parse ARPMessage_default b = Inr (NoError, m)"
  shows "recv_frame n f = Inr (None, after_arp n m)" "ni_inv (after_arp n m)"
proof -
  let ?ip = "ar_sender_ip_address m" and ?eth = "ar_sender_ethernet_address m"
  have "length ?eth = 6" using m by (simp add: arp_ok_def)
  from learn_ok [OF inv this, of ?ip] obtain n1 where n1: "learn n ?ip ?eth = Inr n1" "ni_inv n1"
    "n1 = n\<lparr>ni_ip_eth_map := (ni_ip_eth_map n)(?ip \<mapsto> \<lparr>re_addr = ?eth, re_time = 0\<rparr>),
      ni_ip_waiting_time_map := (ni_ip_waiting_time_map n)(?ip := None), ni_waiting_dgrams := (ni_waiting_dgrams n)(?ip := None),
      ni_frames_out := ni_frames_out n @ map (data_frame n ?eth) (ni_queue n ?ip)\<rparr>" by blast
  have same: "message_frame n1 = message_frame n" "reply_msg n1 = reply_msg n" "ni_ip_address n1 = ni_ip_address n"
    unfolding n1(3) by (simp_all add: fun_eq_iff message_frame_def reply_msg_def)
  have a: "answer n1 m = Inr (after_arp n m)"
    unfolding answer_ok [OF n1(2) m] same unfolding n1(3) by (simp add: after_arp_def Let_def)
  then show "recv_frame n f = Inr (None, after_arp n m)" using f n1(1) unfolding recv_frame_def Let_def
    by (auto simp: TYPE_IPv4_def TYPE_ARP_def)
  have "after_arp n m = n1\<lparr>ni_frames_out := ni_frames_out (after_arp n m)\<rparr>" unfolding n1(3) by (simp add: after_arp_def Let_def)
  then show "ni_inv (after_arp n m)" using n1(2) frames_inv by metis
qed

lemma IPv4Datagram_parse_safe:
  assumes "buf_inv b"
  shows "\<exists>res d'. IPv4Datagram_parse d b = Inr (res, d')"
proof -
  have "np_inv (NetParser_of b)" using assms by (simp add: np_inv_def NetParser_of_def)
  from IPv4Header_parse_safe [OF this, of "dg_header d"] show ?thesis
    by (auto simp: IPv4Datagram_parse_def Let_def elim!: yields_cases)
qed

text \<open>A frame off the wire: its payload is one buffer, and its type one of the two the interface knows.\<close>

definition frame_ok :: "EthernetFrame \<Rightarrow> bool" where
  "frame_ok f \<longleftrightarrow> (eh_type (ef_header f) = TYPE_IPv4 \<or> eh_type (ef_header f) = TYPE_ARP) \<and> (\<exists>b. ef_payload f = BufferList_of_Buffer b \<and> buf_inv b)"

lemma single_buffer [simp]: "BufferList_to_Buffer (BufferList_of_Buffer b) = Inr b"
  by (simp add: BufferList_to_Buffer_def BufferList_of_Buffer_def)

lemma recv_frame_ok:
  assumes inv: "ni_inv n" and f: "frame_ok f"
  shows "\<exists>d n'. recv_frame n f = Inr (d, n') \<and> ni_inv n' \<and> (n' = n \<or> (\<exists>m. arp_ok m \<and> n' = after_arp n m))"
proof -
  obtain b where b: "ef_payload f = BufferList_of_Buffer b" "buf_inv b" using f unfolding frame_ok_def by blast
  obtain res d where d: "IPv4Datagram_parse IPv4Datagram_default b = Inr (res, d)" using IPv4Datagram_parse_safe [OF b(2)] by blast
  obtain res' m where m: "ARPMessage_parse ARPMessage_default b = Inr (res', m)" "res' = NoError \<longrightarrow> arp_ok m"
    using ARPMessage_parse_safe [OF b(2), of ARPMessage_default] by (auto elim!: yields_cases)
  consider (other) "eh_dst (ef_header f) \<noteq> ni_ethernet_address n" "eh_dst (ef_header f) \<noteq> ETHERNET_BROADCAST"
    | (ip) "eh_dst (ef_header f) = ni_ethernet_address n \<or> eh_dst (ef_header f) = ETHERNET_BROADCAST" "eh_type (ef_header f) = TYPE_IPv4"
    | (bad) "eh_dst (ef_header f) = ni_ethernet_address n \<or> eh_dst (ef_header f) = ETHERNET_BROADCAST" "eh_type (ef_header f) = TYPE_ARP" "res' \<noteq> NoError"
    | (arp) "eh_dst (ef_header f) = ni_ethernet_address n \<or> eh_dst (ef_header f) = ETHERNET_BROADCAST" "eh_type (ef_header f) = TYPE_ARP" "res' = NoError"
    using f unfolding frame_ok_def by blast
  then show ?thesis
  proof cases
    case other
    then show ?thesis using inv by (simp add: recv_frame_def)
  next
    case ip
    then show ?thesis using inv b(1) d by (auto simp: recv_frame_def)
  next
    case bad
    then show ?thesis using inv b(1) m(1) by (auto simp: recv_frame_def TYPE_IPv4_def TYPE_ARP_def)
  next
    case arp
    then have ok: "arp_ok m" using m(2) by blast
    from recv_arp_ok [OF inv ok arp(1,2)] b(1) m(1) arp(3) ok show ?thesis by auto
  qed
qed

lemma tick_inv: "ni_inv n \<Longrightarrow> ni_inv (NetworkInterface_tick n ms)"
  unfolding ni_inv_def NetworkInterface_tick_def by (auto simp: dom_def Let_def split: option.splits if_splits)

section \<open>Histories\<close>

datatype ni_event = SendDatagram IPv4Datagram Address | RecvFrame EthernetFrame | TickInterface size_t

fun ni_step :: "NetworkInterface \<Rightarrow> ni_event \<Rightarrow> (IPv4Datagram option \<times> NetworkInterface) result" where
  "ni_step n (SendDatagram d hop) = and_then (send_datagram n d hop) (\<lambda>n. Inr (None, n))"
| "ni_step n (RecvFrame f) = recv_frame n f"
| "ni_step n (TickInterface ms) = Inr (None, NetworkInterface_tick n ms)"

fun ni_admissible :: "NetworkInterface \<Rightarrow> ni_event \<Rightarrow> bool" where
  "ni_admissible n (SendDatagram d hop) = dgram_ok d"
| "ni_admissible n (RecvFrame f) = frame_ok f"
| "ni_admissible n (TickInterface ms) = True"

fun sent_datagrams :: "ni_event list \<Rightarrow> IPv4Datagram list" where
  "sent_datagrams [] = []"
| "sent_datagrams (SendDatagram d hop # es) = d # sent_datagrams es"
| "sent_datagrams (_ # es) = sent_datagrams es"

text \<open>The payloads of the IPv4 frames that were sent, and of the datagrams that wait.\<close>

definition framed :: "NetworkInterface \<Rightarrow> BufferList multiset" where
  "framed n = mset (map ef_payload (filter (\<lambda>f. eh_type (ef_header f) = TYPE_IPv4) (ni_frames_out n)))"

definition waiting :: "NetworkInterface \<Rightarrow> BufferList multiset" where
  "waiting n = (\<Sum>ip\<in>UNIV. mset (map dgram_payload (ni_queue n ip)))"

lemma waiting_update:
  assumes "\<And>ip'. ip' \<noteq> ip \<Longrightarrow> ni_queue n' ip' = ni_queue n ip'"
  shows "waiting n' + mset (map dgram_payload (ni_queue n ip)) = waiting n + mset (map dgram_payload (ni_queue n' ip))"
proof -
  have "(\<Sum>ip'\<in>UNIV - {ip}. mset (map dgram_payload (ni_queue n' ip'))) = (\<Sum>ip'\<in>UNIV - {ip}. mset (map dgram_payload (ni_queue n ip')))"
    using assms by (intro sum.cong) auto
  then show ?thesis unfolding waiting_def
    using sum.remove [of UNIV ip "\<lambda>ip'. mset (map dgram_payload (ni_queue n' ip'))"]
      sum.remove [of UNIV ip "\<lambda>ip'. mset (map dgram_payload (ni_queue n ip'))"] by (simp add: ac_simps)
qed

lemma types_differ [simp]: "TYPE_ARP \<noteq> TYPE_IPv4"
  by (simp add: TYPE_ARP_def TYPE_IPv4_def)

lemma send_conserves:
  assumes inv: "ni_inv n" and d: "dgram_ok d" and op: "send_datagram n d hop = Inr n'"
  shows "framed n' + waiting n' = framed n + waiting n + {#dgram_payload d#}"
proof -
  let ?ip = "ad_ip hop"
  note n' = send_datagram_ok [OF inv d, of hop]
  show ?thesis
  proof (cases "ni_ip_eth_map n ?ip")
    case (Some r)
    then have e: "n' = n\<lparr>ni_frames_out := ni_frames_out n @ [data_frame n (re_addr r) d]\<rparr>" using n' op by auto
    have "framed n' = framed n + {#dgram_payload d#}" unfolding e by (simp add: framed_def data_frame_def)
    moreover have "waiting n' = waiting n" unfolding e by (simp add: waiting_def ni_queue_def)
    ultimately show ?thesis by simp
  next
    case None
    have w: "ni_waiting_dgrams n' = (ni_waiting_dgrams n)(?ip \<mapsto> ni_queue n ?ip @ [d])" and f: "framed n' = framed n"
      using n' op None by (auto simp: framed_def message_frame_def split: if_splits)
    then have "waiting n' + mset (map dgram_payload (ni_queue n ?ip)) = waiting n + mset (map dgram_payload (ni_queue n' ?ip))"
      by (intro waiting_update) (simp add: ni_queue_def)
    moreover have "ni_queue n' ?ip = ni_queue n ?ip @ [d]" using w by (simp add: ni_queue_def)
    ultimately show ?thesis using f by simp
  qed
qed

lemma after_arp_conserves: "framed (after_arp n m) + waiting (after_arp n m) = framed n + waiting n"
proof -
  let ?ip = "ar_sender_ip_address m"
  have q: "ni_queue (after_arp n m) ip = (if ip = ?ip then [] else ni_queue n ip)" for ip
    by (simp add: after_arp_def ni_queue_def Let_def)
  then have w: "waiting (after_arp n m) + mset (map dgram_payload (ni_queue n ?ip)) = waiting n"
    using waiting_update [of ?ip "after_arp n m" n] by simp
  have d: "filter (\<lambda>f. eh_type (ef_header f) = TYPE_IPv4) (map (data_frame n eth) ds) = map (data_frame n eth) ds" for eth ds
    by (induction ds) (simp_all add: data_frame_def)
  have e: "image_mset (ef_payload \<circ> data_frame n eth) M = image_mset dgram_payload M" for eth M
    by (simp add: comp_def data_frame_def)
  have "framed (after_arp n m) = framed n + mset (map dgram_payload (ni_queue n ?ip))"
    unfolding framed_def by (simp add: after_arp_def Let_def message_frame_def d e)
  then show ?thesis unfolding w [symmetric] by (simp add: ac_simps)
qed

lemma tick_conserves: "framed (NetworkInterface_tick n ms) + waiting (NetworkInterface_tick n ms) = framed n + waiting n"
proof -
  have "ni_queue (NetworkInterface_tick n ms) = ni_queue n" "ni_frames_out (NetworkInterface_tick n ms) = ni_frames_out n"
    by (simp_all add: fun_eq_iff ni_queue_def NetworkInterface_tick_def)
  then show ?thesis unfolding framed_def waiting_def by (simp only:)
qed

lemma ni_step_ok:
  assumes inv: "ni_inv n" and ok: "ni_admissible n e"
  shows "\<exists>out n'. ni_step n e = Inr (out, n') \<and> ni_inv n' \<and>
    framed n' + waiting n' = framed n + waiting n + mset (map dgram_payload (sent_datagrams [e]))"
proof (cases e)
  case (SendDatagram d hop)
  then have d: "dgram_ok d" using ok by simp
  obtain n' where n': "send_datagram n d hop = Inr n'" "ni_inv n'" using send_datagram_ok [OF inv d] by blast
  then show ?thesis using SendDatagram send_conserves [OF inv d n'(1)] by simp
next
  case (RecvFrame f)
  then have "frame_ok f" using ok by simp
  from recv_frame_ok [OF inv this] obtain d n' where "recv_frame n f = Inr (d, n')" "ni_inv n'" "n' = n \<or> (\<exists>m. arp_ok m \<and> n' = after_arp n m)"
    by blast
  then show ?thesis using RecvFrame after_arp_conserves by auto
next
  case (TickInterface ms)
  then show ?thesis using tick_inv [OF inv] tick_conserves by simp
qed

interpretation netif: safe_machine ni_step ni_inv ni_admissible
  by unfold_locales (use ni_step_ok in blast)

lemma ni_run_conserves:
  assumes "ni_inv n" "admissible_run ni_step ni_admissible n es" "run ni_step n es = Inr (outs, n')"
  shows "framed n' + waiting n' = framed n + waiting n + mset (map dgram_payload (sent_datagrams es))"
  using assms
proof (induction es arbitrary: n outs)
  case Nil
  then show ?case by simp
next
  case (Cons e es)
  obtain out n1 where st: "ni_step n e = Inr (out, n1)" "ni_inv n1"
    "framed n1 + waiting n1 = framed n + waiting n + mset (map dgram_payload (sent_datagrams [e]))"
    using ni_step_ok [of n e] Cons.prems(1,2) by auto
  obtain rest where rest: "run ni_step n1 es = Inr (rest, n')"
    using Cons.prems(3) st(1) by (auto simp: and_then_Inr_iff)
  have "sent_datagrams (e # es) = sent_datagrams [e] @ sent_datagrams es" by (cases e) simp_all
  then show ?case using Cons.IH [OF st(2) _ rest] Cons.prems(2) st by (simp add: ac_simps)
qed

section \<open>Frames on the wire\<close>

definition carried :: "EthernetFrame \<Rightarrow> EthernetFrame \<Rightarrow> bool" where
  "carried f g \<longleftrightarrow> EthernetFrame_parse EthernetFrame_default (Buffer_of (BufferList_concatenate (EthernetFrame_serialize f))) = Inr (NoError, g)"

lemma carried_message:
  assumes "length dst = 6" "length (ni_ethernet_address n) = 6" "arp_ok m"
  shows "\<exists>g p. carried (message_frame n dst m) g \<and> ef_header g = ef_header (message_frame n dst m) \<and> ef_payload g = BufferList_of_Buffer p \<and>
    ARPMessage_parse ARPMessage_default p = Inr (NoError, m)"
proof -
  let ?f = "message_frame n dst m"
  have "eth_ok (ef_header ?f)" "length (bl_str (ef_payload ?f)) + EthernetHeader_LENGTH < two64"
    using assms by (simp_all add: message_frame_def eth_ok_def EthernetHeader_LENGTH_def arp_bytes_def arp_ok_def)
  from frame_wire [OF this, of EthernetFrame_default] obtain p where p: "buf_inv p" "Buffer_str p = arp_bytes m"
    "carried ?f (EthernetFrame_default\<lparr>ef_header := ef_header ?f, ef_payload := BufferList_of_Buffer p\<rparr>)"
    unfolding carried_def by (auto simp: message_frame_def)
  with ARPMessage_parse_bytes [OF p(1,2) assms(3)] show ?thesis by (intro exI conjI) (assumption | simp)+
qed

lemma carried_datagram:
  assumes d: "dgram_ok d" and "length dst = 6" "length (ni_ethernet_address n) = 6"
  shows "\<exists>g p d'. carried (data_frame n dst d) g \<and> ef_header g = ef_header (data_frame n dst d) \<and> ef_payload g = BufferList_of_Buffer p \<and>
    IPv4Datagram_parse IPv4Datagram_default p = Inr (NoError, d') \<and> dg_header d' = (dg_header d)\<lparr>ih_cksum := ih_cksum (dg_header d')\<rparr> \<and>
    bl_str (dg_payload d') = bl_str (dg_payload d) \<and> (\<exists>q. dg_payload d' = BufferList_of_Buffer q \<and> buf_inv q)"
proof -
  let ?f = "data_frame n dst d"
  obtain bl c where bl: "IPv4Datagram_serialize d = Inr bl" "bl_str bl = ip_header_bytes ((dg_header d)\<lparr>ih_cksum := c\<rparr>) @ bl_str (dg_payload d)"
    "length (bl_str bl) = unat (ih_len (dg_header d))" "cksum_of 0 (ip_header_bytes ((dg_header d)\<lparr>ih_cksum := c\<rparr>)) = 0"
    using IPv4Datagram_serialize_ok [OF d] by blast
  have "unat (ih_len (dg_header d)) < 65536" using unsigned_less [where 'a = nat, of "ih_len (dg_header d)"] by simp
  then have "eth_ok (ef_header ?f)" "length (bl_str (ef_payload ?f)) + EthernetHeader_LENGTH < two64"
    using assms(2,3) bl(1,3) by (simp_all add: data_frame_def dgram_payload_def eth_ok_def EthernetHeader_LENGTH_def)
  from frame_wire [OF this, of EthernetFrame_default] obtain p where p: "buf_inv p" "Buffer_str p = bl_str bl"
    "carried ?f (EthernetFrame_default\<lparr>ef_header := ef_header ?f, ef_payload := BufferList_of_Buffer p\<rparr>)"
    using bl(1) unfolding carried_def by (auto simp: data_frame_def dgram_payload_def)
  have h: "ip_header_ok ((dg_header d)\<lparr>ih_cksum := c\<rparr>)"
    "4 * unat (ih_hlen ((dg_header d)\<lparr>ih_cksum := c\<rparr>)) + length (bl_str (dg_payload d)) = unat (ih_len ((dg_header d)\<lparr>ih_cksum := c\<rparr>))"
    using d by (simp_all add: dgram_ok_def ip_header_ok_def)
  obtain d' q where "IPv4Datagram_parse IPv4Datagram_default p = Inr (NoError, d')" "dg_header d' = (dg_header d)\<lparr>ih_cksum := c\<rparr>"
    "bl_str (dg_payload d') = bl_str (dg_payload d)" "dg_payload d' = BufferList_of_Buffer q" "buf_inv q"
    using IPv4Datagram_parse_wire [OF p(1) _ h bl(4), of IPv4Datagram_default] p(2) bl(2) by auto
  with p(3) show ?thesis by (intro exI conjI) (assumption | simp)+
qed

lemma data_frame_length:
  assumes d: "dgram_ok d" and "length dst = 6" "length (ni_ethernet_address n) = 6"
  shows "length (bl_str (EthernetFrame_serialize (data_frame n dst d))) \<le> 65549"
proof -
  obtain bl where bl: "IPv4Datagram_serialize d = Inr bl" "length (bl_str bl) = unat (ih_len (dg_header d))"
    using IPv4Datagram_serialize_ok [OF d] by blast
  have "unat (ih_len (dg_header d)) < 65536" using unsigned_less [where 'a = nat, of "ih_len (dg_header d)"] by simp
  then show ?thesis using assms(2,3) bl
    by (simp add: data_frame_def dgram_payload_def EthernetFrame_serialize_def EthernetHeader_serialize_eq Let_def)
qed

section \<open>Properties\<close>


definition sample_datagram :: IPv4Datagram where
  "sample_datagram = \<lparr>dg_header = IPv4Header_default\<lparr>ih_len := 23, ih_src := 7\<rparr>, dg_payload = BufferList_of_string [1, 2, 3]\<rparr>"

lemma sample_datagram_ok: "dgram_ok sample_datagram"
  by (simp add: sample_datagram_def dgram_ok_def ip_header_ok_def IPv4Header_default_def IPv4Header_LENGTH_def)




text \<open>C24. Address resolution between two interfaces on a link: a datagram for an interface whose address is not known makes a request, the
  request makes the other interface answer, the answer releases the datagram, and the frame then sent delivers it, with its header and its
  payload, to the other side. Every frame crosses the wire: it is serialized and parsed again.\<close>

theorem arp_resolution:
  assumes a: "ni_inv a" and b: "ni_inv b" and d: "dgram_ok d" and hop: "ad_ip hop = ad_ip (ni_ip_address b)"
    and unknown: "ni_ip_eth_map a (ad_ip hop) = None" "ni_waiting_dgrams a (ad_ip hop) = None"
    and quiet: "ni_waiting_dgrams b (ad_ip (ni_ip_address a)) = None"
  shows "\<exists>a1 a2 b1 f1 f2 f3 g1 g2 g3 d'.
    send_datagram a d hop = Inr a1 \<and> ni_frames_out a1 = ni_frames_out a @ [f1] \<and> carried f1 g1 \<and>
    recv_frame b g1 = Inr (None, b1) \<and> ni_frames_out b1 = ni_frames_out b @ [f2] \<and> carried f2 g2 \<and>
    recv_frame a1 g2 = Inr (None, a2) \<and> ni_frames_out a2 = ni_frames_out a1 @ [f3] \<and> carried f3 g3 \<and>
    recv_frame b1 g3 = Inr (Some d', b1) \<and> dg_header d' = (dg_header d)\<lparr>ih_cksum := ih_cksum (dg_header d')\<rparr> \<and>
    bl_str (dg_payload d') = bl_str (dg_payload d)"
proof -
  let ?ea = "ni_ethernet_address a" and ?eb = "ni_ethernet_address b" and ?ia = "ad_ip (ni_ip_address a)" and ?ib = "ad_ip hop"
  have six: "length ?ea = 6" "length ?eb = 6" using a b unfolding ni_inv_def by blast+
  define f1 where "f1 = message_frame a ETHERNET_BROADCAST (request_msg a ?ib)"
  define a1 where "a1 = a\<lparr>ni_waiting_dgrams := (ni_waiting_dgrams a)(?ib \<mapsto> [d]), ni_ip_waiting_time_map := (ni_ip_waiting_time_map a)(?ib \<mapsto> 0),
    ni_frames_out := ni_frames_out a @ [f1]\<rparr>"
  have "dom (ni_waiting_dgrams a) = dom (ni_ip_waiting_time_map a)" using a unfolding ni_inv_def by blast
  then have "ni_ip_waiting_time_map a ?ib = None" using unknown(2) by (metis domIff)
  then have 1: "send_datagram a d hop = Inr a1" "ni_inv a1"
    using send_datagram_ok [OF a d, of hop] unknown by (auto simp: request_due_def ni_queue_def a1_def f1_def)
  obtain g1 p1 where g1: "carried f1 g1" "ef_header g1 = ef_header f1" "ef_payload g1 = BufferList_of_Buffer p1"
    "ARPMessage_parse ARPMessage_default p1 = Inr (NoError, request_msg a ?ib)"
    using carried_message [of ETHERNET_BROADCAST a "request_msg a ?ib"] six unfolding f1_def by (auto simp: ETHERNET_BROADCAST_def)
  define b1 where "b1 = after_arp b (request_msg a ?ib)"
  have r1: "recv_frame b g1 = Inr (None, b1)" "ni_inv b1"
    unfolding b1_def using g1 six recv_arp_ok [OF b, of "request_msg a ?ib" g1 p1] by (simp_all add: f1_def message_frame_def)
  define f2 where "f2 = message_frame b ?ea (reply_msg b ?ea ?ia)"
  have f2: "ni_frames_out b1 = ni_frames_out b @ [f2]" "ni_ethernet_address b1 = ?eb"
    using quiet hop unfolding b1_def f2_def by (simp_all add: after_arp_def request_msg_def ni_queue_def Let_def)
  obtain g2 p2 where g2: "carried f2 g2" "ef_header g2 = ef_header f2" "ef_payload g2 = BufferList_of_Buffer p2"
    "ARPMessage_parse ARPMessage_default p2 = Inr (NoError, reply_msg b ?ea ?ia)"
    using carried_message [of ?ea b "reply_msg b ?ea ?ia"] six unfolding f2_def by auto
  define a2 where "a2 = after_arp a1 (reply_msg b ?ea ?ia)"
  have r2: "recv_frame a1 g2 = Inr (None, a2)"
    unfolding a2_def using g2 six recv_arp_ok(1) [OF 1(2), of "reply_msg b ?ea ?ia" g2 p2] by (simp add: f2_def message_frame_def a1_def)
  define f3 where "f3 = data_frame a ?eb d"
  have "data_frame a1 = data_frame a" by (simp add: fun_eq_iff data_frame_def a1_def)
  then have f3: "ni_frames_out a2 = ni_frames_out a1 @ [f3]"
    using hop unfolding a2_def f3_def by (simp add: after_arp_def reply_msg_def ni_queue_def Let_def OPCODE_REPLY_def OPCODE_REQUEST_def) (simp add: a1_def)
  obtain g3 p3 d' where g3: "carried f3 g3" "ef_header g3 = ef_header f3" "ef_payload g3 = BufferList_of_Buffer p3"
    "IPv4Datagram_parse IPv4Datagram_default p3 = Inr (NoError, d')"
    "dg_header d' = (dg_header d)\<lparr>ih_cksum := ih_cksum (dg_header d')\<rparr>" "bl_str (dg_payload d') = bl_str (dg_payload d)"
    using carried_datagram [OF d, of ?eb a] six unfolding f3_def by auto
  have "recv_frame b1 g3 = Inr (Some d', b1)" using g3 f2(2) by (simp add: recv_frame_def f3_def data_frame_def)
  then show ?thesis using 1(1) g1(1) r1(1) f2(1) g2(1) r2 f3 g3 by (intro exI conjI) (assumption | simp add: a1_def)+
qed

theorem arp_resolution_witness:
  "\<exists>a1 a2 b1 f1 g1 g2 g3 d'.
    send_datagram (NetworkInterface_new (replicate 6 2) \<lparr>ad_ip = 7, ad_port = 0\<rparr>) sample_datagram \<lparr>ad_ip = 9, ad_port = 0\<rparr> = Inr a1 \<and>
    ni_frames_out a1 = [f1] \<and> carried f1 g1 \<and>
    recv_frame (NetworkInterface_new (replicate 6 3) \<lparr>ad_ip = 9, ad_port = 0\<rparr>) g1 = Inr (None, b1) \<and>
    recv_frame a1 g2 = Inr (None, a2) \<and> recv_frame b1 g3 = Inr (Some d', b1) \<and> bl_str (dg_payload d') = [1, 2, 3]"
proof -
  let ?a = "NetworkInterface_new (replicate 6 2) \<lparr>ad_ip = 7, ad_port = 0\<rparr>" and ?b = "NetworkInterface_new (replicate 6 3) \<lparr>ad_ip = 9, ad_port = 0\<rparr>"
  have "ni_inv ?a" "ni_inv ?b" by (intro NetworkInterface_new_inv; simp)+
  from arp_resolution [OF this sample_datagram_ok, of "\<lparr>ad_ip = 9, ad_port = 0\<rparr>"] show ?thesis
    by (fastforce simp: NetworkInterface_new_def sample_datagram_def)
qed

text \<open>A frame for this interface of any other type than IPv4 and ARP fails an assertion and takes the program down.\<close>

theorem unknown_type_aborts:
  assumes "eh_dst (ef_header f) = ETHERNET_BROADCAST" "eh_type (ef_header f) \<noteq> TYPE_IPv4" "eh_type (ef_header f) \<noteq> TYPE_ARP"
  shows "recv_frame n f = Inl AssertionFailed"
  using assms by (simp add: recv_frame_def)

theorem unknown_type_aborts_witness:
  "recv_frame (NetworkInterface_new (replicate 6 2) \<lparr>ad_ip = 7, ad_port = 0\<rparr>)
     (EthernetFrame_default\<lparr>ef_header := \<lparr>eh_dst = ETHERNET_BROADCAST, eh_src = replicate 6 3, eh_type = 0x86dd\<rparr>\<rparr>) = Inl AssertionFailed"
  by (rule unknown_type_aborts) (simp_all add: TYPE_IPv4_def TYPE_ARP_def)

end
