(* ===== verification/Adapters.thy ===== *)
theory Adapters
  imports Sockets Address_Resolution
begin

text \<open>
  The adapters through which a TCP connection reads and writes segments: \<open>TCPOverUDPSocketAdapter\<close> of
  \<open>src/libsponge/tcp_helpers/fd_adapter.cc\<close>, \<open>TCPOverIPv4OverTunFdAdapter\<close> and \<open>TCPOverIPv4OverEthernetAdapter\<close> of
  \<open>tuntap_adapter.hh\<close> and \<open>tuntap_adapter.cc\<close>, and \<open>LossyFdAdapter\<close> of \<open>lossy_fd_adapter.hh\<close>.
  What the class templates ask of an adapter is the record \<open>adapter\<close> of its operations; what they rely on is the locale
  \<open>fd_adapter\<close> of \<open>Segment_Transport\<close>.
\<close>

section \<open>The operations of an adapter\<close>

record ('a, 'k) adapter =
  op_fd :: "'a \<Rightarrow> FDWrapper"
  op_base :: "'a \<Rightarrow> FdAdapterBase"
  op_set_base :: "FdAdapterBase \<Rightarrow> 'a \<Rightarrow> 'a"
  op_read :: "'a \<Rightarrow> 'k \<Rightarrow> (TCPSegment option \<times> 'a \<times> 'k) result"
  op_write :: "TCPSegment \<Rightarrow> 'a \<Rightarrow> 'k \<Rightarrow> ('a \<times> 'k) result"
  op_tick :: "size_t \<Rightarrow> 'a \<Rightarrow> 'k \<Rightarrow> ('a \<times> 'k) result"

text \<open>\<open>FdAdapterBase::tick\<close> does nothing.\<close>

definition FdAdapterBase_tick :: "size_t \<Rightarrow> 'a \<Rightarrow> 'k \<Rightarrow> ('a \<times> 'k) result" where
  "FdAdapterBase_tick ms a k = Inr (a, k)"

section \<open>TCPOverUDPSocketAdapter\<close>

record TCPOverUDPSocketAdapter =
  ud_base :: FdAdapterBase
  ud_sock :: FDWrapper

definition TCPOverUDPSocketAdapter_read ::
  "'k kernel \<Rightarrow> TCPOverUDPSocketAdapter \<Rightarrow> 'k \<Rightarrow> (TCPSegment option \<times> TCPOverUDPSocketAdapter \<times> 'k) result" where
  "TCPOverUDPSocketAdapter_read K a k =
     and_then (UDPSocket_recv K (ud_sock a) 65536 k) (\<lambda>(datagram, sock, k).
     let a = a\<lparr>ud_sock := sock\<rparr> in
     if \<not> fa_listen (ud_base a) \<and> rd_source_address datagram \<noteq> fc_destination (fa_cfg (ud_base a)) then Inr (None, a, k)
     else
       and_then (TCPSegment_parse TCPSegment_default (Buffer_of (rd_payload datagram)) 0) (\<lambda>(res, seg).
       if res \<noteq> NoError then Inr (None, a, k)
       else if fa_listen (ud_base a) then
         (if th_syn (sg_header seg) \<and> \<not> th_rst (sg_header seg) then
            (let base = (ud_base a)\<lparr>fa_cfg := (fa_cfg (ud_base a))\<lparr>fc_destination := rd_source_address datagram\<rparr>\<rparr>;
                 a = a\<lparr>ud_base := FdAdapterBase_set_listening base False\<rparr>
             in Inr (Some seg, a, k))
          else Inr (None, a, k))
       else Inr (Some seg, a, k)))"

definition TCPOverUDPSocketAdapter_write ::
  "'k kernel \<Rightarrow> TCPSegment \<Rightarrow> TCPOverUDPSocketAdapter \<Rightarrow> 'k \<Rightarrow> (TCPOverUDPSocketAdapter \<times> 'k) result" where
  "TCPOverUDPSocketAdapter_write K seg a k =
     and_then (TCPSegment_serialize (addressed (ud_base a) seg) 0) (\<lambda>bl.
     and_then (UDPSocket_sendto K (ud_sock a) (fc_destination (fa_cfg (ud_base a))) (BufferViewList_of_BufferList bl) k) (\<lambda>(sock, k).
     Inr (a\<lparr>ud_sock := sock\<rparr>, k)))"

definition udp_adapter :: "'k kernel \<Rightarrow> (TCPOverUDPSocketAdapter, 'k) adapter" where
  "udp_adapter K = \<lparr>op_fd = ud_sock, op_base = ud_base, op_set_base = (\<lambda>b a. a\<lparr>ud_base := b\<rparr>),
     op_read = TCPOverUDPSocketAdapter_read K, op_write = TCPOverUDPSocketAdapter_write K, op_tick = FdAdapterBase_tick\<rparr>"

section \<open>TCPOverIPv4OverTunFdAdapter\<close>

record TCPOverIPv4OverTunFdAdapter =
  tu_base :: FdAdapterBase
  tu_tun :: FDWrapper

text \<open>A read without a limit.\<close>

definition read_max :: "'k kernel \<Rightarrow> FDWrapper \<Rightarrow> 'k \<Rightarrow> (bytes \<times> FDWrapper \<times> 'k) result" where
  "read_max K fd k = FileDescriptor_read K fd (two64 - 1) k"

definition TCPOverIPv4OverTunFdAdapter_read ::
  "'k kernel \<Rightarrow> TCPOverIPv4OverTunFdAdapter \<Rightarrow> 'k \<Rightarrow> (TCPSegment option \<times> TCPOverIPv4OverTunFdAdapter \<times> 'k) result" where
  "TCPOverIPv4OverTunFdAdapter_read K a k =
     and_then (read_max K (tu_tun a) k) (\<lambda>(data, tun, k).
     let a = a\<lparr>tu_tun := tun\<rparr> in
     and_then (IPv4Datagram_parse IPv4Datagram_default (Buffer_of data)) (\<lambda>(res, ip_dgram).
     if res \<noteq> NoError then Inr (None, a, k)
     else and_then (unwrap_tcp_in_ip (tu_base a) ip_dgram) (\<lambda>(seg, base). Inr (seg, a\<lparr>tu_base := base\<rparr>, k))))"

definition TCPOverIPv4OverTunFdAdapter_write ::
  "'k kernel \<Rightarrow> TCPSegment \<Rightarrow> TCPOverIPv4OverTunFdAdapter \<Rightarrow> 'k \<Rightarrow> (TCPOverIPv4OverTunFdAdapter \<times> 'k) result" where
  "TCPOverIPv4OverTunFdAdapter_write K seg a k =
     and_then (wrap_tcp_in_ip (tu_base a) seg) (\<lambda>(ip_dgram, seg).
     and_then (IPv4Datagram_serialize ip_dgram) (\<lambda>bl.
     and_then (FileDescriptor_write K (tu_tun a) (BufferViewList_of_BufferList bl) True k) (\<lambda>(n, tun, k).
     Inr (a\<lparr>tu_tun := tun\<rparr>, k))))"

definition tun_adapter :: "'k kernel \<Rightarrow> (TCPOverIPv4OverTunFdAdapter, 'k) adapter" where
  "tun_adapter K = \<lparr>op_fd = tu_tun, op_base = tu_base, op_set_base = (\<lambda>b a. a\<lparr>tu_base := b\<rparr>),
     op_read = TCPOverIPv4OverTunFdAdapter_read K, op_write = TCPOverIPv4OverTunFdAdapter_write K, op_tick = FdAdapterBase_tick\<rparr>"

section \<open>TCPOverIPv4OverEthernetAdapter\<close>

record TCPOverIPv4OverEthernetAdapter =
  et_base :: FdAdapterBase
  et_tap :: FDWrapper
  et_interface :: NetworkInterface
  et_next_hop :: Address

definition write_frame :: "'k kernel \<Rightarrow> FDWrapper \<Rightarrow> EthernetFrame \<Rightarrow> 'k \<Rightarrow> (FDWrapper \<times> 'k) result" where
  "write_frame K tap frame k =
     and_then (FileDescriptor_write K tap (BufferViewList_of_BufferList (EthernetFrame_serialize frame)) True k) (\<lambda>(n, tap, k).
     Inr (tap, k))"

text \<open>The constructor writes a dummy frame.\<close>

definition TCPOverIPv4OverEthernetAdapter_new ::
  "'k kernel \<Rightarrow> FDWrapper \<Rightarrow> EthernetAddress \<Rightarrow> Address \<Rightarrow> Address \<Rightarrow> 'k \<Rightarrow> (TCPOverIPv4OverEthernetAdapter \<times> 'k) result" where
  "TCPOverIPv4OverEthernetAdapter_new K tap eth_address ip_address next_hop k =
     and_then (write_frame K tap EthernetFrame_default k) (\<lambda>(tap, k).
     Inr (\<lparr>et_base = FdAdapterBase_default, et_tap = tap, et_interface = NetworkInterface_new eth_address ip_address,
           et_next_hop = next_hop\<rparr>, k))"

primrec write_frames :: "'k kernel \<Rightarrow> EthernetFrame list \<Rightarrow> TCPOverIPv4OverEthernetAdapter \<Rightarrow> 'k \<Rightarrow> (TCPOverIPv4OverEthernetAdapter \<times> 'k) result" where
  "write_frames K [] a k = Inr (a, k)"
| "write_frames K (frame # frames) a k =
     and_then (write_frame K (et_tap a) frame k) (\<lambda>(tap, k).
     write_frames K frames (a\<lparr>et_tap := tap, et_interface := (et_interface a)\<lparr>ni_frames_out := frames\<rparr>\<rparr>) k)"

definition send_pending :: "'k kernel \<Rightarrow> TCPOverIPv4OverEthernetAdapter \<Rightarrow> 'k \<Rightarrow> (TCPOverIPv4OverEthernetAdapter \<times> 'k) result" where
  "send_pending K a k = write_frames K (ni_frames_out (et_interface a)) a k"

definition TCPOverIPv4OverEthernetAdapter_read ::
  "'k kernel \<Rightarrow> TCPOverIPv4OverEthernetAdapter \<Rightarrow> 'k \<Rightarrow> (TCPSegment option \<times> TCPOverIPv4OverEthernetAdapter \<times> 'k) result" where
  "TCPOverIPv4OverEthernetAdapter_read K a k =
     and_then (read_max K (et_tap a) k) (\<lambda>(data, tap, k).
     let a = a\<lparr>et_tap := tap\<rparr> in
     and_then (EthernetFrame_parse EthernetFrame_default (Buffer_of data)) (\<lambda>(res, frame).
     if res \<noteq> NoError then Inr (None, a, k)
     else
       and_then (recv_frame (et_interface a) frame) (\<lambda>(ip_dgram, interface).
       and_then (send_pending K (a\<lparr>et_interface := interface\<rparr>) k) (\<lambda>(a, k).
       case ip_dgram of
         None \<Rightarrow> Inr (None, a, k)
       | Some dgram \<Rightarrow> and_then (unwrap_tcp_in_ip (et_base a) dgram) (\<lambda>(seg, base). Inr (seg, a\<lparr>et_base := base\<rparr>, k))))))"

definition TCPOverIPv4OverEthernetAdapter_tick ::
  "'k kernel \<Rightarrow> size_t \<Rightarrow> TCPOverIPv4OverEthernetAdapter \<Rightarrow> 'k \<Rightarrow> (TCPOverIPv4OverEthernetAdapter \<times> 'k) result" where
  "TCPOverIPv4OverEthernetAdapter_tick K ms_since_last_tick a k =
     send_pending K (a\<lparr>et_interface := NetworkInterface_tick (et_interface a) ms_since_last_tick\<rparr>) k"

definition TCPOverIPv4OverEthernetAdapter_write ::
  "'k kernel \<Rightarrow> TCPSegment \<Rightarrow> TCPOverIPv4OverEthernetAdapter \<Rightarrow> 'k \<Rightarrow> (TCPOverIPv4OverEthernetAdapter \<times> 'k) result" where
  "TCPOverIPv4OverEthernetAdapter_write K seg a k =
     and_then (wrap_tcp_in_ip (et_base a) seg) (\<lambda>(ip_dgram, seg).
     and_then (send_datagram (et_interface a) ip_dgram (et_next_hop a)) (\<lambda>interface.
     send_pending K (a\<lparr>et_interface := interface\<rparr>) k))"

definition ethernet_adapter :: "'k kernel \<Rightarrow> (TCPOverIPv4OverEthernetAdapter, 'k) adapter" where
  "ethernet_adapter K = \<lparr>op_fd = et_tap, op_base = et_base, op_set_base = (\<lambda>b a. a\<lparr>et_base := b\<rparr>),
     op_read = TCPOverIPv4OverEthernetAdapter_read K, op_write = TCPOverIPv4OverEthernetAdapter_write K,
     op_tick = TCPOverIPv4OverEthernetAdapter_tick K\<rparr>"

section \<open>LossyFdAdapter\<close>

text \<open>The generator of random numbers is asked only when there is a loss rate; its 32-bit number is cut to 16 bits.\<close>

definition should_drop :: "'k kernel \<Rightarrow> FdAdapterConfig \<Rightarrow> bool \<Rightarrow> 'k \<Rightarrow> bool \<times> 'k" where
  "should_drop K cfg uplink k =
     (let loss = (if uplink then fc_loss_rate_up cfg else fc_loss_rate_dn cfg) in
      if loss = 0 then (False, k)
      else (let (random, k) = sys_random K k in (ucast random < loss, k)))"

definition LossyFdAdapter_read :: "'k kernel \<Rightarrow> ('a, 'k) adapter \<Rightarrow> 'a \<Rightarrow> 'k \<Rightarrow> (TCPSegment option \<times> 'a \<times> 'k) result" where
  "LossyFdAdapter_read K ops a k =
     and_then (op_read ops a k) (\<lambda>(ret, a, k).
     let (drop, k) = should_drop K (fa_cfg (op_base ops a)) False k in
     if drop then Inr (None, a, k) else Inr (ret, a, k))"

definition LossyFdAdapter_write :: "'k kernel \<Rightarrow> ('a, 'k) adapter \<Rightarrow> TCPSegment \<Rightarrow> 'a \<Rightarrow> 'k \<Rightarrow> ('a \<times> 'k) result" where
  "LossyFdAdapter_write K ops seg a k =
     (let (drop, k) = should_drop K (fa_cfg (op_base ops a)) True k in
      if drop then Inr (a, k) else op_write ops seg a k)"

definition lossy_adapter :: "'k kernel \<Rightarrow> ('a, 'k) adapter \<Rightarrow> ('a, 'k) adapter" where
  "lossy_adapter K ops = ops\<lparr>op_read := LossyFdAdapter_read K ops, op_write := LossyFdAdapter_write K ops\<rparr>"

end
