(* ===== verification/Kernel_Log.thy ===== *)
theory Kernel_Log
  imports Event_Loop Adapters
begin

text \<open>
  A record of what a program reads and writes, kept beside the state of any kernel: the bytes that \<open>read\<close> handed over and
  the bytes that \<open>writev\<close> took, for each descriptor, and the segments that passed through an adapter. The program cannot see the record;
  the properties of the programs that move bytes between descriptors and streams are stated with it, for every kernel.
\<close>

section \<open>A kernel with a record\<close>

record 'k logged_state =
  lg_kernel :: 'k
  lg_consumed :: "int \<Rightarrow> bytes"
  lg_accepted :: "int \<Rightarrow> bytes"

definition nothing_logged :: "'k \<Rightarrow> 'k logged_state" where
  "nothing_logged k = \<lparr>lg_kernel = k, lg_consumed = (\<lambda>_. []), lg_accepted = (\<lambda>_. [])\<rparr>"

definition through :: "('k \<Rightarrow> 'x \<times> 'k) \<Rightarrow> 'k logged_state \<Rightarrow> 'x \<times> 'k logged_state" where
  "through call s = (case call (lg_kernel s) of (x, k) \<Rightarrow> (x, s\<lparr>lg_kernel := k\<rparr>))"

definition logged :: "'k kernel \<Rightarrow> 'k logged_state kernel" where
  "logged K = \<lparr>sys_read = (\<lambda>f n s. case sys_read K f n (lg_kernel s) of ((ret, errno, d), k) \<Rightarrow> ((ret, errno, d),
       s\<lparr>lg_kernel := k, lg_consumed := (lg_consumed s)(f := lg_consumed s f @ string_resize d (nat (to_int ret)))\<rparr>)),
     sys_writev = (\<lambda>f bs s. case sys_writev K f bs (lg_kernel s) of ((ret, errno), k) \<Rightarrow> ((ret, errno),
       s\<lparr>lg_kernel := k, lg_accepted := (lg_accepted s)(f := lg_accepted s f @ take (nat (to_int ret)) bs)\<rparr>)),
     sys_close = (\<lambda>f. through (sys_close K f)), sys_getfl = (\<lambda>f. through (sys_getfl K f)), sys_setfl = (\<lambda>f n. through (sys_setfl K f n)),
     sys_shutdown = (\<lambda>f how. through (sys_shutdown K f how)), sys_recvfrom = (\<lambda>f n. through (sys_recvfrom K f n)),
     sys_sendmsg = (\<lambda>f a bs. through (sys_sendmsg K f a bs)), sys_poll = (\<lambda>ps t. through (sys_poll K ps t)),
     sys_socket = (\<lambda>d t. through (sys_socket K d t)), sys_socketpair = (\<lambda>d t. through (sys_socketpair K d t)),
     sys_getsockopt = (\<lambda>f l n. through (sys_getsockopt K f l n)), sys_setsockopt = (\<lambda>f l n v. through (sys_setsockopt K f l n v)),
     sys_getsockname = (\<lambda>f. through (sys_getsockname K f)), sys_getpeername = (\<lambda>f. through (sys_getpeername K f)),
     sys_bind = (\<lambda>f a. through (sys_bind K f a)), sys_connect = (\<lambda>f a. through (sys_connect K f a)),
     sys_listen = (\<lambda>f n. through (sys_listen K f n)), sys_accept = (\<lambda>f. through (sys_accept K f)),
     sys_open = (\<lambda>n f. through (sys_open K n f)), sys_tunsetiff = (\<lambda>f n m. through (sys_tunsetiff K f n m)),
     sys_clock = through (sys_clock K), sys_random = through (sys_random K)\<rparr>"

text \<open>The record is the same.\<close>

definition same_log :: "'k logged_state \<Rightarrow> 'k logged_state \<Rightarrow> bool" where
  "same_log s s' \<longleftrightarrow> lg_consumed s' = lg_consumed s \<and> lg_accepted s' = lg_accepted s"

lemma same_log_refl [simp]: "same_log s s"
  by (simp add: same_log_def)

lemma same_log_trans: "same_log s s' \<Longrightarrow> same_log s' s'' \<Longrightarrow> same_log s s''"
  by (simp add: same_log_def)

lemma through_log: "through call s = (x, s') \<Longrightarrow> same_log s s'"
  by (auto simp: through_def same_log_def split: prod.splits)

lemma logged_calls:
  "sys_poll (logged K) ps t s = (x, s') \<Longrightarrow> same_log s s'" "sys_close (logged K) f s = (y, s') \<Longrightarrow> same_log s s'"
  "sys_shutdown (logged K) f how s = (y, s') \<Longrightarrow> same_log s s'" "sys_getfl (logged K) f s = (y, s') \<Longrightarrow> same_log s s'"
  "sys_setfl (logged K) f n s = (y, s') \<Longrightarrow> same_log s s'" "sys_clock (logged K) s = (c, s') \<Longrightarrow> same_log s s'"
  "sys_random (logged K) s = (r, s') \<Longrightarrow> same_log s s'" "sys_getsockopt (logged K) f l m s = (o1, s') \<Longrightarrow> same_log s s'"
  "sys_socketpair (logged K) d ty s = (o2, s') \<Longrightarrow> same_log s s'"
  by (auto simp: logged_def dest: through_log)

section \<open>Descriptors, one call at a time\<close>

lemma read_Inr_iff:
  "FileDescriptor_read K fd limit k = Inr (d, fd', k') \<longleftrightarrow> (\<exists>ret errno str.
     sys_read K (fd_fd fd) (min READ_BUFFER_SIZE limit) k = ((ret, errno, str), k') \<and> 0 \<le> to_int ret \<and> to_int ret \<le> int (min READ_BUFFER_SIZE limit) \<and>
     d = string_resize str (nat (to_int ret)) \<and> fd' = register_read (fd\<lparr>fd_eof := fd_eof fd \<or> limit > 0 \<and> to_int ret = 0\<rparr>))"
proof -
  obtain ret errno str k1 where r: "sys_read K (fd_fd fd) (min READ_BUFFER_SIZE limit) k = ((ret, errno, str), k1)" by (metis surj_pair)
  have e: "(if limit > 0 \<and> n = 0 then fd\<lparr>fd_eof := True\<rparr> else fd) = fd\<lparr>fd_eof := fd_eof fd \<or> limit > 0 \<and> n = 0\<rparr>" for n :: int
    by (cases fd) simp
  have "FileDescriptor_read K fd limit k = and_then (SystemCall ''read'' (to_int ret) errno 0) (\<lambda>n.
      if n > int (min READ_BUFFER_SIZE limit) then Inl (RuntimeError ''read() read more than requested'')
      else and_then (resize_to str n) (\<lambda>str. Inr (str, register_read (fd\<lparr>fd_eof := fd_eof fd \<or> limit > 0 \<and> n = 0\<rparr>), k1)))"
    unfolding FileDescriptor_read_def Let_def r prod.case e ..
  then show ?thesis
    by (cases "to_int ret \<ge> 0"; cases "errno = 0"; cases "to_int ret > int (min READ_BUFFER_SIZE limit)")
      (auto simp: r SystemCall_def resize_to_def simp del: of_nat_min)
qed

lemma write_Inr_iff:
  assumes len: "length (bv_str buffer) < two63"
  shows "FileDescriptor_write K fd buffer False k = Inr (n, fd', k') \<longleftrightarrow> (\<exists>ret errno.
     sys_writev K (fd_fd fd) (bv_str buffer) k = ((ret, errno), k') \<and> 0 \<le> to_int ret \<and> to_int ret \<le> int (length (bv_str buffer)) \<and>
     (bv_str buffer \<noteq> [] \<longrightarrow> to_int ret \<noteq> 0) \<and> n = nat (to_int ret) \<and> fd' = register_write fd)"
proof -
  let ?n = "length (bv_str buffer)"
  obtain ret errno k1 where r: "sys_writev K (fd_fd fd) (bv_str buffer) k = ((ret, errno), k1)" by (metis surj_pair)
  have sz: "BufferViewList_size buffer = ?n" "signed_take_bit 63 (int ?n) = int ?n"
    using len by (simp_all add: signed_take_bit_int_eq_self_iff)
  have w: "FileDescriptor_write K fd buffer False k = and_then (SystemCall ''writev'' (to_int ret) errno 0) (\<lambda>m.
      if m = 0 \<and> ?n \<noteq> 0 then Inl (RuntimeError ''write returned 0 given non-empty input buffer'')
      else if m > int ?n then Inl (RuntimeError ''write wrote more than length of input buffer'')
      else and_then (BufferViewList_remove_prefix buffer (to_size m)) (\<lambda>b. Inr (add64 0 (to_size m), register_write fd, k1)))"
    unfolding FileDescriptor_write_def write_loop.simps [of K False fd buffer 0 k] iovec_bytes_str r Let_def prod.case sz simp_thms if_False ..
  consider "to_int ret < 0" "errno \<noteq> 0" | "to_int ret < 0" "errno = 0" | "to_int ret \<ge> 0" "to_int ret > int ?n" | "to_int ret \<ge> 0" "to_int ret \<le> int ?n"
    by linarith
  then show ?thesis
  proof cases
    case 2
    have "to_int ret mod int two64 = (to_int ret + int two64) mod int two64" by simp
    also have "\<dots> = to_int ret + int two64" using to_int_range [of ret] 2(1) by (intro mod_pos_pos_trivial) simp_all
    finally have "to_size (to_int ret) \<ge> two63" using to_int_range [of ret] unfolding to_size_def by linarith
    with view_list.discard_short [of buffer "to_size (to_int ret)"] len
    have "BufferViewList_remove_prefix buffer (to_size (to_int ret)) = Inl OutOfBounds" by simp
    with 2 show ?thesis unfolding w by (simp add: SystemCall_def r)
  next
    case 4
    then have "to_size (to_int ret) = nat (to_int ret)" using len by (intro to_size_id) linarith+
    moreover have "nat (to_int ret) \<le> ?n" using 4 by linarith
    with view_list.discard_ok [of "nat (to_int ret)" buffer] len obtain b where "BufferViewList_remove_prefix buffer (nat (to_int ret)) = Inr b" by auto
    moreover have "add64 0 (nat (to_int ret)) = nat (to_int ret)" using 4 len by simp
    ultimately show ?thesis using 4 unfolding w by (auto simp: r)
  qed (auto simp: w SystemCall_def r)
qed

section \<open>What the descriptors record\<close>

lemma logged_read:
  assumes "FileDescriptor_read (logged K) fd limit s = Inr (d, fd', s')"
  shows "lg_consumed s' = (lg_consumed s)(fd_fd fd := lg_consumed s (fd_fd fd) @ d)" "lg_accepted s' = lg_accepted s" "length d \<le> limit"
    "fd_fd fd' = fd_fd fd" "fd_read_count fd' = fd_read_count fd + 1" "fd_eof fd' \<longleftrightarrow> fd_eof fd \<or> limit > 0 \<and> d = []"
  using assms by (auto simp: read_Inr_iff logged_def string_resize_def split: prod.splits)

lemma logged_write:
  assumes "FileDescriptor_write (logged K) fd buffer False s = Inr (n, fd', s')" "length (bv_str buffer) < two63"
  shows "lg_accepted s' = (lg_accepted s)(fd_fd fd := lg_accepted s (fd_fd fd) @ take n (bv_str buffer))" "lg_consumed s' = lg_consumed s"
    "n \<le> length (bv_str buffer)" "fd' = register_write fd"
  using assms by (auto simp: write_Inr_iff logged_def split: prod.splits)

lemma logged_close:
  assumes "FDWrapper_close (logged K) fd s = Inr (fd', s')"
  shows "same_log s s'" "fd_fd fd' = fd_fd fd"
  using assms by (auto simp: FDWrapper_close_def and_then_Inr_iff Let_def split: prod.splits dest: logged_calls)

lemma logged_shutdown:
  assumes "Socket_shutdown (logged K) fd how s = Inr (fd', s')"
  shows "same_log s s'" "fd_fd fd' = fd_fd fd"
  using assms by (auto simp: Socket_shutdown_def and_then_Inr_iff Let_def split: prod.splits if_splits dest: logged_calls)

lemma logged_blocking:
  assumes "set_blocking (logged K) fd b s = Inr s'"
  shows "same_log s s'"
proof -
  obtain x s1 where g: "sys_getfl (logged K) (fd_fd fd) s = (x, s1)" by (metis surj_pair)
  obtain flags where "snd (sys_setfl (logged K) (fd_fd fd) flags s1) = s'"
    using assms g by (cases x) (auto simp: set_blocking_def and_then_Inr_iff Let_def case_prod_beta)
  then obtain y where "sys_setfl (logged K) (fd_fd fd) flags s1 = (y, s')" by (metis prod.collapse)
  from same_log_trans [OF logged_calls(4) [OF g] logged_calls(5) [OF this]] show ?thesis .
qed

section \<open>An adapter with a record\<close>

record 'a logged_adapter_state =
  la_adapter :: 'a
  la_received :: "TCPSegment list"
  la_sent :: "TCPSegment list"

definition logged_adapter :: "('a, 'k) adapter \<Rightarrow> ('a logged_adapter_state, 'k logged_state) adapter" where
  "logged_adapter ops = \<lparr>op_fd = (\<lambda>a. op_fd ops (la_adapter a)), op_base = (\<lambda>a. op_base ops (la_adapter a)),
     op_set_base = (\<lambda>b a. a\<lparr>la_adapter := op_set_base ops b (la_adapter a)\<rparr>),
     op_read = (\<lambda>a s. and_then (op_read ops (la_adapter a) (lg_kernel s)) (\<lambda>(seg, a', k).
       Inr (seg, a\<lparr>la_adapter := a', la_received := la_received a @ (case seg of None \<Rightarrow> [] | Some seg \<Rightarrow> [seg])\<rparr>, s\<lparr>lg_kernel := k\<rparr>))),
     op_write = (\<lambda>seg a s. and_then (op_write ops seg (la_adapter a) (lg_kernel s)) (\<lambda>(a', k).
       Inr (a\<lparr>la_adapter := a', la_sent := la_sent a @ [seg]\<rparr>, s\<lparr>lg_kernel := k\<rparr>))),
     op_tick = (\<lambda>ms a s. and_then (op_tick ops ms (la_adapter a) (lg_kernel s)) (\<lambda>(a', k). Inr (a\<lparr>la_adapter := a'\<rparr>, s\<lparr>lg_kernel := k\<rparr>)))\<rparr>"

lemma logged_adapter_ops:
  "op_read (logged_adapter ops) a s = Inr (seg, a', s') \<Longrightarrow>
    same_log s s' \<and> la_received a' = la_received a @ (case seg of None \<Rightarrow> [] | Some seg \<Rightarrow> [seg]) \<and> la_sent a' = la_sent a"
  "op_write (logged_adapter ops) sg a s = Inr (a', s') \<Longrightarrow> same_log s s' \<and> la_received a' = la_received a \<and> la_sent a' = la_sent a @ [sg]"
  "op_tick (logged_adapter ops) ms a s = Inr (a', s') \<Longrightarrow> same_log s s' \<and> la_received a' = la_received a \<and> la_sent a' = la_sent a"
  "la_received (op_set_base (logged_adapter ops) b a) = la_received a" "la_sent (op_set_base (logged_adapter ops) b a) = la_sent a"
  by (auto simp: logged_adapter_def same_log_def and_then_Inr_iff)

end
