(* ===== verification/Stream_Copy.thy ===== *)
theory Stream_Copy
  imports Kernel_Log Byte_Stream
begin

text \<open>
  \<open>bidirectional_stream_copy\<close> of \<open>src/apps/bidirectional_stream_copy.cc\<close>: the loop behind the applications, which copies standard input to a
  socket and the socket to standard output through two byte streams. The lemmas show that it loses no byte, that its rules keep
  the contract of the event loop, and where they do not.
\<close>

section \<open>The world of the copy\<close>

record 'k copying =
  cp_kernel :: 'k
  cp_input :: FDWrapper
  cp_output :: FDWrapper
  cp_socket :: FDWrapper
  cp_outbound :: ByteStream
  cp_inbound :: ByteStream
  cp_outbound_shutdown :: bool
  cp_inbound_shutdown :: bool

definition max_copy_length :: size_t where
  "max_copy_length = 65536"

definition buffer_size :: size_t where
  "buffer_size = 1048576"

section \<open>The rules\<close>

text \<open>Rule 1: read from standard input into the outbound stream.\<close>

definition fill_outbound :: "'k kernel \<Rightarrow> 'k copying \<Rightarrow> 'k copying result" where
  "fill_outbound K w =
     and_then (ByteStream_remaining_capacity (cp_outbound w)) (\<lambda>room.
     and_then (FileDescriptor_read K (cp_input w) room (cp_kernel w)) (\<lambda>(data, input, k).
     and_then (ByteStream_write (cp_outbound w) data) (\<lambda>(_, outbound).
     and_then (if fd_eof input then ByteStream_end_input outbound else Inr outbound) (\<lambda>outbound.
     Inr (w\<lparr>cp_kernel := k, cp_input := input, cp_outbound := outbound\<rparr>)))))"

definition outbound_has_room :: "'k copying \<Rightarrow> bool result" where
  "outbound_has_room w =
     (if bs_error (cp_outbound w) then Inr False
      else and_then (ByteStream_remaining_capacity (cp_outbound w)) (\<lambda>room. Inr (room > 0 \<and> \<not> bs_error (cp_inbound w))))"

definition end_outbound :: "'k copying \<Rightarrow> 'k copying result" where
  "end_outbound w = and_then (ByteStream_end_input (cp_outbound w)) (\<lambda>outbound. Inr (w\<lparr>cp_outbound := outbound\<rparr>))"

text \<open>Rule 2: write the outbound stream to the socket.\<close>

definition drain_outbound :: "'k kernel \<Rightarrow> 'k copying \<Rightarrow> 'k copying result" where
  "drain_outbound K w =
     and_then (ByteStream_buffer_size (cp_outbound w)) (\<lambda>size.
     let bytes_to_write = min max_copy_length size in
     and_then (ByteStream_peek_output (cp_outbound w) bytes_to_write) (\<lambda>data.
     and_then (FileDescriptor_write K (cp_socket w) (BufferViewList_of_string data) False (cp_kernel w)) (\<lambda>(bytes_written, socket, k).
     and_then (ByteStream_pop_output (cp_outbound w) bytes_written) (\<lambda>outbound.
     if bs_eof outbound then
       and_then (Socket_shutdown K socket SHUT_WR k) (\<lambda>(socket, k).
       Inr (w\<lparr>cp_kernel := k, cp_socket := socket, cp_outbound := outbound, cp_outbound_shutdown := True\<rparr>))
     else Inr (w\<lparr>cp_kernel := k, cp_socket := socket, cp_outbound := outbound\<rparr>)))))"

definition outbound_pending :: "'k copying \<Rightarrow> bool result" where
  "outbound_pending w =
     and_then (ByteStream_buffer_empty (cp_outbound w)) (\<lambda>empty.
     Inr (\<not> empty \<or> bs_eof (cp_outbound w) \<and> \<not> cp_outbound_shutdown w))"

text \<open>Rule 3: read from the socket into the inbound stream.\<close>

definition fill_inbound :: "'k kernel \<Rightarrow> 'k copying \<Rightarrow> 'k copying result" where
  "fill_inbound K w =
     and_then (ByteStream_remaining_capacity (cp_inbound w)) (\<lambda>room.
     and_then (FileDescriptor_read K (cp_socket w) room (cp_kernel w)) (\<lambda>(data, socket, k).
     and_then (ByteStream_write (cp_inbound w) data) (\<lambda>(_, inbound).
     and_then (if fd_eof socket then ByteStream_end_input inbound else Inr inbound) (\<lambda>inbound.
     Inr (w\<lparr>cp_kernel := k, cp_socket := socket, cp_inbound := inbound\<rparr>)))))"

definition inbound_has_room :: "'k copying \<Rightarrow> bool result" where
  "inbound_has_room w =
     (if bs_error (cp_inbound w) then Inr False
      else and_then (ByteStream_remaining_capacity (cp_inbound w)) (\<lambda>room. Inr (room > 0 \<and> \<not> bs_error (cp_outbound w))))"

definition end_inbound :: "'k copying \<Rightarrow> 'k copying result" where
  "end_inbound w = and_then (ByteStream_end_input (cp_inbound w)) (\<lambda>inbound. Inr (w\<lparr>cp_inbound := inbound\<rparr>))"

text \<open>Rule 4: write the inbound stream to standard output.\<close>

definition drain_inbound :: "'k kernel \<Rightarrow> 'k copying \<Rightarrow> 'k copying result" where
  "drain_inbound K w =
     and_then (ByteStream_buffer_size (cp_inbound w)) (\<lambda>size.
     let bytes_to_write = min max_copy_length size in
     and_then (ByteStream_peek_output (cp_inbound w) bytes_to_write) (\<lambda>data.
     and_then (FileDescriptor_write K (cp_output w) (BufferViewList_of_string data) False (cp_kernel w)) (\<lambda>(bytes_written, output, k).
     and_then (ByteStream_pop_output (cp_inbound w) bytes_written) (\<lambda>inbound.
     if bs_eof inbound then
       and_then (FDWrapper_close K output k) (\<lambda>(output, k).
       Inr (w\<lparr>cp_kernel := k, cp_output := output, cp_inbound := inbound, cp_inbound_shutdown := True\<rparr>))
     else Inr (w\<lparr>cp_kernel := k, cp_output := output, cp_inbound := inbound\<rparr>)))))"

definition inbound_pending :: "'k copying \<Rightarrow> bool result" where
  "inbound_pending w =
     and_then (ByteStream_buffer_empty (cp_inbound w)) (\<lambda>empty.
     Inr (\<not> empty \<or> bs_eof (cp_inbound w) \<and> \<not> cp_inbound_shutdown w))"

definition copy_rules :: "'k kernel \<Rightarrow> 'k copying Rule list" where
  "copy_rules K =
     (let rules = add_rule [] cp_input In (fill_outbound K) outbound_has_room end_outbound;
          rules = add_rule rules cp_socket Out (drain_outbound K) outbound_pending end_outbound;
          rules = add_rule rules cp_socket In (fill_inbound K) inbound_has_room end_inbound
      in add_rule rules cp_output Out (drain_inbound K) inbound_pending end_inbound)"

section \<open>The loop\<close>

text \<open>The loop runs until the event loop says so. \<open>n\<close> bounds the number of turns; the flag says whether the loop was left.\<close>

primrec copy_loop :: "'k kernel \<Rightarrow> nat \<Rightarrow> 'k copying Rule list \<Rightarrow> 'k copying \<Rightarrow> (bool \<times> 'k copying) result" where
  "copy_loop K 0 rules w = Inr (False, w)"
| "copy_loop K (Suc n) rules w =
     and_then (wait_next_event K cp_kernel (\<lambda>k w. w\<lparr>cp_kernel := k\<rparr>) (- 1) rules w) (\<lambda>(ret, rules, w).
     if ret = Exit then Inr (True, w) else copy_loop K n rules w)"

definition STDIN_FILENO :: int where "STDIN_FILENO = 0"

definition STDOUT_FILENO :: int where "STDOUT_FILENO = 1"

text \<open>The local descriptors are closed by their destructors when the function returns; the world is the one before that.\<close>

definition bidirectional_stream_copy :: "'k kernel \<Rightarrow> nat \<Rightarrow> FDWrapper \<Rightarrow> 'k \<Rightarrow> (bool \<times> 'k copying) result" where
  "bidirectional_stream_copy K n socket k =
     and_then (FDWrapper_new STDIN_FILENO) (\<lambda>input.
     and_then (FDWrapper_new STDOUT_FILENO) (\<lambda>output.
     and_then (set_blocking K socket False k) (\<lambda>k.
     and_then (set_blocking K input False k) (\<lambda>k.
     and_then (set_blocking K output False k) (\<lambda>k.
     copy_loop K n (copy_rules K)
       \<lparr>cp_kernel = k, cp_input = input, cp_output = output, cp_socket = socket, cp_outbound = ByteStream_new buffer_size,
        cp_inbound = ByteStream_new buffer_size, cp_outbound_shutdown = False, cp_inbound_shutdown = False\<rparr>)))))"

section \<open>Streams between descriptors\<close>

lemma write_result:
  assumes "bs_inv s" "ByteStream_write s d = Inr (n, s')" "length d \<le> bs_capacity s - length (bs_contents s)"
  shows "\<not> bs_input_ended s \<and> bs_inv s' \<and> bs_contents s' = bs_contents s @ d \<and> n = length d"
proof -
  have open_: "\<not> bs_input_ended s" using assms(2) by (auto simp: ByteStream_write_def)
  have "min (length d) (abs_room (bs_abs s)) = length d" using assms(3) by (simp add: abs_room_def)
  with write_ok [OF assms(1) open_, of d] obtain s1 where s1: "ByteStream_write s d = Inr (length d, s1)" "bs_inv s1"
    "abs_step (bs_abs s) (Write d) = (Accepted (length d), bs_abs s1)" by auto
  have "bs_contents s1 = bs_contents s @ d" using arg_cong [OF s1(3), of "as_contents \<circ> snd"] assms(3) by (simp add: abs_room_def Let_def)
  then show ?thesis using s1(1,2) assms(2) open_ by simp
qed

lemma pop_result:
  assumes "bs_inv s" "n \<le> length (bs_contents s)" "ByteStream_pop_output s n = Inr s'"
  shows "bs_inv s' \<and> bs_contents s' = drop n (bs_contents s) \<and> bs_input_ended s' = bs_input_ended s"
proof -
  obtain s1 where "ByteStream_pop_output s n = Inr s1" "bs_inv s1" "abs_step (bs_abs s) (Pop n) = (Done, bs_abs s1)"
    using pop_output_ok [OF assms(1,2)] by blast
  then show ?thesis using assms(3) arg_cong [of _ _ as_contents] by (auto simp: bs_abs_def)
qed

lemma end_result:
  assumes "bs_inv s" "ByteStream_end_input s = Inr s'"
  shows "bs_inv s' \<and> bs_contents s' = bs_contents s \<and> bs_input_ended s'"
proof -
  obtain s1 where "ByteStream_end_input s = Inr s1" "bs_inv s1" "abs_step (bs_abs s) EndInput = (Done, bs_abs s1)"
    using end_input_ok [OF assms(1)] by blast
  then show ?thesis using assms(2) by (auto simp: bs_abs_def)
qed

text \<open>A stream is filled from a descriptor with what was read, and emptied into a descriptor by what was taken.\<close>

lemma filled:
  assumes "bs_inv s" "FileDescriptor_read (logged K) fd (bs_capacity s - length (bs_contents s)) k = Inr (d, fd', k')"
    and "ByteStream_write s d = Inr (n, s1)" "(if b then ByteStream_end_input s1 else Inr s1) = Inr s2"
  shows "\<not> bs_input_ended s \<and> bs_inv s2 \<and> bs_contents s2 = bs_contents s @ d"
proof -
  have "\<not> bs_input_ended s \<and> bs_inv s1 \<and> bs_contents s1 = bs_contents s @ d" using write_result [OF assms(1,3) logged_read(3) [OF assms(2)]] by blast
  with assms(4) end_result [of s1 s2] show ?thesis by (auto split: if_splits)
qed

lemma emptied:
  assumes "bs_inv s" "ByteStream_peek_output s (min max_copy_length (length (bs_contents s))) = Inr data"
    and "FileDescriptor_write (logged K) fd (BufferViewList_of_string data) False k = Inr (n, fd', k')" "ByteStream_pop_output s n = Inr s'"
  shows "bs_inv s'" "bs_contents s = take n data @ bs_contents s'" "bs_input_ended s' = bs_input_ended s"
    "lg_accepted k' = (lg_accepted k)(fd_fd fd := lg_accepted k (fd_fd fd) @ take n data)" "lg_consumed k' = lg_consumed k" "fd' = register_write fd"
proof -
  have data: "data = take (min max_copy_length (length (bs_contents s))) (bs_contents s)" using assms(1,2) by simp
  then have len: "length data \<le> length (bs_contents s)" "length (bv_str (BufferViewList_of_string data)) < two63"
    by (simp_all add: max_copy_length_def)
  note w = logged_write [OF assms(3) len(2)]
  have n: "n \<le> length (bs_contents s)" "take n data = take n (bs_contents s)" using w(3) len(1) unfolding data by (simp_all add: min_absorb1)
  note p = pop_result [OF assms(1) n(1) assms(4)]
  from p n(2) show "bs_inv s'" "bs_contents s = take n data @ bs_contents s'" "bs_input_ended s' = bs_input_ended s" by simp_all
  from w show "lg_accepted k' = (lg_accepted k)(fd_fd fd := lg_accepted k (fd_fd fd) @ take n data)" "lg_consumed k' = lg_consumed k"
    "fd' = register_write fd" by simp_all
qed

section \<open>Nothing is lost\<close>

definition copy_inv :: "int \<Rightarrow> 'k logged_state copying \<Rightarrow> bool" where
  "copy_inv sock w \<longleftrightarrow> bs_inv (cp_outbound w) \<and> bs_inv (cp_inbound w) \<and> fd_fd (cp_input w) = STDIN_FILENO \<and> fd_fd (cp_output w) = STDOUT_FILENO \<and>
     fd_fd (cp_socket w) = sock \<and>
     lg_consumed (cp_kernel w) STDIN_FILENO = lg_accepted (cp_kernel w) sock @ bs_contents (cp_outbound w) \<and>
     lg_consumed (cp_kernel w) sock = lg_accepted (cp_kernel w) STDOUT_FILENO @ bs_contents (cp_inbound w) \<and>
     (cp_outbound_shutdown w \<longrightarrow> bs_eof (cp_outbound w)) \<and> (cp_inbound_shutdown w \<longrightarrow> bs_eof (cp_inbound w))"

lemma eof_ended: "bs_inv s \<Longrightarrow> bs_eof s \<Longrightarrow> bs_input_ended s"
  by (simp add: bs_inv_def)

lemma still_eof: "bs_inv s \<Longrightarrow> bs_inv s' \<Longrightarrow> bs_eof s \<Longrightarrow> bs_contents s = d @ bs_contents s' \<Longrightarrow> bs_input_ended s' \<Longrightarrow> bs_eof s'"
  by (simp add: bs_inv_def)

lemma fill_outbound_keeps:
  assumes "copy_inv sock w" "fill_outbound (logged K) w = Inr w'" "sock \<noteq> STDIN_FILENO"
  shows "copy_inv sock w'"
proof -
  let ?s = "cp_outbound w"
  have inv: "bs_inv ?s" using assms(1) unfolding copy_inv_def by blast
  obtain d input k n s1 s2 where o: "FileDescriptor_read (logged K) (cp_input w) (bs_capacity ?s - length (bs_contents ?s)) (cp_kernel w) = Inr (d, input, k)"
    "ByteStream_write ?s d = Inr (n, s1)" "(if fd_eof input then ByteStream_end_input s1 else Inr s1) = Inr s2"
    "w' = w\<lparr>cp_kernel := k, cp_input := input, cp_outbound := s2\<rparr>"
    using assms(2) inv by (auto simp: fill_outbound_def and_then_Inr_iff)
  from filled [OF inv o(1-3)] logged_read [OF o(1)] assms(1,3) eof_ended [OF inv] show ?thesis
    unfolding o(4) copy_inv_def by auto
qed

lemma fill_inbound_keeps:
  assumes "copy_inv sock w" "fill_inbound (logged K) w = Inr w'" "sock \<noteq> STDIN_FILENO"
  shows "copy_inv sock w'"
proof -
  let ?s = "cp_inbound w"
  have inv: "bs_inv ?s" using assms(1) unfolding copy_inv_def by blast
  obtain d socket k n s1 s2 where o: "FileDescriptor_read (logged K) (cp_socket w) (bs_capacity ?s - length (bs_contents ?s)) (cp_kernel w) = Inr (d, socket, k)"
    "ByteStream_write ?s d = Inr (n, s1)" "(if fd_eof socket then ByteStream_end_input s1 else Inr s1) = Inr s2"
    "w' = w\<lparr>cp_kernel := k, cp_socket := socket, cp_inbound := s2\<rparr>"
    using assms(2) inv by (auto simp: fill_inbound_def and_then_Inr_iff)
  from filled [OF inv o(1-3)] logged_read [OF o(1)] assms(1,3) eof_ended [OF inv] show ?thesis
    unfolding o(4) copy_inv_def by auto
qed

lemma drain_outbound_keeps:
  assumes "copy_inv sock w" "drain_outbound (logged K) w = Inr w'" "sock \<noteq> STDOUT_FILENO"
  shows "copy_inv sock w'"
proof -
  let ?s = "cp_outbound w"
  have inv: "bs_inv ?s" using assms(1) unfolding copy_inv_def by blast
  obtain data n socket k s' where o: "ByteStream_peek_output ?s (min max_copy_length (length (bs_contents ?s))) = Inr data"
    "FileDescriptor_write (logged K) (cp_socket w) (BufferViewList_of_string data) False (cp_kernel w) = Inr (n, socket, k)"
    "ByteStream_pop_output ?s n = Inr s'"
    "(if bs_eof s' then and_then (Socket_shutdown (logged K) socket SHUT_WR k) (\<lambda>(socket, k).
       Inr (w\<lparr>cp_kernel := k, cp_socket := socket, cp_outbound := s', cp_outbound_shutdown := True\<rparr>))
     else Inr (w\<lparr>cp_kernel := k, cp_socket := socket, cp_outbound := s'\<rparr>)) = Inr w'"
    using assms(2) inv by (auto simp: drain_outbound_def and_then_Inr_iff Let_def)
  note e = emptied [OF inv o(1-3)]
  have 1: "copy_inv sock (w\<lparr>cp_kernel := k, cp_socket := socket, cp_outbound := s'\<rparr>)"
    using assms(1,3) e still_eof [OF inv e(1)] eof_ended [OF inv] unfolding copy_inv_def by auto
  show ?thesis
  proof (cases "bs_eof s'")
    case True
    with o(4) obtain socket' k' where sh: "Socket_shutdown (logged K) socket SHUT_WR k = Inr (socket', k')"
      "w' = w\<lparr>cp_kernel := k', cp_socket := socket', cp_outbound := s', cp_outbound_shutdown := True\<rparr>" by (auto simp: and_then_Inr_iff)
    from logged_shutdown [OF sh(1)] 1 True show ?thesis unfolding sh(2) copy_inv_def same_log_def by simp
  qed (use o(4) 1 in simp)
qed

lemma drain_inbound_keeps:
  assumes "copy_inv sock w" "drain_inbound (logged K) w = Inr w'" "sock \<noteq> STDOUT_FILENO"
  shows "copy_inv sock w'"
proof -
  let ?s = "cp_inbound w"
  have inv: "bs_inv ?s" using assms(1) unfolding copy_inv_def by blast
  obtain data n stdout k s' where o: "ByteStream_peek_output ?s (min max_copy_length (length (bs_contents ?s))) = Inr data"
    "FileDescriptor_write (logged K) (cp_output w) (BufferViewList_of_string data) False (cp_kernel w) = Inr (n, stdout, k)"
    "ByteStream_pop_output ?s n = Inr s'"
    "(if bs_eof s' then and_then (FDWrapper_close (logged K) stdout k) (\<lambda>(output, k).
       Inr (w\<lparr>cp_kernel := k, cp_output := output, cp_inbound := s', cp_inbound_shutdown := True\<rparr>))
     else Inr (w\<lparr>cp_kernel := k, cp_output := stdout, cp_inbound := s'\<rparr>)) = Inr w'"
    using assms(2) inv by (auto simp: drain_inbound_def and_then_Inr_iff Let_def)
  note e = emptied [OF inv o(1-3)]
  have 1: "copy_inv sock (w\<lparr>cp_kernel := k, cp_output := stdout, cp_inbound := s'\<rparr>)"
    using assms(1,3) e still_eof [OF inv e(1)] eof_ended [OF inv] unfolding copy_inv_def by auto
  show ?thesis
  proof (cases "bs_eof s'")
    case True
    with o(4) obtain stdout' k' where c: "FDWrapper_close (logged K) stdout k = Inr (stdout', k')"
      "w' = w\<lparr>cp_kernel := k', cp_output := stdout', cp_inbound := s', cp_inbound_shutdown := True\<rparr>" by (auto simp: and_then_Inr_iff)
    from logged_close [OF c(1)] 1 True show ?thesis unfolding c(2) copy_inv_def same_log_def by simp
  qed (use o(4) 1 in simp)
qed

lemma end_outbound_keeps:
  assumes "copy_inv sock w" "end_outbound w = Inr w'"
  shows "copy_inv sock w'"
proof -
  obtain s' where e: "ByteStream_end_input (cp_outbound w) = Inr s'" "w' = w\<lparr>cp_outbound := s'\<rparr>" using assms(2) by (auto simp: end_outbound_def and_then_Inr_iff)
  have "bs_inv (cp_outbound w)" using assms(1) unfolding copy_inv_def by blast
  with end_result [OF this e(1)] still_eof [of "cp_outbound w" s' "[]"] assms(1) show ?thesis unfolding e(2) copy_inv_def by auto
qed

lemma end_inbound_keeps:
  assumes "copy_inv sock w" "end_inbound w = Inr w'"
  shows "copy_inv sock w'"
proof -
  obtain s' where e: "ByteStream_end_input (cp_inbound w) = Inr s'" "w' = w\<lparr>cp_inbound := s'\<rparr>" using assms(2) by (auto simp: end_inbound_def and_then_Inr_iff)
  have "bs_inv (cp_inbound w)" using assms(1) unfolding copy_inv_def by blast
  with end_result [OF this e(1)] still_eof [of "cp_inbound w" s' "[]"] assms(1) show ?thesis unfolding e(2) copy_inv_def by auto
qed

section \<open>The rules keep the contract of the event loop\<close>

text \<open>System calls that succeed.\<close>

definition read_works :: "'k kernel \<Rightarrow> int \<Rightarrow> 'k \<Rightarrow> bool" where
  "read_works K f k \<longleftrightarrow> (\<forall>n. case sys_read K f n k of ((ret, errno, d), k') \<Rightarrow> 0 \<le> to_int ret \<and> to_int ret \<le> int n)"

definition write_works :: "'k kernel \<Rightarrow> int \<Rightarrow> 'k \<Rightarrow> bool" where
  "write_works K f k \<longleftrightarrow> (\<forall>bs. case sys_writev K f bs k of ((ret, errno), k') \<Rightarrow>
     0 \<le> to_int ret \<and> to_int ret \<le> int (length bs) \<and> (bs \<noteq> [] \<longrightarrow> to_int ret \<noteq> 0))"

definition ends_work :: "'k kernel \<Rightarrow> int \<Rightarrow> bool" where
  "ends_work K f \<longleftrightarrow> (\<forall>how k. 0 \<le> to_int (fst (fst (sys_shutdown K f how k))) \<and> 0 \<le> to_int (fst (fst (sys_close K f k))))"

lemma read_works_ok: "read_works K (fd_fd fd) k \<Longrightarrow> \<exists>d fd' k'. FileDescriptor_read K fd limit k = Inr (d, fd', k')"
  unfolding read_works_def read_Inr_iff by (drule spec [of _ "min READ_BUFFER_SIZE limit"]) (auto split: prod.splits)

lemma write_works_ok:
  "write_works K (fd_fd fd) k \<Longrightarrow> length (bv_str b) < two63 \<Longrightarrow> \<exists>n fd' k'. FileDescriptor_write K fd b False k = Inr (n, fd', k')"
  unfolding write_works_def by (drule spec [of _ "bv_str b"]) (auto simp: write_Inr_iff split: prod.splits)

lemma shutdown_works: "ends_work K (fd_fd fd) \<Longrightarrow> \<exists>k'. Socket_shutdown K fd SHUT_WR k = Inr (register_write fd, k')"
  unfolding ends_work_def by (drule spec [of _ SHUT_WR], drule spec [of _ k]) (auto simp: Socket_shutdown_def SHUT_RD_def SHUT_WR_def split: prod.splits)

lemma close_works: "ends_work K (fd_fd fd) \<Longrightarrow> \<exists>k'. FDWrapper_close K fd k = Inr (fd\<lparr>fd_eof := True, fd_closed := True\<rparr>, k')"
  unfolding ends_work_def by (drule spec, drule spec [of _ k]) (auto simp: FDWrapper_close_def split: prod.splits)

text \<open>A stream that is filled has not been ended; a stream that is emptied always can be.\<close>

definition copy_may :: "'k kernel \<Rightarrow> 'k copying Rule \<Rightarrow> 'k copying \<Rightarrow> bool" where
  "copy_may K r w \<longleftrightarrow> (let f = fd_fd (ru_fd r w) in
     if ru_direction r = In then
       read_works K f (cp_kernel w) \<and> \<not> bs_input_ended (if f = STDIN_FILENO then cp_outbound w else cp_inbound w)
     else write_works K f (cp_kernel w) \<and> ends_work K f)"

lemma fill_returns:
  assumes "bs_inv s" "\<not> bs_input_ended s" "read_works (logged K) (fd_fd fd) k"
  shows "\<exists>d fd' k' n s1 s2. FileDescriptor_read (logged K) fd (bs_capacity s - length (bs_contents s)) k = Inr (d, fd', k') \<and>
    fd_read_count fd' = fd_read_count fd + 1 \<and> ByteStream_write s d = Inr (n, s1) \<and>
    (if fd_eof fd' then ByteStream_end_input s1 else Inr s1) = Inr s2"
proof -
  obtain d fd' k' where r: "FileDescriptor_read (logged K) fd (bs_capacity s - length (bs_contents s)) k = Inr (d, fd', k')"
    using read_works_ok [OF assms(3)] by blast
  obtain n s1 where w: "ByteStream_write s d = Inr (n, s1)" "bs_inv s1" using write_ok [OF assms(1,2)] by blast
  obtain s2 where "(if fd_eof fd' then ByteStream_end_input s1 else Inr s1) = Inr s2" using end_input_ok [OF w(2)] by (cases "fd_eof fd'") auto
  with r w(1) logged_read(5) [OF r] show ?thesis by blast
qed

lemma empty_returns:
  assumes "bs_inv s" "write_works (logged K) (fd_fd fd) k"
  shows "\<exists>data n k' s'. ByteStream_peek_output s (min max_copy_length (length (bs_contents s))) = Inr data \<and>
    FileDescriptor_write (logged K) fd (BufferViewList_of_string data) False k = Inr (n, register_write fd, k') \<and> ByteStream_pop_output s n = Inr s'"
proof -
  let ?d = "take (min max_copy_length (length (bs_contents s))) (bs_contents s)"
  have len: "length (bv_str (BufferViewList_of_string ?d)) < two63" by (simp add: max_copy_length_def)
  obtain n fd' k' where w: "FileDescriptor_write (logged K) fd (BufferViewList_of_string ?d) False k = Inr (n, fd', k')"
    using write_works_ok [OF assms(2) len] by blast
  note l = logged_write [OF w len]
  obtain s' where "ByteStream_pop_output s n = Inr s'" using pop_output_ok [OF assms(1), of n] l(3) by auto
  with w l(4) assms(1) show ?thesis by simp
qed

lemma copy_rule_cases:
  assumes "r \<in> set (copy_rules K)"
  obtains "r = \<lparr>ru_fd = cp_input, ru_direction = In, ru_callback = fill_outbound K, ru_interest = outbound_has_room, ru_cancel = end_outbound\<rparr>"
  | "r = \<lparr>ru_fd = cp_socket, ru_direction = Out, ru_callback = drain_outbound K, ru_interest = outbound_pending, ru_cancel = end_outbound\<rparr>"
  | "r = \<lparr>ru_fd = cp_socket, ru_direction = In, ru_callback = fill_inbound K, ru_interest = inbound_has_room, ru_cancel = end_inbound\<rparr>"
  | "r = \<lparr>ru_fd = cp_output, ru_direction = Out, ru_callback = drain_inbound K, ru_interest = inbound_pending, ru_cancel = end_inbound\<rparr>"
  using assms by (auto simp: copy_rules_def add_rule_def)

lemma copy_callback_returns:
  assumes "r \<in> set (copy_rules (logged K))" "copy_inv sock w" "copy_may (logged K) r w" "sock \<noteq> STDIN_FILENO"
  shows "\<exists>w'. ru_callback r w = Inr w' \<and> service_count r w' \<noteq> service_count r w"
  using assms(1)
proof (cases rule: copy_rule_cases)
  case 1
  have i: "bs_inv (cp_outbound w)" "fd_fd (cp_input w) = STDIN_FILENO" using assms(2) unfolding copy_inv_def by blast+
  with assms(3) 1 have "read_works (logged K) (fd_fd (cp_input w)) (cp_kernel w)" "\<not> bs_input_ended (cp_outbound w)"
    by (simp_all add: copy_may_def Let_def)
  from fill_returns [OF i(1) this(2,1)] i(1) show ?thesis unfolding 1 by (force simp: fill_outbound_def service_count_def)
next
  case 2
  have i: "bs_inv (cp_outbound w)" using assms(2) unfolding copy_inv_def by blast
  from assms(3) 2 have wk: "write_works (logged K) (fd_fd (cp_socket w)) (cp_kernel w)" "ends_work (logged K) (fd_fd (register_write (cp_socket w)))"
    by (simp_all add: copy_may_def Let_def)
  from empty_returns [OF i wk(1)] obtain data n k' s' where
    e: "ByteStream_peek_output (cp_outbound w) (min max_copy_length (length (bs_contents (cp_outbound w)))) = Inr data"
    "FileDescriptor_write (logged K) (cp_socket w) (BufferViewList_of_string data) False (cp_kernel w) = Inr (n, register_write (cp_socket w), k')"
    "ByteStream_pop_output (cp_outbound w) n = Inr s'" by blast
  from shutdown_works [OF wk(2), of k'] e i show ?thesis unfolding 2 by (cases "bs_eof s'") (auto simp: drain_outbound_def service_count_def)
next
  case 3
  have i: "bs_inv (cp_inbound w)" "fd_fd (cp_socket w) = sock" using assms(2) unfolding copy_inv_def by blast+
  with assms(3,4) 3 have "read_works (logged K) (fd_fd (cp_socket w)) (cp_kernel w)" "\<not> bs_input_ended (cp_inbound w)"
    by (simp_all add: copy_may_def Let_def)
  from fill_returns [OF i(1) this(2,1)] i(1) show ?thesis unfolding 3 by (force simp: fill_inbound_def service_count_def)
next
  case 4
  have i: "bs_inv (cp_inbound w)" using assms(2) unfolding copy_inv_def by blast
  from assms(3) 4 have wk: "write_works (logged K) (fd_fd (cp_output w)) (cp_kernel w)" "ends_work (logged K) (fd_fd (register_write (cp_output w)))"
    by (simp_all add: copy_may_def Let_def)
  from empty_returns [OF i wk(1)] obtain data n k' s' where
    e: "ByteStream_peek_output (cp_inbound w) (min max_copy_length (length (bs_contents (cp_inbound w)))) = Inr data"
    "FileDescriptor_write (logged K) (cp_output w) (BufferViewList_of_string data) False (cp_kernel w) = Inr (n, register_write (cp_output w), k')"
    "ByteStream_pop_output (cp_inbound w) n = Inr s'" by blast
  from close_works [OF wk(2), of k'] e i show ?thesis unfolding 4 by (cases "bs_eof s'") (auto simp: drain_inbound_def service_count_def)
qed

lemma copy_callback_keeps:
  assumes "r \<in> set (copy_rules (logged K))" "copy_inv sock w" "ru_callback r w = Inr w'" "sock \<noteq> STDIN_FILENO" "sock \<noteq> STDOUT_FILENO"
  shows "copy_inv sock w'"
  using assms(1)
proof (cases rule: copy_rule_cases)
  case 1
  with assms fill_outbound_keeps show ?thesis by fastforce
next
  case 2
  with assms drain_outbound_keeps show ?thesis by fastforce
next
  case 3
  with assms fill_inbound_keeps show ?thesis by fastforce
next
  case 4
  with assms drain_inbound_keeps show ?thesis by fastforce
qed

lemma copy_cancel:
  assumes "r \<in> set (copy_rules (logged K))" "copy_inv sock w"
  shows "yields (ru_cancel r w) (copy_inv sock)"
proof -
  have "bs_inv (cp_outbound w)" "bs_inv (cp_inbound w)" using assms(2) unfolding copy_inv_def by blast+
  from end_input_ok [OF this(1)] end_input_ok [OF this(2)] obtain w1 w2 where "end_outbound w = Inr w1" "end_inbound w = Inr w2"
    unfolding end_outbound_def end_inbound_def by auto
  with end_outbound_keeps end_inbound_keeps assms(2) have "yields (end_outbound w) (copy_inv sock)" "yields (end_inbound w) (copy_inv sock)"
    unfolding yields_def by blast+
  with assms(1) show ?thesis by (cases rule: copy_rule_cases) simp_all
qed

lemma copy_interests:
  assumes "bs_inv (cp_outbound w)" "bs_inv (cp_inbound w)"
  shows "outbound_has_room w = Inr (length (bs_contents (cp_outbound w)) < bs_capacity (cp_outbound w) \<and> \<not> bs_error (cp_outbound w) \<and> \<not> bs_error (cp_inbound w))"
    "inbound_has_room w = Inr (length (bs_contents (cp_inbound w)) < bs_capacity (cp_inbound w) \<and> \<not> bs_error (cp_outbound w) \<and> \<not> bs_error (cp_inbound w))"
    "outbound_pending w = Inr (bs_contents (cp_outbound w) \<noteq> [] \<or> bs_eof (cp_outbound w) \<and> \<not> cp_outbound_shutdown w)"
    "inbound_pending w = Inr (bs_contents (cp_inbound w) \<noteq> [] \<or> bs_eof (cp_inbound w) \<and> \<not> cp_inbound_shutdown w)"
  using assms by (auto simp: outbound_has_room_def inbound_has_room_def outbound_pending_def inbound_pending_def)

lemma copy_interest:
  assumes "r \<in> set (copy_rules (logged K))" "copy_inv sock w"
  shows "\<exists>b. ru_interest r w = Inr b"
proof -
  have i: "bs_inv (cp_outbound w)" "bs_inv (cp_inbound w)" using assms(2) unfolding copy_inv_def by blast+
  from assms(1) show ?thesis by (cases rule: copy_rule_cases) (use copy_interests [OF i] in auto)
qed

text \<open>The socket's number, chosen apart from those of the standard descriptors.\<close>

definition socket_number :: "int \<Rightarrow> int" where
  "socket_number f = (if f \<le> STDOUT_FILENO then STDOUT_FILENO + 1 else f)"

lemma socket_number_ok: "socket_number f \<noteq> STDIN_FILENO" "socket_number f \<noteq> STDOUT_FILENO" "STDOUT_FILENO < f \<Longrightarrow> socket_number f = f"
  by (simp_all add: socket_number_def STDIN_FILENO_def STDOUT_FILENO_def)

interpretation copy_loop: reactive_rules "logged K" cp_kernel "\<lambda>k w. w\<lparr>cp_kernel := k\<rparr>" "set (copy_rules (logged K))" "copy_inv (socket_number f)"
  "copy_may (logged K)" "\<lambda>r w. True" for K :: "'k kernel" and f
proof
  fix r and w w' :: "'k logged_state copying" assume r: "r \<in> set (copy_rules (logged K))" and inv: "copy_inv (socket_number f) w"
  show "copy_inv (socket_number f) w'" if "ru_callback r w = Inr w'"
    by (rule copy_callback_keeps [OF r inv that socket_number_ok(1,2)])
  show "copy_inv (socket_number f) w'" if "ru_cancel r w = Inr w'"
    using copy_cancel [OF r inv] that by simp
  show "\<exists>b. ru_interest r w = Inr b" by (rule copy_interest [OF r inv])
  show "yields (ru_callback r w) (\<lambda>w'. service_count r w' \<noteq> service_count r w \<or> ru_interest r w' = Inr False)" if "copy_may (logged K) r w"
    using copy_callback_returns [OF r inv that socket_number_ok(1)] by (auto simp: yields_def)
  show "\<exists>w'. ru_cancel r w = Inr w'" using copy_cancel [OF r inv] by (auto simp: yields_def)
next
  fix w :: "'k logged_state copying" and ps t x k
  assume "copy_inv (socket_number f) w" "sys_poll (logged K) ps t (cp_kernel w) = (x, k)"
  then show "copy_inv (socket_number f) (w\<lparr>cp_kernel := k\<rparr>)" using logged_calls(1) by (fastforce simp: copy_inv_def same_log_def)
qed

lemma copy_loop_keeps:
  assumes "copy_loop (logged K) n rules w = Inr (b, w')" "set rules \<subseteq> set (copy_rules (logged K))" "copy_inv (socket_number f) w"
  shows "copy_inv (socket_number f) w'"
  using assms
proof (induction n arbitrary: rules w)
  case (Suc n)
  obtain ret rules1 w1 where t: "wait_next_event (logged K) cp_kernel (\<lambda>k w. w\<lparr>cp_kernel := k\<rparr>) (- 1) rules w = Inr (ret, rules1, w1)"
    "(if ret = Exit then Inr (True, w1) else copy_loop (logged K) n rules1 w1) = Inr (b, w')"
    using Suc.prems(1) by (auto simp: and_then_Inr_iff)
  note k = copy_loop.turn_keeps [OF Suc.prems(2,3) t(1)]
  show ?case
  proof (cases "ret = Exit")
    case True
    with t(2) k(1) show ?thesis by simp
  next
    case False
    with t(2) Suc.IH [OF _ k(2,1)] show ?thesis by simp
  qed
qed simp

section \<open>Properties\<close>


definition sample_socket :: FDWrapper where
  "sample_socket = \<lparr>fd_fd = 3, fd_eof = False, fd_closed = False, fd_read_count = 0, fd_write_count = 0\<rparr>"


text \<open>An outbound stream that was ended because the socket hung up still asks for bytes from standard input, and the bytes that
  come abort the program.\<close>

theorem ended_outbound_aborts:
  assumes "copy_inv sock w" "bs_input_ended (cp_outbound w)" "length (bs_contents (cp_outbound w)) < bs_capacity (cp_outbound w)"
    "\<not> bs_error (cp_outbound w)" "\<not> bs_error (cp_inbound w)" "read_works K STDIN_FILENO (cp_kernel w)"
  shows "outbound_has_room w = Inr True \<and> fill_outbound K w = Inl AssertionFailed"
proof -
  have i: "bs_inv (cp_outbound w)" "bs_inv (cp_inbound w)" "fd_fd (cp_input w) = STDIN_FILENO" using assms(1) unfolding copy_inv_def by blast+
  from read_works_ok [of K "cp_input w" "cp_kernel w"] assms(6) i(3) obtain d fd' k' where
    "FileDescriptor_read K (cp_input w) (bs_capacity (cp_outbound w) - length (bs_contents (cp_outbound w))) (cp_kernel w) = Inr (d, fd', k')" by metis
  with copy_interests [OF i(1,2)] assms i(1) show ?thesis by (simp add: fill_outbound_def ByteStream_write_def assert_that_def)
qed

end
