(* ===== verification/Sponge_Socket.thy ===== *)
theory Sponge_Socket
  imports Event_Loop Adapters TCP_State
begin

text \<open>
  \<open>TCPSpongeSocket\<close> of \<open>src/libsponge/tcp_helpers/tcp_sponge_socket.hh\<close> and \<open>tcp_sponge_socket.cc\<close>: a \<open>TCPConnection\<close> between the stream
  socket of its owner and an adapter that carries segments, driven by an event loop. The class template is generic in the
  operations \<open>ops\<close> of the adapter and in the kernel \<open>K\<close>. The owner's thread meets the connection's thread only through the kernel, which carries
  the bytes, and through the flag \<open>_abort\<close>, whose values, one per turn, are an argument of the loop; its length bounds the
  number of turns. Lines printed on \<open>cerr\<close> are left out. The proofs are in \<open>Socket_Glue\<close>.
\<close>

section \<open>State\<close>

record ('a, 'k) sponge =
  so_kernel :: 'k
  so_owner :: FDWrapper
  so_thread_data :: FDWrapper
  so_adapter :: 'a
  so_tcp :: "TCPConnection option"
  so_inbound_shutdown :: bool
  so_outbound_shutdown :: bool
  so_fully_acked :: bool

definition TCP_TICK_MS :: size_t where
  "TCP_TICK_MS = 10"

text \<open>An access through \<open>_tcp\<close>, which is empty before a connection was made and after it is gone.\<close>

definition get_tcp :: "('a, 'k) sponge \<Rightarrow> TCPConnection result" where
  "get_tcp w = (case so_tcp w of None \<Rightarrow> Inl BadOptionalAccess | Some tcp \<Rightarrow> Inr tcp)"

definition set_kernel :: "'k \<Rightarrow> ('a, 'k) sponge \<Rightarrow> ('a, 'k) sponge" where
  "set_kernel k w = w\<lparr>so_kernel := k\<rparr>"

definition TCPSpongeSocket_new :: "'k kernel \<Rightarrow> FDWrapper \<times> FDWrapper \<Rightarrow> 'a \<Rightarrow> 'k \<Rightarrow> ('a, 'k) sponge result" where
  "TCPSpongeSocket_new K data_socket_pair datagram_interface k =
     and_then (LocalStreamSocket_of K (fst data_socket_pair) k) (\<lambda>(owner, k).
     and_then (LocalStreamSocket_of K (snd data_socket_pair) k) (\<lambda>(thread_data, k).
     and_then (set_blocking K thread_data False k) (\<lambda>k.
     Inr \<lparr>so_kernel = k, so_owner = owner, so_thread_data = thread_data, so_adapter = datagram_interface, so_tcp = None,
          so_inbound_shutdown = False, so_outbound_shutdown = False, so_fully_acked = False\<rparr>)))"

definition socket_pair_helper :: "'k kernel \<Rightarrow> int \<Rightarrow> 'k \<Rightarrow> ((FDWrapper \<times> FDWrapper) \<times> 'k) result" where
  "socket_pair_helper K type k =
     (let ((return_value, errno, fd0, fd1), k) = sys_socketpair K AF_UNIX type k in
      and_then (SystemCall ''socketpair'' (to_int return_value) errno 0) (\<lambda>_.
      and_then (FDWrapper_new fd0) (\<lambda>a. and_then (FDWrapper_new fd1) (\<lambda>b. Inr ((a, b), k)))))"

definition TCPSpongeSocket_of :: "'k kernel \<Rightarrow> 'a \<Rightarrow> 'k \<Rightarrow> ('a, 'k) sponge result" where
  "TCPSpongeSocket_of K datagram_interface k =
     and_then (socket_pair_helper K SOCK_STREAM k) (\<lambda>(pair, k). TCPSpongeSocket_new K pair datagram_interface k)"

section \<open>The rules\<close>

text \<open>Rule 1: a segment from the adapter goes to the connection.\<close>

definition receive_datagram :: "('a, 'k) adapter \<Rightarrow> ('a, 'k) sponge \<Rightarrow> ('a, 'k) sponge result" where
  "receive_datagram ops w =
     and_then (op_read ops (so_adapter w) (so_kernel w)) (\<lambda>(seg, adapter, k).
     and_then (get_tcp w) (\<lambda>tcp.
     and_then (case seg of None \<Rightarrow> Inr tcp | Some seg \<Rightarrow> TCPConnection_segment_received tcp seg) (\<lambda>tcp.
     Inr (w\<lparr>so_kernel := k, so_adapter := adapter, so_tcp := Some tcp,
            so_fully_acked := so_fully_acked w \<or> fd_eof (so_thread_data w) \<and> TCPConnection_bytes_in_flight tcp = 0\<rparr>))))"

definition tcp_active :: "('a, 'k) sponge \<Rightarrow> bool result" where
  "tcp_active w = and_then (get_tcp w) (\<lambda>tcp. Inr (cn_active tcp))"

text \<open>Rule 2: bytes from the owner go to the connection.\<close>

definition outbound_from_owner :: "'k kernel \<Rightarrow> ('a, 'k) sponge \<Rightarrow> ('a, 'k) sponge result" where
  "outbound_from_owner K w =
     and_then (get_tcp w) (\<lambda>tcp.
     and_then (remaining_outbound_capacity tcp) (\<lambda>room.
     and_then (FileDescriptor_read K (so_thread_data w) room (so_kernel w)) (\<lambda>(data, thread_data, k).
     and_then (TCPConnection_write tcp data) (\<lambda>(amount_written, tcp).
     if amount_written \<noteq> length data then Inl (RuntimeError ''TCPConnection::write() accepted less than advertised length'')
     else
       (let w = w\<lparr>so_kernel := k, so_thread_data := thread_data\<rparr> in
        if fd_eof thread_data then
          and_then (end_input_stream tcp) (\<lambda>tcp. Inr (w\<lparr>so_tcp := Some tcp, so_outbound_shutdown := True\<rparr>))
        else Inr (w\<lparr>so_tcp := Some tcp\<rparr>))))))"

definition outbound_wanted :: "('a, 'k) sponge \<Rightarrow> bool result" where
  "outbound_wanted w =
     and_then (get_tcp w) (\<lambda>tcp.
     if \<not> cn_active tcp \<or> so_outbound_shutdown w then Inr False
     else and_then (remaining_outbound_capacity tcp) (\<lambda>room. Inr (room > 0)))"

definition outbound_cancelled :: "('a, 'k) sponge \<Rightarrow> ('a, 'k) sponge result" where
  "outbound_cancelled w =
     and_then (get_tcp w) (\<lambda>tcp.
     and_then (end_input_stream tcp) (\<lambda>tcp. Inr (w\<lparr>so_tcp := Some tcp, so_outbound_shutdown := True\<rparr>)))"

text \<open>Rule 3: reassembled bytes go to the owner.\<close>

definition inbound_to_owner :: "'k kernel \<Rightarrow> ('a, 'k) sponge \<Rightarrow> ('a, 'k) sponge result" where
  "inbound_to_owner K w =
     and_then (get_tcp w) (\<lambda>tcp.
     and_then (ByteStream_buffer_size (inbound_stream tcp)) (\<lambda>size.
     let amount_to_write = min 65536 size in
     and_then (ByteStream_peek_output (inbound_stream tcp) amount_to_write) (\<lambda>buffer.
     and_then (FileDescriptor_write K (so_thread_data w) (BufferViewList_of_string buffer) False (so_kernel w)) (\<lambda>(bytes_written, thread_data, k).
     and_then (ByteStream_pop_output (inbound_stream tcp) bytes_written) (\<lambda>inbound.
     let w = w\<lparr>so_tcp := Some (set_inbound tcp inbound)\<rparr> in
     if bs_eof inbound \<or> bs_error inbound then
       and_then (Socket_shutdown K thread_data SHUT_WR k) (\<lambda>(thread_data, k).
       Inr (w\<lparr>so_kernel := k, so_thread_data := thread_data, so_inbound_shutdown := True\<rparr>))
     else Inr (w\<lparr>so_kernel := k, so_thread_data := thread_data\<rparr>))))))"

definition inbound_wanted :: "('a, 'k) sponge \<Rightarrow> bool result" where
  "inbound_wanted w =
     and_then (get_tcp w) (\<lambda>tcp.
     and_then (ByteStream_buffer_empty (inbound_stream tcp)) (\<lambda>empty.
     Inr (\<not> empty \<or> (bs_eof (inbound_stream tcp) \<or> bs_error (inbound_stream tcp)) \<and> \<not> so_inbound_shutdown w)))"

text \<open>Rule 4: the segments that wait go to the adapter.\<close>

primrec transmit :: "('a, 'k) adapter \<Rightarrow> TCPSegment list \<Rightarrow> TCPConnection \<Rightarrow> ('a, 'k) sponge \<Rightarrow> ('a, 'k) sponge result" where
  "transmit ops [] tcp w = Inr (w\<lparr>so_tcp := Some tcp\<rparr>)"
| "transmit ops (seg # segs) tcp w =
     and_then (op_write ops seg (so_adapter w) (so_kernel w)) (\<lambda>(adapter, k).
     transmit ops segs (tcp\<lparr>cn_segments_out := segs\<rparr>) (w\<lparr>so_kernel := k, so_adapter := adapter\<rparr>))"

definition send_datagrams :: "('a, 'k) adapter \<Rightarrow> ('a, 'k) sponge \<Rightarrow> ('a, 'k) sponge result" where
  "send_datagrams ops w = and_then (get_tcp w) (\<lambda>tcp. transmit ops (cn_segments_out tcp) tcp w)"

definition segments_waiting :: "('a, 'k) sponge \<Rightarrow> bool result" where
  "segments_waiting w = and_then (get_tcp w) (\<lambda>tcp. Inr (cn_segments_out tcp \<noteq> []))"

definition sponge_rules :: "('a, 'k) adapter \<Rightarrow> 'k kernel \<Rightarrow> ('a, 'k) sponge Rule list" where
  "sponge_rules ops K =
     (let rules = add_rule [] (\<lambda>w. op_fd ops (so_adapter w)) In (receive_datagram ops) tcp_active Inr;
          rules = add_rule rules so_thread_data In (outbound_from_owner K) outbound_wanted outbound_cancelled;
          rules = add_rule rules so_thread_data Out (inbound_to_owner K) inbound_wanted Inr
      in add_rule rules (\<lambda>w. op_fd ops (so_adapter w)) Out (send_datagrams ops) segments_waiting Inr)"

text \<open>The connection is made with a random number, which it uses when the configuration does not fix the initial sequence number.\<close>

definition initialize_TCP :: "('a, 'k) adapter \<Rightarrow> 'k kernel \<Rightarrow> TCPConfig \<Rightarrow> ('a, 'k) sponge \<Rightarrow> ('a, 'k) sponge Rule list \<times> ('a, 'k) sponge" where
  "initialize_TCP ops K config w =
     (let (random, k) = sys_random K (so_kernel w) in
      (sponge_rules ops K, w\<lparr>so_kernel := k, so_tcp := Some (TCPConnection_new random config)\<rparr>))"

section \<open>The loop\<close>

text \<open>Whether the loop was left, the rules that remain and the world.\<close>

primrec tcp_loop_from :: "('a, 'k) adapter \<Rightarrow> 'k kernel \<Rightarrow> (('a, 'k) sponge \<Rightarrow> bool result) \<Rightarrow> bool list \<Rightarrow> nat \<Rightarrow>
    ('a, 'k) sponge Rule list \<Rightarrow> ('a, 'k) sponge \<Rightarrow> (bool \<times> ('a, 'k) sponge Rule list \<times> ('a, 'k) sponge) result" where
  "tcp_loop_from ops K condition [] base_time rules w = Inr (False, rules, w)"
| "tcp_loop_from ops K condition (abort # aborts) base_time rules w =
     and_then (condition w) (\<lambda>continue.
     if \<not> continue then Inr (True, rules, w)
     else
       and_then (wait_next_event K so_kernel set_kernel (int TCP_TICK_MS) rules w) (\<lambda>(ret, rules, w).
       if ret = Exit \<or> abort then Inr (True, rules, w)
       else
         and_then (get_tcp w) (\<lambda>tcp.
         if cn_active tcp then
           (let (next_time, k) = sys_clock K (so_kernel w) in
            and_then (TCPConnection_tick tcp (sub64 next_time base_time)) (\<lambda>tcp.
            and_then (op_tick ops (sub64 next_time base_time) (so_adapter w) k) (\<lambda>(adapter, k).
            tcp_loop_from ops K condition aborts next_time rules (w\<lparr>so_kernel := k, so_adapter := adapter, so_tcp := Some tcp\<rparr>))))
         else tcp_loop_from ops K condition aborts base_time rules w)))"

definition tcp_loop :: "('a, 'k) adapter \<Rightarrow> 'k kernel \<Rightarrow> (('a, 'k) sponge \<Rightarrow> bool result) \<Rightarrow> bool list \<Rightarrow>
    ('a, 'k) sponge Rule list \<Rightarrow> ('a, 'k) sponge \<Rightarrow> (bool \<times> ('a, 'k) sponge Rule list \<times> ('a, 'k) sponge) result" where
  "tcp_loop ops K condition aborts rules w =
     (let (base_time, k) = sys_clock K (so_kernel w) in tcp_loop_from ops K condition aborts base_time rules (w\<lparr>so_kernel := k\<rparr>))"

section \<open>Connecting\<close>

definition in_state :: "State list \<Rightarrow> ('a, 'k) sponge \<Rightarrow> bool result" where
  "in_state states w = and_then (get_tcp w) (\<lambda>tcp. Inr (\<exists>s\<in>set states. TCPState_equal (TCPConnection_state tcp) (TCPState_of_state s)))"

definition set_config :: "('a, 'k) adapter \<Rightarrow> FdAdapterConfig \<Rightarrow> 'a \<Rightarrow> 'a" where
  "set_config ops c_ad a = op_set_base ops ((op_base ops a)\<lparr>fa_cfg := c_ad\<rparr>) a"

text \<open>The start of \<open>connect\<close>, and all of it up to the creation of the connection's thread.\<close>

definition start_connect :: "('a, 'k) adapter \<Rightarrow> 'k kernel \<Rightarrow> TCPConfig \<Rightarrow> FdAdapterConfig \<Rightarrow> ('a, 'k) sponge \<Rightarrow>
    (('a, 'k) sponge Rule list \<times> ('a, 'k) sponge) result" where
  "start_connect ops K c_tcp c_ad w =
     (if so_tcp w \<noteq> None then Inl (RuntimeError ''connect() with TCPConnection already initialized'')
      else
        (let (rules, w) = initialize_TCP ops K c_tcp w;
             w = w\<lparr>so_adapter := set_config ops c_ad (so_adapter w)\<rparr>
         in
         and_then (get_tcp w) (\<lambda>tcp.
         and_then (TCPConnection_connect tcp) (\<lambda>tcp.
         if \<not> TCPState_equal (TCPConnection_state tcp) (TCPState_of_state SYN_SENT) then
           Inl (RuntimeError (''After TCPConnection::connect(), state was '' @ TCPState_name (TCPConnection_state tcp) @
             '' but expected '' @ TCPState_name (TCPState_of_state SYN_SENT)))
         else Inr (rules, w\<lparr>so_tcp := Some tcp\<rparr>)))))"

definition TCPSpongeSocket_connect :: "('a, 'k) adapter \<Rightarrow> 'k kernel \<Rightarrow> TCPConfig \<Rightarrow> FdAdapterConfig \<Rightarrow> bool list \<Rightarrow> ('a, 'k) sponge \<Rightarrow>
    (bool \<times> ('a, 'k) sponge Rule list \<times> ('a, 'k) sponge) result" where
  "TCPSpongeSocket_connect ops K c_tcp c_ad aborts w =
     and_then (start_connect ops K c_tcp c_ad w) (\<lambda>(rules, w). tcp_loop ops K (in_state [SYN_SENT]) aborts rules w)"

definition start_listen :: "('a, 'k) adapter \<Rightarrow> 'k kernel \<Rightarrow> TCPConfig \<Rightarrow> FdAdapterConfig \<Rightarrow> ('a, 'k) sponge \<Rightarrow>
    (('a, 'k) sponge Rule list \<times> ('a, 'k) sponge) result" where
  "start_listen ops K c_tcp c_ad w =
     (if so_tcp w \<noteq> None then Inl (RuntimeError ''listen_and_accept() with TCPConnection already initialized'')
      else
        (let (rules, w) = initialize_TCP ops K c_tcp w;
             adapter = set_config ops c_ad (so_adapter w)
         in Inr (rules, w\<lparr>so_adapter := op_set_base ops (FdAdapterBase_set_listening (op_base ops adapter) True) adapter\<rparr>)))"

definition listen_and_accept :: "('a, 'k) adapter \<Rightarrow> 'k kernel \<Rightarrow> TCPConfig \<Rightarrow> FdAdapterConfig \<Rightarrow> bool list \<Rightarrow> ('a, 'k) sponge \<Rightarrow>
    (bool \<times> ('a, 'k) sponge Rule list \<times> ('a, 'k) sponge) result" where
  "listen_and_accept ops K c_tcp c_ad aborts w =
     and_then (start_listen ops K c_tcp c_ad w) (\<lambda>(rules, w). tcp_loop ops K (in_state [LISTEN, SYN_RCVD, SYN_SENT]) aborts rules w)"

section \<open>The connection's thread\<close>

text \<open>What the thread does when its loop is left: the connection is destroyed, and what its destructor queues goes with it.\<close>

definition tcp_finish :: "'k kernel \<Rightarrow> ('a, 'k) sponge \<Rightarrow> ('a, 'k) sponge result" where
  "tcp_finish K w =
     and_then (Socket_shutdown K (so_owner w) SHUT_RDWR (so_kernel w)) (\<lambda>(owner, k).
     and_then (get_tcp w) (\<lambda>tcp.
     and_then (TCPConnection_destroy tcp) (\<lambda>tcp.
     Inr (w\<lparr>so_kernel := k, so_owner := owner, so_tcp := None\<rparr>))))"

definition tcp_main :: "('a, 'k) adapter \<Rightarrow> 'k kernel \<Rightarrow> bool list \<Rightarrow> ('a, 'k) sponge Rule list \<Rightarrow> ('a, 'k) sponge \<Rightarrow>
    (bool \<times> ('a, 'k) sponge) result" where
  "tcp_main ops K aborts rules w =
     (if so_tcp w = None then Inl (RuntimeError ''no TCP'')
      else
        and_then (tcp_loop ops K (\<lambda>_. Inr True) aborts rules w) (\<lambda>(left, rules, w).
        if left then and_then (tcp_finish K w) (\<lambda>w. Inr (True, w)) else Inr (False, w)))"

text \<open>\<open>wait_until_closed\<close> shuts the owner's socket down and waits for the thread.\<close>

definition wait_until_closed :: "'k kernel \<Rightarrow> ('a, 'k) sponge \<Rightarrow> ('a, 'k) sponge result" where
  "wait_until_closed K w =
     and_then (Socket_shutdown K (so_owner w) SHUT_RDWR (so_kernel w)) (\<lambda>(owner, k). Inr (w\<lparr>so_kernel := k, so_owner := owner\<rparr>))"

section \<open>CS144TCPSocket and FullStackSocket\<close>

definition address_and_port :: "32 word \<Rightarrow> 32 word \<Rightarrow> Address" where
  "address_and_port ip random = \<lparr>ad_ip = ip, ad_port = ucast random\<rparr>"

text \<open>169.254.144.9, 169.254.10.9 and 169.254.10.1.\<close>

definition LOCAL_TUN_IP_ADDRESS :: "32 word" where "LOCAL_TUN_IP_ADDRESS = 0xA9FE9009"

definition LOCAL_TAP_IP_ADDRESS :: "32 word" where "LOCAL_TAP_IP_ADDRESS = 0xA9FE0A09"

definition LOCAL_TAP_NEXT_HOP_ADDRESS :: "32 word" where "LOCAL_TAP_NEXT_HOP_ADDRESS = 0xA9FE0A01"

definition CS144TCPSocket_new :: "'k kernel \<Rightarrow> 'k \<Rightarrow> (TCPOverIPv4OverTunFdAdapter, 'k) sponge result" where
  "CS144TCPSocket_new K k =
     and_then (TunTapFD_new K ''tun144'' True k) (\<lambda>(tun, k).
     TCPSpongeSocket_of K \<lparr>tu_base = FdAdapterBase_default, tu_tun = tun\<rparr> k)"

definition CS144TCPSocket_connect :: "'k kernel \<Rightarrow> Address \<Rightarrow> bool list \<Rightarrow> (TCPOverIPv4OverTunFdAdapter, 'k) sponge \<Rightarrow>
    (bool \<times> (TCPOverIPv4OverTunFdAdapter, 'k) sponge Rule list \<times> (TCPOverIPv4OverTunFdAdapter, 'k) sponge) result" where
  "CS144TCPSocket_connect K address aborts w =
     (let tcp_config = TCPConfig_default\<lparr>tc_rt_timeout := 100\<rparr>;
          (random, k) = sys_random K (so_kernel w);
          multiplexer_config = FdAdapterConfig_default\<lparr>fc_source := address_and_port LOCAL_TUN_IP_ADDRESS random, fc_destination := address\<rparr>
      in TCPSpongeSocket_connect (tun_adapter K) K tcp_config multiplexer_config aborts (w\<lparr>so_kernel := k\<rparr>))"

text \<open>An array of six random bytes, the first of them marked as a private address.\<close>

primrec random_bytes :: "'k kernel \<Rightarrow> nat \<Rightarrow> 'k \<Rightarrow> bytes \<times> 'k" where
  "random_bytes K 0 k = ([], k)"
| "random_bytes K (Suc n) k = (let (random, k) = sys_random K k; (bs, k) = random_bytes K n k in (ucast random # bs, k))"

definition random_private_ethernet_address :: "'k kernel \<Rightarrow> 'k \<Rightarrow> EthernetAddress \<times> 'k" where
  "random_private_ethernet_address K k =
     (let (addr, k) = random_bytes K 6 k;
          addr = addr[0 := addr ! 0 OR 0x02];
          addr = addr[0 := addr ! 0 AND 0xfe]
      in (addr, k))"

definition FullStackSocket_new :: "'k kernel \<Rightarrow> 'k \<Rightarrow> (TCPOverIPv4OverEthernetAdapter, 'k) sponge result" where
  "FullStackSocket_new K k =
     and_then (TunTapFD_new K ''tap10'' False k) (\<lambda>(tap, k).
     let (eth_address, k) = random_private_ethernet_address K k in
     and_then (TCPOverIPv4OverEthernetAdapter_new K tap eth_address \<lparr>ad_ip = LOCAL_TAP_IP_ADDRESS, ad_port = 0\<rparr>
                 \<lparr>ad_ip = LOCAL_TAP_NEXT_HOP_ADDRESS, ad_port = 0\<rparr> k) (\<lambda>(adapter, k).
     TCPSpongeSocket_of K adapter k))"

definition FullStackSocket_connect :: "'k kernel \<Rightarrow> Address \<Rightarrow> bool list \<Rightarrow> (TCPOverIPv4OverEthernetAdapter, 'k) sponge \<Rightarrow>
    (bool \<times> (TCPOverIPv4OverEthernetAdapter, 'k) sponge Rule list \<times> (TCPOverIPv4OverEthernetAdapter, 'k) sponge) result" where
  "FullStackSocket_connect K address aborts w =
     (let tcp_config = TCPConfig_default\<lparr>tc_rt_timeout := 100\<rparr>;
          (random, k) = sys_random K (so_kernel w);
          multiplexer_config = FdAdapterConfig_default\<lparr>fc_source := address_and_port LOCAL_TAP_IP_ADDRESS random, fc_destination := address\<rparr>
      in TCPSpongeSocket_connect (ethernet_adapter K) K tcp_config multiplexer_config aborts (w\<lparr>so_kernel := k\<rparr>))"

end
