(* ===== verification/Connection_Streams.thy ===== *)
theory Connection_Streams
  imports Endpoint
begin

text \<open>
  What the operations of a connection that return do to its two streams, whatever segments arrive: the inbound stream stays a
  well-formed \<open>ByteStream\<close>, and only the application writes to the outbound stream, until it is ended. Nothing is assumed of the peer.
\<close>

section \<open>Operations that may return\<close>

text \<open>\<open>returns r P\<close>: if the operation does not fault, its result satisfies \<open>P\<close>.\<close>

definition returns :: "'a result \<Rightarrow> ('a \<Rightarrow> bool) \<Rightarrow> bool" where
  "returns r P \<longleftrightarrow> (\<forall>x. r = Inr x \<longrightarrow> P x)"

lemma returns_Inr [simp]: "returns (Inr x) P \<longleftrightarrow> P x"
  by (simp add: returns_def)

lemma returns_Inl [simp]: "returns (Inl e) P"
  by (simp add: returns_def)

lemma returnsD: "returns r P \<Longrightarrow> r = Inr x \<Longrightarrow> P x"
  by (simp add: returns_def)

lemma returns_assert: "returns r P \<Longrightarrow> returns (assert_that b r) P"
  by (simp add: assert_that_def)

lemma returns_if: "(b \<Longrightarrow> returns r P) \<Longrightarrow> (\<not> b \<Longrightarrow> returns r' P) \<Longrightarrow> returns (if b then r else r') P"
  by simp

lemma returns_skip: "(\<And>x. returns (f x) P) \<Longrightarrow> returns (and_then r f) P"
  by (cases r) simp_all

lemma returns_chain: "returns r Q \<Longrightarrow> (\<And>x. Q x \<Longrightarrow> returns (f x) P) \<Longrightarrow> returns (and_then r f) P"
  by (cases r) simp_all

lemma returns_mono: "returns r Q \<Longrightarrow> (\<And>x. Q x \<Longrightarrow> P x) \<Longrightarrow> returns r P"
  by (simp add: returns_def)

lemma returns_pair: "(\<And>a b. returns (f a b) P) \<Longrightarrow> returns (case x of (a, b) \<Rightarrow> f a b) P"
  by (cases x) simp

lemmas returns_intros = returns_assert returns_if returns_skip returns_pair

section \<open>The reassembler\<close>

lemma write_keeps: "bs_inv s \<Longrightarrow> returns (ByteStream_write s d) (\<lambda>(n, s'). bs_inv s')"
  using write_ok [of s d] by (cases "bs_input_ended s") (auto simp: returns_def ByteStream_write_def)

lemma end_input_keeps: "bs_inv s \<Longrightarrow> returns (ByteStream_end_input s) bs_inv"
  using end_input_ok [of s] by (auto simp: returns_def)

lemma check_eof_keeps: "bs_inv (sr_output r) \<Longrightarrow> returns (check_eof r) (\<lambda>r'. bs_inv (sr_output r'))"
  unfolding check_eof_def by (intro returns_if returns_chain [OF end_input_keeps]) simp_all

lemma reassemble_loop_keeps: "bs_inv (sr_output r) \<Longrightarrow> returns (reassemble_loop ds r) (\<lambda>r'. bs_inv (sr_output r'))"
proof (induction ds arbitrary: r)
  case (Cons x ds)
  obtain k info where x: "x = (k, info)" by (cases x)
  note w = returnsD [OF write_keeps [OF Cons.prems]] and e = returnsD [OF check_eof_keeps] and l = returnsD [OF Cons.IH]
  show ?case unfolding returns_def
  proof (intro allI impI)
    fix r' assume "reassemble_loop (x # ds) r = Inr r'"
    then consider "r' = r"
      | n out r1 where "ByteStream_write (sr_output r) (di_data info) = Inr (n, out)"
        "check_eof (r\<lparr>sr_output := out, sr_unasm_bytes := sub64 (sr_unasm_bytes r) (DataInfo_size info),
           sr_next_index := add64 (sr_next_index r) (DataInfo_size info)\<rparr>) = Inr r1" "reassemble_loop ds (r1\<lparr>sr_datas := ds\<rparr>) = Inr r'"
      | room n out where "ByteStream_write (sr_output r) (take room (di_data info)) = Inr (n, out)" "sr_output r' = out"
      by (auto simp: x and_then_Inr_iff Let_def split: if_splits)
    then show "bs_inv (sr_output r')"
    proof cases
      case (2 n out r1)
      from w [OF 2(1)] have "bs_inv out" by simp
      then have "bs_inv (sr_output r1)" using e [OF _ 2(2)] by simp
      then show ?thesis using l [OF _ 2(3)] by simp
    qed (use Cons.prems w in fastforce)+
  qed
qed simp

lemma insert_keeps: "returns (insert_without_overlap r d index) (\<lambda>r'. sr_output r' = sr_output r)"
  unfolding insert_without_overlap_def Let_def by (intro returns_intros) simp

lemma reassemble_keeps: "bs_inv (sr_output r) \<Longrightarrow> returns (reassemble r) (\<lambda>r'. bs_inv (sr_output r'))"
  unfolding reassemble_def
  by (rule returns_chain [OF check_eof_keeps]) (auto intro!: returns_assert reassemble_loop_keeps simp del: reassemble_loop.simps split: list.split)

lemma push_substring_keeps:
  assumes "bs_inv (sr_output r)"
  shows "returns (push_substring r d index eof) (\<lambda>r'. bs_inv (sr_output r'))"
proof -
  have 1: "returns (if eof then and_then (if sr_eof r then assert_that (sr_eof_index r = e) (Inr r) else Inr (r\<lparr>sr_eof := True, sr_eof_index := e\<rparr>)) check_eof
      else Inr r) (\<lambda>r'. bs_inv (sr_output r'))" for e
    using assms check_eof_keeps [of r] check_eof_keeps [of "r\<lparr>sr_eof := True, sr_eof_index := e\<rparr>"] by (auto simp: assert_that_def)
  show ?thesis unfolding push_substring_def Let_def
    by (rule returns_chain [OF 1]) (auto intro!: returns_skip returns_chain [OF insert_keeps] intro: reassemble_keeps)
qed

section \<open>The receiver\<close>

abbreviation sound :: "TCPReceiver \<Rightarrow> bool" where
  "sound r \<equiv> bs_inv (sr_output (rc_reassembler r))"

lemma push_in_window_keeps:
  assumes "sound r"
  shows "returns (push_in_window r seg i) sound"
  unfolding push_in_window_def Let_def
  by (intro returns_skip returns_if returns_chain [OF push_substring_keeps [OF assms]]) (use assms in simp_all)

lemma handle_fin_keeps: "sound r \<Longrightarrow> returns (handle_fin r seg i) sound"
  by (auto simp: handle_fin_def Let_def assert_that_def)

lemma segment_received_keeps:
  assumes "sound r"
  shows "returns (segment_received r seg) sound"
proof -
  have *: "returns (and_then (handle_fin r' seg i) (\<lambda>r. push_in_window r seg i)) sound" if "sound r'" for r' i
    by (rule returns_chain [OF handle_fin_keeps [OF that] push_in_window_keeps])
  show ?thesis using assms
    by (auto simp: segment_received_def get_stream_index_def Let_def assert_that_def intro!: *)
qed

section \<open>The connection\<close>

text \<open>The stages of an event that leave the receiver alone.\<close>

lemma send_loop_receiver: "returns (send_loop segs c) (\<lambda>c'. cn_receiver c' = cn_receiver c)"
proof (induction segs arbitrary: c)
  case (Cons seg segs)
  have "returns (send_front c seg) (\<lambda>c'. cn_receiver c' = cn_receiver c)"
    unfolding send_front_def Let_def
    by (intro returns_assert returns_skip returns_chain [where Q = "\<lambda>c'. cn_receiver c' = cn_receiver c"] returns_if) simp_all
  show ?case unfolding send_loop.simps by (rule returns_chain [OF \<open>returns (send_front c seg) _\<close>], rule returns_mono [OF Cons.IH]) simp
qed simp

lemma send_all_receiver: "returns (send_all c) (\<lambda>c'. cn_receiver c' = cn_receiver c)"
  unfolding send_all_def by (rule send_loop_receiver)

lemma take_ack_receiver: "returns (take_ack c header) (\<lambda>c'. cn_receiver c' = cn_receiver c)"
  unfolding take_ack_def Let_def by (intro returns_if returns_skip) simp_all

lemma send_rst_receiver: "returns (send_rst c) (\<lambda>c'. cn_receiver c' = cn_receiver c)"
  unfolding send_rst_def Let_def by (auto intro!: returns_skip split: option.split)

abbreviation sound_conn :: "TCPConnection \<Rightarrow> bool" where
  "sound_conn c \<equiv> sound (cn_receiver c)"

lemma end_uncleanly_keeps: "sound_conn c \<Longrightarrow> sound_conn (end_uncleanly c)"
  using set_error_ok by (simp add: end_uncleanly_def Let_def set_inbound_def set_outbound_def inbound_stream_def TCPReceiver_stream_out_def)

lemma end_cleanly_keeps:
  assumes "sound_conn c"
  shows "returns (end_cleanly c) sound_conn"
proof -
  have e: "returns (ByteStream_end_input (inbound_stream (set_outbound c s))) bs_inv" for s
    using end_input_keeps assms by (simp add: inbound_stream_def set_outbound_def TCPReceiver_stream_out_def)
  show ?thesis unfolding end_cleanly_def Let_def
    by (rule returns_if, rule returns_skip, rule returns_chain [OF e]) (use assms in \<open>simp_all add: set_inbound_def\<close>)
qed

lemma try_to_end_keeps: "sound_conn c \<Longrightarrow> returns (try_to_end_cleanly c) sound_conn"
  unfolding try_to_end_cleanly_def by (intro returns_if end_cleanly_keeps) simp_all

lemma send_and_end_keeps: "sound_conn c \<Longrightarrow> returns (and_then (send_all c) try_to_end_cleanly) sound_conn"
  by (rule returns_chain [OF send_all_receiver try_to_end_keeps]) simp

lemma fill_and_send_keeps: "sound_conn c \<Longrightarrow> returns (fill_and_send c) sound_conn"
  unfolding fill_and_send_def by (intro returns_skip send_and_end_keeps) simp

lemma unsynchronized_keeps: "sound_conn c \<Longrightarrow> returns (unsynchronized_segment c header) sound_conn"
  unfolding unsynchronized_segment_def by (auto intro: end_uncleanly_keeps split: option.split)

lemma segment_keeps:
  assumes "sound_conn c"
  shows "returns (TCPConnection_segment_received c seg) sound_conn"
proof -
  have 1: "sound_conn (check_not_need_to_linger d) = sound_conn d" for d by (simp add: check_not_need_to_linger_def)
  show ?thesis unfolding TCPConnection_segment_received_def Let_def
    by (intro returns_if returns_chain [OF segment_received_keeps] returns_chain [OF take_ack_receiver] returns_skip send_and_end_keeps)
      (use assms in \<open>auto simp: 1 intro: unsynchronized_keeps end_uncleanly_keeps\<close>)
qed

lemma tick_keeps:
  assumes "sound_conn c"
  shows "returns (TCPConnection_tick c ms) sound_conn"
  unfolding TCPConnection_tick_def Let_def
  by (intro returns_if returns_skip returns_chain [OF send_rst_receiver] returns_chain [OF send_all_receiver])
    (use assms in \<open>auto intro!: end_uncleanly_keeps end_cleanly_keeps try_to_end_keeps\<close>)

lemma write_out_keeps: "sound_conn c \<Longrightarrow> returns (TCPConnection_write c d) (\<lambda>(n, c'). sound_conn c')"
  unfolding TCPConnection_write_def
  by (intro returns_assert returns_skip returns_pair returns_chain [OF fill_and_send_keeps]) (simp_all add: set_outbound_def)

lemma end_out_keeps: "sound_conn c \<Longrightarrow> returns (end_input_stream c) sound_conn"
  unfolding end_input_stream_def by (intro returns_assert returns_skip fill_and_send_keeps) (simp add: set_outbound_def)

lemma connect_keeps: "sound_conn c \<Longrightarrow> returns (TCPConnection_connect c) sound_conn"
  unfolding TCPConnection_connect_def Let_def
  by (intro returns_assert returns_skip) (auto intro!: returns_skip returns_assert split: list.split)

lemma TCPConnection_new_sound: "cfg_ok cfg \<Longrightarrow> sound_conn (TCPConnection_new random cfg)"
  using ByteStream_new_ok(1) by (simp add: TCPConnection_new_def TCPReceiver_new_def StreamReassembler_new_def cfg_ok_def)

section \<open>The input of the outbound stream\<close>

definition fixed_input :: "ByteStream \<Rightarrow> ByteStream \<Rightarrow> bool" where
  "fixed_input s s' \<longleftrightarrow> bs_bytes_written s' = bs_bytes_written s \<and> (bs_input_ended s \<longrightarrow> bs_input_ended s')"

lemma fixed_input_refl [simp]: "fixed_input s s"
  by (simp add: fixed_input_def)

lemma fixed_input_trans: "fixed_input s s' \<Longrightarrow> fixed_input s' s'' \<Longrightarrow> fixed_input s s''"
  by (simp add: fixed_input_def)

lemma read_fixes: "returns (ByteStream_read s n) (\<lambda>(d, s'). fixed_input s s')"
  by (auto simp: ByteStream_read_def ByteStream_pop_output_def returns_def and_then_Inr_iff fixed_input_def Let_def split: if_splits)

lemma end_input_fixes: "returns (ByteStream_end_input s) (\<lambda>s'. fixed_input s s' \<and> bs_input_ended s')"
  by (auto simp: ByteStream_end_input_def returns_def and_then_Inr_iff fixed_input_def Let_def)

abbreviation fixed_sender :: "TCPSender \<Rightarrow> TCPSender \<Rightarrow> bool" where
  "fixed_sender s s' \<equiv> fixed_input (sn_stream s) (sn_stream s')"

lemma send_stream: "returns (send s seg) (\<lambda>s'. sn_stream s' = sn_stream s)"
  unfolding send_def by (rule returns_assert) (simp add: Let_def push_outstanding_seg_def begin_timing_def)

lemma fill_step_fixes: "returns (fill_step n s) (\<lambda>(m, s'). fixed_sender s s')"
proof -
  have *: "returns (and_then (send s1 seg) (\<lambda>s. Inr (m, s\<lparr>sn_next_seqno := k s\<rparr>))) (\<lambda>(m, s'). fixed_sender s s')"
    if "fixed_input (sn_stream s) (sn_stream s1)" for s1 seg m k
    using that by (intro returns_chain [OF send_stream]) simp
  show ?thesis unfolding fill_step_def Let_def
    by (rule returns_skip, rule returns_chain [OF read_fixes]) (auto split: prod.split intro!: *)
qed

lemma fill_loop_fixes: "returns (fill_loop n s) (fixed_sender s)"
proof (induction n s rule: fill_loop.induct)
  case (1 n s)
  show ?case
  proof (subst fill_loop.simps, intro returns_if)
    assume n: "n > 0"
    show "returns (and_then (ByteStream_buffer_empty (sn_stream s)) (\<lambda>empty. if \<not> empty \<and> \<not> sn_sent_all s
        then and_then (fill_step n s) (\<lambda>x. fill_loop (fst x) (snd x)) else Inr s)) (fixed_sender s)"
      unfolding returns_def
    proof (intro allI impI)
      fix s' assume "and_then (ByteStream_buffer_empty (sn_stream s)) (\<lambda>empty. if \<not> empty \<and> \<not> sn_sent_all s
        then and_then (fill_step n s) (\<lambda>x. fill_loop (fst x) (snd x)) else Inr s) = Inr s'"
      then obtain empty where e: "ByteStream_buffer_empty (sn_stream s) = Inr empty"
        "(if \<not> empty \<and> \<not> sn_sent_all s then and_then (fill_step n s) (\<lambda>x. fill_loop (fst x) (snd x)) else Inr s) = Inr s'"
        by (auto simp: and_then_Inr_iff)
      show "fixed_sender s s'"
      proof (cases "\<not> empty \<and> \<not> sn_sent_all s")
        case True
        with e(2) obtain x where x: "fill_step n s = Inr x" "fill_loop (fst x) (snd x) = Inr s'" by (auto simp: and_then_Inr_iff)
        have "fixed_sender s (snd x)" using returnsD [OF fill_step_fixes x(1)] by (simp add: case_prod_beta)
        moreover have "fixed_sender (snd x) s'" using returnsD [OF "1.IH" [OF n e(1) True x(1)] x(2)] .
        ultimately show ?thesis by (rule fixed_input_trans)
      qed (use e(2) in auto)
    qed
  qed simp
qed

lemma fill_window_fixes: "returns (fill_window s) (fixed_sender s)"
proof -
  have c: "returns (TCPSender_connect s) (fixed_sender s)"
    unfolding TCPSender_connect_def Let_def by (intro returns_assert returns_chain [OF send_stream]) simp
  have f: "returns (and_then (send s seg) (\<lambda>s. Inr (s\<lparr>sn_next_seqno := k s, sn_sent_all := True\<rparr>))) (fixed_sender s)" for seg k
    by (rule returns_chain [OF send_stream]) simp
  show ?thesis unfolding fill_window_def Let_def by (intro returns_if returns_assert c f fill_loop_fixes) simp_all
qed

lemma pop_acknowledged_stream: "returns (pop_acknowledged k xs s) (\<lambda>s'. sn_stream s' = sn_stream s)"
proof (induction xs arbitrary: s)
  case (Cons x xs)
  have p: "returns (pop_outstanding_seg s) (\<lambda>s'. sn_stream s' = sn_stream s)"
    unfolding pop_outstanding_seg_def by (auto intro: returns_assert split: list.split)
  show ?case unfolding pop_acknowledged.simps by (intro returns_if returns_chain [OF p] returns_mono [OF Cons.IH]) simp_all
qed simp

lemma ack_received_stream: "returns (ack_received s ackno w) (\<lambda>s'. sn_stream s' = sn_stream s)"
proof -
  have a: "returns (after_ack k s1) (\<lambda>s'. sn_stream s' = sn_stream s1)" for k s1
    by (auto simp: after_ack_def Let_def reset_timer_def begin_timing_def intro!: returns_assert)
  show ?thesis unfolding ack_received_def Let_def
    by (rule returns_if, simp, rule returns_chain [OF pop_acknowledged_stream], rule returns_mono [OF a]) simp
qed

lemma tick_stream: "returns (TCPSender_tick s ms) (\<lambda>s'. sn_stream s' = sn_stream s)"
  unfolding TCPSender_tick_def resend_def Let_def
  by (intro returns_if returns_assert returns_skip returns_chain [OF returns_assert [where P = "\<lambda>s'. sn_stream s' = sn_stream s"]])
    (auto simp: begin_timing_def update_timer_after_timeout_def Let_def)

abbreviation fixed_outbound :: "TCPConnection \<Rightarrow> TCPConnection \<Rightarrow> bool" where
  "fixed_outbound c c' \<equiv> fixed_input (outbound_stream c) (outbound_stream c')"

lemma send_loop_outbound: "returns (send_loop segs c) (\<lambda>c'. outbound_stream c' = outbound_stream c)"
proof (induction segs arbitrary: c)
  case (Cons seg segs)
  have "returns (send_front c seg) (\<lambda>c'. outbound_stream c' = outbound_stream c)"
    unfolding send_front_def Let_def
    by (intro returns_assert returns_skip returns_chain [where Q = "\<lambda>c'. outbound_stream c' = outbound_stream c"] returns_if)
      (simp_all add: outbound_stream_def)
  show ?case unfolding send_loop.simps by (rule returns_chain [OF \<open>returns (send_front c seg) _\<close>], rule returns_mono [OF Cons.IH]) simp
qed simp

lemma end_cleanly_fixes: "returns (end_cleanly c) (fixed_outbound c)"
  unfolding end_cleanly_def Let_def
  by (intro returns_if returns_chain [OF end_input_fixes] returns_skip) (simp_all add: outbound_stream_def set_outbound_def set_inbound_def)

lemma end_uncleanly_fixes: "fixed_outbound c (end_uncleanly c)"
  by (simp add: fixed_input_def end_uncleanly_def Let_def outbound_stream_def set_outbound_def set_inbound_def ByteStream_set_error_def)

lemma try_to_end_fixes: "returns (try_to_end_cleanly c) (fixed_outbound c)"
  unfolding try_to_end_cleanly_def by (intro returns_if end_cleanly_fixes) simp

lemma send_and_end_fixes: "fixed_outbound c c1 \<Longrightarrow> returns (and_then (send_all c1) try_to_end_cleanly) (fixed_outbound c)"
  unfolding send_all_def
  by (rule returns_chain [OF send_loop_outbound], rule returns_mono [OF try_to_end_fixes]) (auto intro: fixed_input_trans)

lemma fill_and_send_fixes: "returns (fill_and_send c) (fixed_outbound c)"
  unfolding fill_and_send_def
  by (rule returns_chain [OF fill_window_fixes], rule send_and_end_fixes) (simp add: outbound_stream_def)

lemma unsynchronized_fixes: "returns (unsynchronized_segment c header) (fixed_outbound c)"
  unfolding unsynchronized_segment_def by (auto intro: end_uncleanly_fixes split: option.split)

lemma take_ack_outbound: "returns (take_ack c header) (\<lambda>c'. outbound_stream c' = outbound_stream c)"
  unfolding take_ack_def Let_def
  by (rule returns_if, rule returns_chain [OF ack_received_stream]) (auto simp: outbound_stream_def)

lemma respond_fixes:
  "returns (and_then (take_ack c1 header) (\<lambda>c. and_then (fill_window (cn_sender c)) (\<lambda>sender.
      and_then (send_all (c\<lparr>cn_sender := if sn_segments_out sender = [] \<and> m \<noteq> 0 then send_empty_segment sender else sender\<rparr>)) try_to_end_cleanly)))
    (fixed_outbound c1)"
proof (rule returns_chain [OF take_ack_outbound])
  fix c2 assume c2: "outbound_stream c2 = outbound_stream c1"
  show "returns (and_then (fill_window (cn_sender c2)) (\<lambda>sender. and_then (send_all (c2\<lparr>cn_sender :=
      if sn_segments_out sender = [] \<and> m \<noteq> 0 then send_empty_segment sender else sender\<rparr>)) try_to_end_cleanly)) (fixed_outbound c1)"
    unfolding c2 [symmetric]
    by (rule returns_chain [OF fill_window_fixes], rule send_and_end_fixes) (simp add: outbound_stream_def send_empty_segment_def Let_def)
qed

lemma segment_fixes: "returns (TCPConnection_segment_received c seg) (fixed_outbound c)"
proof -
  let ?c = "c\<lparr>cn_time_since_last_segment_received := 0\<rparr>"
  have 1: "fixed_outbound c (end_uncleanly ?c)" using end_uncleanly_fixes [of ?c] by (simp add: outbound_stream_def)
  have 2: "returns (and_then (take_ack c1 h) (\<lambda>c. and_then (fill_window (cn_sender c)) (\<lambda>sender.
      and_then (send_all (c\<lparr>cn_sender := if sn_segments_out sender = [] \<and> m \<noteq> 0 then send_empty_segment sender else sender\<rparr>)) try_to_end_cleanly)))
      (fixed_outbound c)" if "outbound_stream c1 = outbound_stream c" for c1 h m
    using respond_fixes [of c1 h m] that by simp
  show ?thesis unfolding TCPConnection_segment_received_def Let_def
    by (rule returns_if, simp, rule returns_if, rule unsynchronized_fixes, rule returns_if, simp add: 1, rule returns_skip, rule 2)
      (simp add: outbound_stream_def check_not_need_to_linger_def send_empty_segment_def Let_def)
qed

lemma send_rst_outbound: "returns (send_rst c) (\<lambda>c'. outbound_stream c' = outbound_stream c)"
  unfolding send_rst_def Let_def by (auto intro!: returns_skip simp: outbound_stream_def split: option.split)

lemma tick_fixes: "returns (TCPConnection_tick c ms) (fixed_outbound c)"
proof (unfold TCPConnection_tick_def Let_def, rule returns_if, simp, rule returns_chain [OF tick_stream], rule returns_if, goal_cases)
  case (1 s')
  then show ?case
    by (intro returns_chain [OF send_rst_outbound]) (use end_uncleanly_fixes in \<open>force simp: outbound_stream_def fixed_input_def\<close>)
next
  case (2 s')
  let ?c = "c\<lparr>cn_time_since_last_segment_received := add64 (cn_time_since_last_segment_received c) ms, cn_sender := s'\<rparr>"
  have "returns (send_all ?c) (\<lambda>c'. outbound_stream c' = outbound_stream c)"
    unfolding send_all_def by (rule returns_mono [OF send_loop_outbound]) (use 2 in \<open>simp add: outbound_stream_def\<close>)
  then show ?case
  proof (rule returns_chain, intro returns_if)
    fix c2 assume c2: "outbound_stream c2 = outbound_stream c"
    show "returns (end_cleanly (c2\<lparr>cn_linger_after_streams_finish := False\<rparr>)) (fixed_outbound c)"
      using end_cleanly_fixes [of "c2\<lparr>cn_linger_after_streams_finish := False\<rparr>"] c2 by (simp add: outbound_stream_def)
    show "returns (try_to_end_cleanly c2) (fixed_outbound c)" using try_to_end_fixes [of c2] c2 by simp
    show "returns (Inr c2) (fixed_outbound c)" using c2 by simp
  qed
qed

lemma end_out_fixes: "returns (end_input_stream c) (\<lambda>c'. fixed_outbound c c' \<and> bs_input_ended (outbound_stream c'))"
  unfolding end_input_stream_def
proof (rule returns_assert, rule returns_chain [OF end_input_fixes])
  fix s assume "fixed_input (outbound_stream c) s \<and> bs_input_ended s"
  then show "returns (fill_and_send (set_outbound c s)) (\<lambda>c'. fixed_outbound c c' \<and> bs_input_ended (outbound_stream c'))"
    by (intro returns_mono [OF fill_and_send_fixes]) (auto simp: fixed_input_def outbound_stream_def set_outbound_def)
qed

lemma write_stream_fields:
  "ByteStream_write s d = Inr (n, s') \<Longrightarrow> \<not> bs_input_ended s \<and> bs_bytes_written s' = add64 (bs_bytes_written s) n \<and> bs_input_ended s' = bs_input_ended s"
  by (auto simp: ByteStream_write_def ByteStream_push_str_def and_then_Inr_iff Let_def split: if_splits)

lemma write_out_fixes:
  assumes "TCPConnection_write c d = Inr (n, c')"
  shows "cn_active c \<and> \<not> bs_input_ended (outbound_stream c) \<and> bs_bytes_written (outbound_stream c') = add64 (bs_bytes_written (outbound_stream c)) n"
proof -
  obtain s where s: "cn_active c" "ByteStream_write (outbound_stream c) d = Inr (n, s)" "fill_and_send (set_outbound c s) = Inr c'"
    using assms by (auto simp: TCPConnection_write_def and_then_Inr_iff)
  from returnsD [OF fill_and_send_fixes s(3)] write_stream_fields [OF s(2)] s(1) show ?thesis
    by (simp add: fixed_input_def outbound_stream_def set_outbound_def)
qed

lemma connect_fixes: "returns (TCPConnection_connect c) (fixed_outbound c)"
  unfolding TCPConnection_connect_def Let_def
  by (intro returns_assert, rule returns_chain [OF fill_window_fixes])
    (auto intro!: returns_skip returns_assert simp: outbound_stream_def split: list.split)

end
