(* ===== verification/Segment_Transport.thy ===== *)
theory Segment_Transport
  imports Adapters
begin

text \<open>
  What the adapters of \<open>Adapters\<close> promise: the contract on which \<open>TCPSpongeSocket\<close> relies, as a locale that every adapter and every
  lossy adapter interprets, and that a segment written by one adapter is the segment that the adapter at the other end of the link
  reads, over UDP, over a TUN device and over Ethernet.
\<close>

section \<open>What writing leaves alone\<close>

lemma write_loop_fd:
  "write_loop K write_all fd buffer tot k = Inr (n, fd', k') \<Longrightarrow>
    fd_fd fd' = fd_fd fd \<and> fd_eof fd' = fd_eof fd \<and> fd_closed fd' = fd_closed fd \<and> fd_read_count fd' = fd_read_count fd"
proof (induction K write_all fd buffer tot k arbitrary: n fd' k' rule: write_loop.induct)
  case (1 K write_all fd buffer tot k)
  obtain ret errno k1 where s: "sys_writev K (fd_fd fd) (iovec_bytes buffer) k = ((ret, errno), k1)" by (metis surj_pair)
  from "1.prems" obtain m buffer' where m: "SystemCall ''writev'' (to_int ret) errno 0 = Inr m" "\<not> (m = 0 \<and> BufferViewList_size buffer \<noteq> 0)"
      "\<not> m > signed_take_bit 63 (int (BufferViewList_size buffer))" "BufferViewList_remove_prefix buffer (to_size m) = Inr buffer'"
    and r: "(if write_all \<and> BufferViewList_size buffer' \<noteq> 0 then write_loop K write_all (register_write fd) buffer' (add64 tot (to_size m)) k1
       else Inr (add64 tot (to_size m), register_write fd, k1)) = Inr (n, fd', k')"
    unfolding write_loop.simps [of K write_all fd buffer tot k] s by (auto simp: and_then_Inr_iff Let_def split: if_splits)
  show ?case
  proof (cases "write_all \<and> BufferViewList_size buffer' \<noteq> 0")
    case True
    with "1.IH" [OF refl s [symmetric] refl m(1-3) refl m(4) refl True] r show ?thesis by simp
  qed (use r in auto)
qed

lemma FileDescriptor_write_fd:
  "FileDescriptor_write K fd buffer write_all k = Inr (n, fd', k') \<Longrightarrow> fd_fd fd' = fd_fd fd \<and> fd_read_count fd' = fd_read_count fd"
  unfolding FileDescriptor_write_def by (drule write_loop_fd) simp

lemma FileDescriptor_read_count:
  "FileDescriptor_read K fd limit k = Inr (d, fd', k') \<Longrightarrow> fd_read_count fd' = fd_read_count fd + 1"
  unfolding FileDescriptor_read_def by (auto simp: and_then_Inr_iff Let_def split: prod.splits if_splits)

lemma write_frames_fd:
  "write_frames K frames a k = Inr (a', k') \<Longrightarrow> fd_read_count (et_tap a') = fd_read_count (et_tap a) \<and> et_base a' = et_base a"
proof (induction frames arbitrary: a k)
  case (Cons f frames)
  from Cons.prems obtain tap k1 where t: "write_frame K (et_tap a) f k = Inr (tap, k1)"
    "write_frames K frames (a\<lparr>et_tap := tap, et_interface := (et_interface a)\<lparr>ni_frames_out := frames\<rparr>\<rparr>) k1 = Inr (a', k')"
    by (auto simp: and_then_Inr_iff)
  then have "fd_read_count tap = fd_read_count (et_tap a)"
    by (auto simp: write_frame_def and_then_Inr_iff dest: FileDescriptor_write_fd)
  with Cons.IH [OF t(2)] show ?case by simp
qed simp

section \<open>The contract of an adapter\<close>

lemma lossy_adapter_fields [simp]:
  "op_fd (lossy_adapter K ops) = op_fd ops" "op_base (lossy_adapter K ops) = op_base ops" "op_set_base (lossy_adapter K ops) = op_set_base ops"
  "op_read (lossy_adapter K ops) = LossyFdAdapter_read K ops" "op_write (lossy_adapter K ops) = LossyFdAdapter_write K ops"
  by (simp_all add: lossy_adapter_def)

lemma LossyFdAdapter_read_result:
  "LossyFdAdapter_read K ops a k = Inr (seg, a', k') \<Longrightarrow> \<exists>ret k1. op_read ops a k = Inr (ret, a', k1) \<and> (seg = ret \<or> seg = None)"
proof -
  assume *: "LossyFdAdapter_read K ops a k = Inr (seg, a', k')"
  then obtain ret a1 k1 where r: "op_read ops a k = Inr (ret, a1, k1)" by (auto simp: LossyFdAdapter_read_def and_then_Inr_iff)
  with * show ?thesis
    by (cases "should_drop K (fa_cfg (op_base ops a1)) False k1") (auto simp: LossyFdAdapter_read_def split: if_splits)
qed

locale fd_adapter =
  fixes ops :: "('a, 'k) adapter"
  assumes read_serves: "op_read ops a k = Inr (seg, a', k') \<Longrightarrow> fd_read_count (op_fd ops a') = fd_read_count (op_fd ops a) + 1"
    and read_latches: "op_read ops a k = Inr (Some s, a', k') \<Longrightarrow> \<not> fa_listen (op_base ops a') \<and>
      (if fa_listen (op_base ops a) then th_syn (sg_header s) \<and> \<not> th_rst (sg_header s) else op_base ops a' = op_base ops a)"
    and set_base: "op_base ops (op_set_base ops b a) = b" "op_fd ops (op_set_base ops b a) = op_fd ops a"
begin

lemma read_counts: "op_read ops a k = Inr (seg, a', k') \<Longrightarrow> fd_read_count (op_fd ops a') \<noteq> fd_read_count (op_fd ops a)"
  using read_serves by fastforce

lemma lossy_serves:
  "LossyFdAdapter_read K ops a k = Inr (seg, a', k') \<Longrightarrow> fd_read_count (op_fd ops a') = fd_read_count (op_fd ops a) + 1"
  by (drule LossyFdAdapter_read_result) (auto dest: read_serves)

lemma lossy_latches:
  "LossyFdAdapter_read K ops a k = Inr (Some s, a', k') \<Longrightarrow> \<not> fa_listen (op_base ops a') \<and>
      (if fa_listen (op_base ops a) then th_syn (sg_header s) \<and> \<not> th_rst (sg_header s) else op_base ops a' = op_base ops a)"
  by (drule LossyFdAdapter_read_result) (auto dest: read_latches)

text \<open>Without a loss rate a lossy adapter is the adapter itself.\<close>

lemma lossless:
  assumes "fc_loss_rate_up (fa_cfg (op_base ops a)) = 0"
  shows "op_write (lossy_adapter K ops) seg a k = op_write ops seg a k"
  using assms by (simp add: LossyFdAdapter_write_def should_drop_def)

end

lemma unwrap_latches:
  assumes "unwrap_tcp_in_ip b d = Inr (Some s, b')"
  shows "\<not> fa_listen b' \<and> (if fa_listen b then th_syn (sg_header s) \<and> \<not> th_rst (sg_header s) else b' = b)"
  using assms unfolding unwrap_tcp_in_ip_def
  by (auto simp: and_then_Inr_iff Let_def FdAdapterBase_set_listening_def split: if_splits dest: arg_cong [where f = fa_listen])

interpretation udp: fd_adapter "udp_adapter K" for K
proof
  show "fd_read_count (op_fd (udp_adapter K) a') = fd_read_count (op_fd (udp_adapter K) a) + 1"
    if "op_read (udp_adapter K) a k = Inr (seg, a', k')" for a k seg a' k'
    using that by (auto simp: udp_adapter_def TCPOverUDPSocketAdapter_read_def UDPSocket_recv_def and_then_Inr_iff Let_def
        split: prod.splits if_splits)
  show "\<not> fa_listen (op_base (udp_adapter K) a') \<and> (if fa_listen (op_base (udp_adapter K) a) then th_syn (sg_header s) \<and> \<not> th_rst (sg_header s)
      else op_base (udp_adapter K) a' = op_base (udp_adapter K) a)"
    if "op_read (udp_adapter K) a k = Inr (Some s, a', k')" for a k s a' k'
    using that by (auto simp: udp_adapter_def TCPOverUDPSocketAdapter_read_def and_then_Inr_iff Let_def FdAdapterBase_set_listening_def
        split: prod.splits if_splits dest: arg_cong [where f = "\<lambda>a. fa_listen (ud_base a)"])
qed (simp_all add: udp_adapter_def)

interpretation tun: fd_adapter "tun_adapter K" for K
proof
  show "fd_read_count (op_fd (tun_adapter K) a') = fd_read_count (op_fd (tun_adapter K) a) + 1"
    if "op_read (tun_adapter K) a k = Inr (seg, a', k')" for a k seg a' k'
    using that by (auto simp: tun_adapter_def TCPOverIPv4OverTunFdAdapter_read_def read_max_def and_then_Inr_iff Let_def
        split: prod.splits if_splits dest!: FileDescriptor_read_count)
  show "\<not> fa_listen (op_base (tun_adapter K) a') \<and> (if fa_listen (op_base (tun_adapter K) a) then th_syn (sg_header s) \<and> \<not> th_rst (sg_header s)
      else op_base (tun_adapter K) a' = op_base (tun_adapter K) a)"
    if "op_read (tun_adapter K) a k = Inr (Some s, a', k')" for a k s a' k'
    using that by (auto simp: tun_adapter_def TCPOverIPv4OverTunFdAdapter_read_def and_then_Inr_iff Let_def
        split: prod.splits if_splits dest!: unwrap_latches)
qed (simp_all add: tun_adapter_def)

interpretation ethernet: fd_adapter "ethernet_adapter K" for K
proof
  show "fd_read_count (op_fd (ethernet_adapter K) a') = fd_read_count (op_fd (ethernet_adapter K) a) + 1"
    if "op_read (ethernet_adapter K) a k = Inr (seg, a', k')" for a k seg a' k'
    using that by (auto simp: ethernet_adapter_def TCPOverIPv4OverEthernetAdapter_read_def read_max_def send_pending_def and_then_Inr_iff Let_def
        split: prod.splits if_splits option.splits dest!: FileDescriptor_read_count write_frames_fd)
  show "\<not> fa_listen (op_base (ethernet_adapter K) a') \<and> (if fa_listen (op_base (ethernet_adapter K) a) then th_syn (sg_header s) \<and> \<not> th_rst (sg_header s)
      else op_base (ethernet_adapter K) a' = op_base (ethernet_adapter K) a)"
    if "op_read (ethernet_adapter K) a k = Inr (Some s, a', k')" for a k s a' k'
    using that by (auto simp: ethernet_adapter_def TCPOverIPv4OverEthernetAdapter_read_def send_pending_def and_then_Inr_iff Let_def
        split: prod.splits if_splits option.splits dest!: unwrap_latches write_frames_fd)
qed (simp_all add: ethernet_adapter_def)

interpretation lossy_udp: fd_adapter "lossy_adapter K (udp_adapter K)" for K
  by (unfold_locales; unfold lossy_adapter_fields) (erule udp.lossy_serves, erule udp.lossy_latches, rule udp.set_base, rule udp.set_base)

interpretation lossy_tun: fd_adapter "lossy_adapter K (tun_adapter K)" for K
  by (unfold_locales; unfold lossy_adapter_fields) (erule tun.lossy_serves, erule tun.lossy_latches, rule tun.set_base, rule tun.set_base)

section \<open>Links\<close>

text \<open>A link hands the bytes that are written at one end to the next read at the other end, in one piece: datagrams for a socket,
  packets for a device. The bound on the length is that of an IP datagram inside an Ethernet frame.\<close>

definition udp_link :: "'k kernel \<Rightarrow> int \<Rightarrow> int \<Rightarrow> Address \<Rightarrow> Address \<Rightarrow> bool" where
  "udp_link K f g source destination \<longleftrightarrow> (\<forall>bs k. length bs \<le> 65507 \<longrightarrow> (\<exists>e e' k1 k2.
     sys_sendmsg K f (Some destination) bs k = ((int (length bs), e), k1) \<and>
     sys_recvfrom K g 65536 k1 = ((int (length bs), e', source, bs), k2)))"

definition device_link :: "'k kernel \<Rightarrow> int \<Rightarrow> int \<Rightarrow> bool" where
  "device_link K f g \<longleftrightarrow> (\<forall>bs k. length bs \<le> 65549 \<longrightarrow> (\<exists>e e' k1 k2.
     sys_writev K f bs k = ((int (length bs), e), k1) \<and> sys_read K g READ_BUFFER_SIZE k1 = ((int (length bs), e', bs), k2)))"

lemma device_link_transfer:
  assumes "device_link K (fd_fd fd) (fd_fd gd)" "length (bv_str buffer) \<le> 65549"
  shows "\<exists>k1 k2 gd'. FileDescriptor_write K fd buffer True k = Inr (length (bv_str buffer), register_write fd, k1) \<and>
    read_max K gd k1 = Inr (bv_str buffer, gd', k2)"
proof -
  obtain e e' k1 k2 where k: "sys_writev K (fd_fd fd) (bv_str buffer) k = ((int (length (bv_str buffer)), e), k1)"
    "sys_read K (fd_fd gd) READ_BUFFER_SIZE k1 = ((int (length (bv_str buffer)), e', bv_str buffer), k2)"
    using assms unfolding device_link_def by blast
  have "FileDescriptor_write K fd buffer True k = Inr (length (bv_str buffer), register_write fd, k1)"
    using write_round [OF k(1), of True 0] assms(2) by (auto simp: FileDescriptor_write_def)
  moreover have "min READ_BUFFER_SIZE (two64 - 1) = READ_BUFFER_SIZE" by (simp add: READ_BUFFER_SIZE_def)
  with FileDescriptor_read_ok [of K gd "two64 - 1" k1] k(2) assms(2) have "\<exists>gd' k2. read_max K gd k1 = Inr (bv_str buffer, gd', k2)"
    by (auto simp: read_max_def READ_BUFFER_SIZE_def)
  ultimately show ?thesis by blast
qed

text \<open>The segment that arrives: the one that was sent, with the sender's ports and a checksum.\<close>

definition same_segment :: "FdAdapterBase \<Rightarrow> TCPSegment \<Rightarrow> TCPSegment \<Rightarrow> bool" where
  "same_segment b seg seg' \<longleftrightarrow> (\<exists>c. sg_header seg' = (sg_header (addressed b seg))\<lparr>th_cksum := c\<rparr>) \<and>
     Buffer_str (sg_payload seg') = Buffer_str (sg_payload seg)"

definition peers :: "FdAdapterBase \<Rightarrow> FdAdapterBase \<Rightarrow> bool" where
  "peers a b \<longleftrightarrow> \<not> fa_listen b \<and> fc_source (fa_cfg b) = fc_destination (fa_cfg a) \<and> fc_destination (fa_cfg b) = fc_source (fa_cfg a)"

section \<open>Properties\<close>

text \<open>C14. TCP over UDP: a segment that one adapter writes is the segment that the adapter at the other end reads; an adapter that listens
  takes a SYN, and from then on answers the address it came from.\<close>

theorem udp_transport:
  assumes seg: "seg_ok seg" "wire_size seg \<le> 65507"
    and link: "udp_link K (fd_fd (ud_sock a)) (fd_fd (ud_sock b)) source (fc_destination (fa_cfg (ud_base a)))"
    and b: "if fa_listen (ud_base b) then th_syn (sg_header seg) \<and> \<not> th_rst (sg_header seg) else fc_destination (fa_cfg (ud_base b)) = source"
  shows "\<exists>a' k1 seg' b' k2. TCPOverUDPSocketAdapter_write K seg a k = Inr (a', k1) \<and>
    TCPOverUDPSocketAdapter_read K b k1 = Inr (Some seg', b', k2) \<and> same_segment (ud_base a) seg seg' \<and>
    \<not> fa_listen (ud_base b') \<and> fc_destination (fa_cfg (ud_base b')) = source"
proof -
  have w: "wire_size (addressed (ud_base a) seg) \<le> 65535" using seg(2) by (simp add: addressed_ok)
  obtain bl c where bl: "TCPSegment_serialize (addressed (ud_base a) seg) 0 = Inr bl"
    "bl_str bl = header_bytes ((sg_header (addressed (ud_base a) seg))\<lparr>th_cksum := c\<rparr>) @ Buffer_str (sg_payload seg)"
    "length (bl_str bl) = wire_size seg" "cksum_of 0 (bl_str bl) = 0"
    using TCPSegment_serialize_ok [OF addressed_ok(1) [OF seg(1), of "ud_base a"] _ w, of 0] by (auto simp: addressed_ok)
  obtain e e' k1 k2 where k: "sys_sendmsg K (fd_fd (ud_sock a)) (Some (fc_destination (fa_cfg (ud_base a)))) (bl_str bl) k = ((int (length (bl_str bl)), e), k1)"
    "sys_recvfrom K (fd_fd (ud_sock b)) 65536 k1 = ((int (length (bl_str bl)), e', source, bl_str bl), k2)"
    using link bl(3) seg(2) unfolding udp_link_def by metis
  have wr: "TCPOverUDPSocketAdapter_write K seg a k = Inr (a\<lparr>ud_sock := register_write (ud_sock a)\<rparr>, k1)"
    using bl(1,3) seg(2) k(1) by (simp add: TCPOverUDPSocketAdapter_write_def UDPSocket_sendto_def sendmsg_helper_def Let_def)
  have recv: "UDPSocket_recv K (ud_sock b) 65536 k1 = Inr (\<lparr>rd_source_address = source, rd_payload = bl_str bl\<rparr>, register_read (ud_sock b), k2)"
    using k(2) bl(3) seg(2) by (simp add: UDPSocket_recv_def Let_def resize_to_def string_resize_def)
  let ?s = "(addressed (ud_base a) seg)\<lparr>sg_header := (sg_header (addressed (ud_base a) seg))\<lparr>th_cksum := c\<rparr>\<rparr>"
  have "seg_ok ?s" using addressed_ok(1) [OF seg(1), of "ud_base a"] by (simp add: seg_ok_def)
  from TCPSegment_parse_wire [OF this, of 0 "Buffer_of (bl_str bl)" TCPSegment_default] bl seg(2) obtain seg' where
    seg': "TCPSegment_parse TCPSegment_default (Buffer_of (bl_str bl)) 0 = Inr (NoError, seg')" "sg_header seg' = sg_header ?s"
    "Buffer_str (sg_payload seg') = Buffer_str (sg_payload seg)" by auto
  have flags: "th_syn (sg_header seg') = th_syn (sg_header seg)" "th_rst (sg_header seg') = th_rst (sg_header seg)"
    unfolding seg'(2) by (simp_all add: addressed_def)
  have "same_segment (ud_base a) seg seg'" using seg'(2,3) by (auto simp: same_segment_def)
  moreover have "\<exists>b'. TCPOverUDPSocketAdapter_read K b k1 = Inr (Some seg', b', k2) \<and> \<not> fa_listen (ud_base b') \<and> fc_destination (fa_cfg (ud_base b')) = source"
    using recv seg'(1) b flags by (cases "fa_listen (ud_base b)") (simp_all add: TCPOverUDPSocketAdapter_read_def FdAdapterBase_set_listening_def Let_def)
  ultimately show ?thesis using wr by blast
qed

definition link_kernel :: "bytes kernel" where
  "link_kernel = one_byte_kernel\<lparr>sys_writev := \<lambda>f bs k. ((int (length bs), 0), bs), sys_read := \<lambda>f n k. ((int (length k), 0, k), k),
     sys_sendmsg := \<lambda>f a bs k. ((int (length bs), 0), bs), sys_recvfrom := \<lambda>f n k. ((int (length k), 0, \<lparr>ad_ip = 1, ad_port = 80\<rparr>, k), k)\<rparr>"

definition sample_segment :: TCPSegment where
  "sample_segment = \<lparr>sg_header = TCPHeader_default\<lparr>th_syn := True\<rparr>, sg_payload = Buffer_of [1, 2, 3]\<rparr>"

definition sample_fd :: FDWrapper where
  "sample_fd = \<lparr>fd_fd = 3, fd_eof = False, fd_closed = False, fd_read_count = 0, fd_write_count = 0\<rparr>"

lemma sample_segment_ok: "seg_ok sample_segment" "wire_size sample_segment = 23" "th_syn (sg_header sample_segment)" "\<not> th_rst (sg_header sample_segment)"
  "Buffer_str (sg_payload sample_segment) = [1, 2, 3]"
  by (simp_all add: sample_segment_def seg_ok_def wire_size_def TCPHeader_default_def TCPHeader_LENGTH_def)

theorem udp_transport_witness:
  "let a = \<lparr>ud_base = FdAdapterBase_default, ud_sock = sample_fd\<rparr>; b = \<lparr>ud_base = FdAdapterBase_set_listening FdAdapterBase_default True, ud_sock = sample_fd\<rparr>
   in \<exists>a' k1 seg' b' k2. TCPOverUDPSocketAdapter_write link_kernel sample_segment a [] = Inr (a', k1) \<and>
     TCPOverUDPSocketAdapter_read link_kernel b k1 = Inr (Some seg', b', k2) \<and> Buffer_str (sg_payload seg') = [1, 2, 3] \<and>
     fc_destination (fa_cfg (ud_base b')) = \<lparr>ad_ip = 1, ad_port = 80\<rparr>"
proof -
  let ?a = "\<lparr>ud_base = FdAdapterBase_default, ud_sock = sample_fd\<rparr>"
  let ?b = "\<lparr>ud_base = FdAdapterBase_set_listening FdAdapterBase_default True, ud_sock = sample_fd\<rparr>"
  have "udp_link link_kernel (fd_fd (ud_sock ?a)) (fd_fd (ud_sock ?b)) \<lparr>ad_ip = 1, ad_port = 80\<rparr> (fc_destination (fa_cfg (ud_base ?a)))"
    by (simp add: udp_link_def link_kernel_def)
  from udp_transport [OF sample_segment_ok(1) _ this, of "[]"] show ?thesis unfolding Let_def
    by (force simp: sample_segment_ok FdAdapterBase_set_listening_def same_segment_def)
qed

text \<open>C13. TCP over IPv4 over Ethernet: when the sender knows the Ethernet address of its next hop, the segment it writes leaves in one
  frame on its device, and the adapter at the other end of the link, read once, returns that segment. This goes through the TCP checksum,
  the IP header and its checksum, the Ethernet frame and the filters of the interface and of the adapter.\<close>

theorem ethernet_transport:
  assumes seg: "seg_ok seg" "wire_size seg + IPv4Header_LENGTH \<le> 65535"
    and inv: "ni_inv (et_interface a)" "ni_inv (et_interface b)" "ni_frames_out (et_interface a) = []" "ni_frames_out (et_interface b) = []"
    and known: "ni_ip_eth_map (et_interface a) (ad_ip (et_next_hop a)) = Some r" "re_addr r = ni_ethernet_address (et_interface b)"
    and p: "peers (et_base a) (et_base b)" and link: "device_link K (fd_fd (et_tap a)) (fd_fd (et_tap b))"
  shows "\<exists>a' k1 seg' b' k2. TCPOverIPv4OverEthernetAdapter_write K seg a k = Inr (a', k1) \<and>
    TCPOverIPv4OverEthernetAdapter_read K b k1 = Inr (Some seg', b', k2) \<and> same_segment (et_base a) seg seg' \<and> et_base b' = et_base b"
proof -
  let ?n = "et_interface a" and ?m = "et_interface b"
  obtain d where d: "wrap_tcp_in_ip (et_base a) seg = Inr (d, addressed (et_base a) seg)" "dgram_ok d"
    using wrap_tcp_in_ip_ok [OF seg, of "et_base a"] by blast
  define f where "f = data_frame ?n (ni_ethernet_address ?m) d"
  have six: "length (ni_ethernet_address ?n) = 6" "length (ni_ethernet_address ?m) = 6" using inv(1,2) unfolding ni_inv_def by blast+
  have send: "send_datagram ?n d (et_next_hop a) = Inr (?n\<lparr>ni_frames_out := [f]\<rparr>)"
    using send_datagram_ok [OF inv(1) d(2), of "et_next_hop a"] known inv(3) by (auto simp: f_def)
  obtain g q d' q' where g: "carried f g" "ef_header g = ef_header f" "ef_payload g = BufferList_of_Buffer q"
    "IPv4Datagram_parse IPv4Datagram_default q = Inr (NoError, d')" "dg_header d' = (dg_header d)\<lparr>ih_cksum := ih_cksum (dg_header d')\<rparr>"
    "bl_str (dg_payload d') = bl_str (dg_payload d)" "dg_payload d' = BufferList_of_Buffer q'" "buf_inv q'"
    using carried_datagram [OF d(2) six(2,1)] unfolding f_def by blast
  have len: "length (bl_str (EthernetFrame_serialize f)) \<le> 65549" by (rule data_frame_length [OF d(2) six(2,1), folded f_def])
  obtain k1 k2 tap where t: "FileDescriptor_write K (et_tap a) (BufferViewList_of_BufferList (EthernetFrame_serialize f)) True k =
      Inr (length (bl_str (EthernetFrame_serialize f)), register_write (et_tap a), k1)"
    "read_max K (et_tap b) k1 = Inr (bl_str (EthernetFrame_serialize f), tap, k2)"
    using device_link_transfer [OF link, of "BufferViewList_of_BufferList (EthernetFrame_serialize f)" k] len by auto
  have wr: "\<exists>a'. TCPOverIPv4OverEthernetAdapter_write K seg a k = Inr (a', k1)"
    using d(1) send t(1) by (simp add: TCPOverIPv4OverEthernetAdapter_write_def send_pending_def write_frame_def)
  have recv: "recv_frame ?m g = Inr (Some d', ?m)" using g by (simp add: recv_frame_def f_def data_frame_def)
  obtain seg' where seg': "unwrap_tcp_in_ip (et_base b) d' = Inr (Some seg', et_base b)" "same_segment (et_base a) seg seg'"
    using unwrap_wire [OF seg, of "et_base b" "et_base a", OF _ _ _ d(1) g(5,7,8)] p g(6,7) unfolding peers_def same_segment_def by auto
  have "TCPOverIPv4OverEthernetAdapter_read K b k1 = Inr (Some seg', b\<lparr>et_tap := tap\<rparr>, k2)"
    using t(2) g(1) recv seg'(1) inv(4)
    by (simp add: TCPOverIPv4OverEthernetAdapter_read_def carried_def send_pending_def)
  then show ?thesis using wr seg'(2) by fastforce
qed

theorem ethernet_transport_witness:
  "let b2 = FdAdapterBase_default; hop = \<lparr>ad_ip = 9, ad_port = 0\<rparr>;
       n = (NetworkInterface_new (replicate 6 2) \<lparr>ad_ip = 7, ad_port = 0\<rparr>)\<lparr>ni_ip_eth_map := [9 \<mapsto> \<lparr>re_addr = replicate 6 4, re_time = 0\<rparr>]\<rparr>;
       a = \<lparr>et_base = b2, et_tap = sample_fd, et_interface = n, et_next_hop = hop\<rparr>;
       b = \<lparr>et_base = b2, et_tap = sample_fd, et_interface = NetworkInterface_new (replicate 6 4) hop, et_next_hop = hop\<rparr>
   in \<exists>a' k1 seg' b' k2. TCPOverIPv4OverEthernetAdapter_write link_kernel sample_segment a [] = Inr (a', k1) \<and>
     TCPOverIPv4OverEthernetAdapter_read link_kernel b k1 = Inr (Some seg', b', k2) \<and> Buffer_str (sg_payload seg') = [1, 2, 3]"
proof -
  define hop :: Address where "hop = \<lparr>ad_ip = 9, ad_port = 0\<rparr>"
  define n where "n = (NetworkInterface_new (replicate 6 2) \<lparr>ad_ip = 7, ad_port = 0\<rparr>)\<lparr>ni_ip_eth_map := [9 \<mapsto> \<lparr>re_addr = replicate 6 4, re_time = 0\<rparr>]\<rparr>"
  define a where "a = \<lparr>et_base = FdAdapterBase_default, et_tap = sample_fd, et_interface = n, et_next_hop = hop\<rparr>"
  define b where "b = \<lparr>et_base = FdAdapterBase_default, et_tap = sample_fd, et_interface = NetworkInterface_new (replicate 6 4) hop, et_next_hop = hop\<rparr>"
  have "ni_inv n" by (auto simp: n_def ni_inv_def NetworkInterface_new_def)
  moreover have "ni_inv (et_interface b)" unfolding b_def by (simp add: NetworkInterface_new_inv)
  moreover have "peers (et_base a) (et_base b)" by (simp add: peers_def a_def b_def FdAdapterBase_default_def FdAdapterConfig_default_def)
  moreover have "device_link link_kernel (fd_fd (et_tap a)) (fd_fd (et_tap b))" by (simp add: device_link_def link_kernel_def)
  ultimately have "\<exists>a' k1 seg' b' k2. TCPOverIPv4OverEthernetAdapter_write link_kernel sample_segment a [] = Inr (a', k1) \<and>
     TCPOverIPv4OverEthernetAdapter_read link_kernel b k1 = Inr (Some seg', b', k2) \<and> same_segment (et_base a) sample_segment seg' \<and> et_base b' = et_base b"
    by (intro ethernet_transport [OF sample_segment_ok(1), where r = "\<lparr>re_addr = replicate 6 4, re_time = 0\<rparr>"])
      (simp_all add: sample_segment_ok IPv4Header_LENGTH_def a_def b_def n_def hop_def NetworkInterface_new_def)
  then show ?thesis unfolding Let_def hop_def [symmetric] n_def [symmetric] a_def [symmetric] b_def [symmetric]
    by (auto simp: same_segment_def sample_segment_ok)
qed

end
