(* ===== verification/Socket_Glue.thy ===== *)
theory Socket_Glue
  imports Sponge_Socket Kernel_Log Connection_Streams Segment_Transport
begin

text \<open>
  What \<open>TCPSpongeSocket\<close> makes of a \<open>TCPConnection\<close>: every run of its loops is a history of the connection, whose writes are the bytes taken from the
  owner, whose reads are the bytes given to the owner, whose arrivals are the segments the adapter handed over and whose collected
  segments are those the adapter was given. So what \<open>Endpoint\<close> shows of a connection holds of the bytes of the owner.
\<close>

section \<open>Histories of a connection behind a socket\<close>

fun arrived :: "conn_event \<Rightarrow> TCPSegment list" where
  "arrived (ArriveSegment seg) = [seg]"
| "arrived _ = []"

fun written_by :: "conn_event \<Rightarrow> bytes" where
  "written_by (WriteOut d) = d"
| "written_by _ = []"

text \<open>The events the rules cause. A write is accepted whole.\<close>

fun socket_event :: "TCPConnection \<Rightarrow> conn_event \<Rightarrow> bool" where
  "socket_event c (WriteOut d) \<longleftrightarrow> (\<exists>c'. TCPConnection_write c d = Inr (length d, c'))"
| "socket_event c (DrainIn len taken) \<longleftrightarrow> taken \<le> len"
| "socket_event c (ReadIn n) \<longleftrightarrow> False"
| "socket_event c ConnectOut \<longleftrightarrow> False"
| "socket_event c Destroy \<longleftrightarrow> False"
| "socket_event c _ \<longleftrightarrow> True"

lemma run_snoc:
  "run step s es = Inr (outs, s') \<Longrightarrow> step s' e = Inr (out, s'') \<Longrightarrow> run step s (es @ [e]) = Inr (outs @ [out], s'')"
proof (induction es arbitrary: s outs)
  case (Cons x es)
  from Cons.prems(1) obtain o1 s1 rest where r: "step s x = Inr (o1, s1)" "run step s1 es = Inr (rest, s')" "outs = o1 # rest" by (auto simp: and_then_Inr_iff)
  from Cons.IH [OF r(2) Cons.prems(2)] r show ?case by simp
qed simp

lemma admissible_run_snoc:
  "run step s es = Inr (outs, s') \<Longrightarrow> admissible_run step ok s es \<Longrightarrow> ok s' e \<Longrightarrow> admissible_run step ok s (es @ [e])"
proof (induction es arbitrary: s outs)
  case (Cons x es)
  from Cons.prems(1) obtain o1 s1 rest where r: "step s x = Inr (o1, s1)" "run step s1 es = Inr (rest, s')" by (auto simp: and_then_Inr_iff)
  from Cons.IH [OF r(2)] Cons.prems(2,3) r show ?case by simp
qed (auto split: sum.split)

type_synonym ('a, 'k) logged_sponge = "('a logged_adapter_state, 'k logged_state) sponge"

definition traced :: "int \<Rightarrow> TCPConnection \<Rightarrow> ('a, 'k) logged_sponge \<Rightarrow> conn_event list \<Rightarrow> (TCPSegment list \<times> bytes) list \<Rightarrow> TCPConnection \<Rightarrow> bool" where
  "traced f c0 w es outs tcp \<longleftrightarrow> so_tcp w = Some tcp \<and> fd_fd (so_thread_data w) = f \<and> sound_conn tcp \<and>
     run conn_step c0 es = Inr (outs, tcp) \<and> admissible_run conn_step socket_event c0 es \<and>
     la_received (so_adapter w) = concat (map arrived es) \<and> lg_consumed (so_kernel w) f = concat (map written_by es) \<and>
     la_sent (so_adapter w) = concat (map fst outs) \<and> lg_accepted (so_kernel w) f = concat (map snd outs)"

definition glue :: "int \<Rightarrow> TCPConnection \<Rightarrow> ('a, 'k) logged_sponge \<Rightarrow> bool" where
  "glue f c0 w \<longleftrightarrow> (\<exists>es outs tcp. traced f c0 w es outs tcp)"

lemma traced_step:
  assumes "traced f c0 w es outs tcp" "conn_step tcp e = Inr ((segs, d), tcp')" "socket_event tcp e" "sound_conn tcp'" "so_tcp w' = Some tcp'"
    "fd_fd (so_thread_data w') = f" "la_received (so_adapter w') = la_received (so_adapter w) @ arrived e"
    "lg_consumed (so_kernel w') f = lg_consumed (so_kernel w) f @ written_by e" "la_sent (so_adapter w') = la_sent (so_adapter w) @ segs"
    "lg_accepted (so_kernel w') f = lg_accepted (so_kernel w) f @ d"
  shows "traced f c0 w' (es @ [e]) (outs @ [(segs, d)]) tcp'"
proof -
  have t: "run conn_step c0 es = Inr (outs, tcp)" "admissible_run conn_step socket_event c0 es" using assms(1) unfolding traced_def by blast+
  from run_snoc [OF t(1) assms(2)] admissible_run_snoc [OF t assms(3)] assms show ?thesis unfolding traced_def by simp
qed

lemma traced_same:
  assumes "traced f c0 w es outs tcp" "so_tcp w' = so_tcp w" "fd_fd (so_thread_data w') = fd_fd (so_thread_data w)" "same_log (so_kernel w) (so_kernel w')"
    "la_received (so_adapter w') = la_received (so_adapter w)" "la_sent (so_adapter w') = la_sent (so_adapter w)"
  shows "traced f c0 w' es outs tcp"
  using assms unfolding traced_def same_log_def by simp

section \<open>The rules\<close>

lemma receive_keeps:
  assumes "glue f c0 w" "receive_datagram (logged_adapter ops) w = Inr w'"
  shows "glue f c0 w'"
proof -
  obtain es outs tcp where t: "traced f c0 w es outs tcp" using assms(1) unfolding glue_def by blast
  then have g: "get_tcp w = Inr tcp" "sound_conn tcp" "fd_fd (so_thread_data w) = f" unfolding traced_def get_tcp_def by auto
  obtain seg a k tcp' where o: "op_read (logged_adapter ops) (so_adapter w) (so_kernel w) = Inr (seg, a, k)"
    "(case seg of None \<Rightarrow> Inr tcp | Some seg \<Rightarrow> TCPConnection_segment_received tcp seg) = Inr tcp'"
    "w' = w\<lparr>so_kernel := k, so_adapter := a, so_tcp := Some tcp',
       so_fully_acked := so_fully_acked w \<or> fd_eof (so_thread_data w) \<and> TCPConnection_bytes_in_flight tcp' = 0\<rparr>"
    using assms(2) g(1) by (auto simp: receive_datagram_def and_then_Inr_iff)
  note l = logged_adapter_ops(1) [OF o(1)]
  show ?thesis
  proof (cases seg)
    case None
    with o l t have "traced f c0 w' es outs tcp" by (intro traced_same [OF t]) (simp_all add: traced_def)
    then show ?thesis unfolding glue_def by blast
  next
    case (Some s)
    with o(2) have r: "TCPConnection_segment_received tcp s = Inr tcp'" by simp
    have "traced f c0 w' (es @ [ArriveSegment s]) (outs @ [([], [])]) tcp'"
      by (rule traced_step [OF t]) (use r o(3) l Some g(3) returnsD [OF segment_keeps [OF g(2)] r] in \<open>simp_all add: same_log_def\<close>)
    then show ?thesis unfolding glue_def by blast
  qed
qed

lemma outbound_keeps_glue:
  assumes "glue f c0 w" "outbound_from_owner (logged K) w = Inr w'"
  shows "glue f c0 w'"
proof -
  obtain es outs tcp where t: "traced f c0 w es outs tcp" using assms(1) unfolding glue_def by blast
  then have g: "get_tcp w = Inr tcp" "sound_conn tcp" "fd_fd (so_thread_data w) = f" unfolding traced_def get_tcp_def by auto
  obtain room d td k tcp1 where o: "FileDescriptor_read (logged K) (so_thread_data w) room (so_kernel w) = Inr (d, td, k)"
    "TCPConnection_write tcp d = Inr (length d, tcp1)"
    "(if fd_eof td then and_then (end_input_stream tcp1) (\<lambda>tcp. Inr (w\<lparr>so_kernel := k, so_thread_data := td, so_tcp := Some tcp, so_outbound_shutdown := True\<rparr>))
      else Inr (w\<lparr>so_kernel := k, so_thread_data := td, so_tcp := Some tcp1\<rparr>)) = Inr w'"
    using assms(2) g(1) by (auto simp: outbound_from_owner_def and_then_Inr_iff Let_def split: if_splits)
  let ?w = "w\<lparr>so_kernel := k, so_thread_data := td, so_tcp := Some tcp1\<rparr>"
  note l = logged_read [OF o(1)]
  have s1: "sound_conn tcp1" using returnsD [OF write_out_keeps [OF g(2)] o(2)] by simp
  have 1: "traced f c0 ?w (es @ [WriteOut d]) (outs @ [([], [])]) tcp1"
    by (rule traced_step [OF t]) (use o(2) l g(3) s1 in simp_all)
  show ?thesis
  proof (cases "fd_eof td")
    case True
    with o(3) obtain tcp2 where e: "end_input_stream tcp1 = Inr tcp2"
      "w' = w\<lparr>so_kernel := k, so_thread_data := td, so_tcp := Some tcp2, so_outbound_shutdown := True\<rparr>" by (auto simp: and_then_Inr_iff)
    have "traced f c0 w' ((es @ [WriteOut d]) @ [EndOut]) ((outs @ [([], [])]) @ [([], [])]) tcp2"
      by (rule traced_step [OF 1]) (use e l(4) g(3) returnsD [OF end_out_keeps [OF s1] e(1)] in simp_all)
    then show ?thesis unfolding glue_def by blast
  qed (use o(3) 1 in \<open>auto simp: glue_def\<close>)
qed

lemma outbound_cancelled_keeps:
  assumes "glue f c0 w" "outbound_cancelled w = Inr w'"
  shows "glue f c0 w'"
proof -
  obtain es outs tcp where t: "traced f c0 w es outs tcp" using assms(1) unfolding glue_def by blast
  then have g: "get_tcp w = Inr tcp" "sound_conn tcp" "fd_fd (so_thread_data w) = f" unfolding traced_def get_tcp_def by auto
  obtain tcp' where e: "end_input_stream tcp = Inr tcp'" "w' = w\<lparr>so_tcp := Some tcp', so_outbound_shutdown := True\<rparr>"
    using assms(2) g(1) by (auto simp: outbound_cancelled_def and_then_Inr_iff)
  have "traced f c0 w' (es @ [EndOut]) (outs @ [([], [])]) tcp'"
    by (rule traced_step [OF t]) (use e g(3) returnsD [OF end_out_keeps [OF g(2)] e(1)] in simp_all)
  then show ?thesis unfolding glue_def by blast
qed

lemma inbound_keeps_glue:
  assumes "glue f c0 w" "inbound_to_owner (logged K) w = Inr w'"
  shows "glue f c0 w'"
proof -
  obtain es outs tcp where t: "traced f c0 w es outs tcp" using assms(1) unfolding glue_def by blast
  then have g: "get_tcp w = Inr tcp" "bs_inv (inbound_stream tcp)" "fd_fd (so_thread_data w) = f"
    unfolding traced_def get_tcp_def inbound_stream_def TCPReceiver_stream_out_def by auto
  let ?s = "inbound_stream tcp" and ?n = "min 65536 (length (bs_contents (inbound_stream tcp)))"
  obtain n td k s' where o: "FileDescriptor_write (logged K) (so_thread_data w) (BufferViewList_of_string (take ?n (bs_contents ?s))) False (so_kernel w) = Inr (n, td, k)"
    "ByteStream_pop_output ?s n = Inr s'"
    "(if bs_eof s' \<or> bs_error s' then and_then (Socket_shutdown (logged K) td SHUT_WR k) (\<lambda>(td, k).
        Inr (w\<lparr>so_tcp := Some (set_inbound tcp s'), so_kernel := k, so_thread_data := td, so_inbound_shutdown := True\<rparr>))
      else Inr (w\<lparr>so_tcp := Some (set_inbound tcp s'), so_kernel := k, so_thread_data := td\<rparr>)) = Inr w'"
    using assms(2) g(1,2) by (auto simp: inbound_to_owner_def and_then_Inr_iff Let_def)
  have "length (bv_str (BufferViewList_of_string (take ?n (bs_contents ?s)))) < two63" by simp
  note l = logged_write [OF o(1) this]
  have n: "n \<le> ?n" "n \<le> length (bs_contents ?s)" using l(3) by simp_all
  let ?w = "w\<lparr>so_tcp := Some (set_inbound tcp s'), so_kernel := k, so_thread_data := td\<rparr>"
  have "bs_inv s'" using pop_output_ok [OF g(2) n(2)] o(2) by auto
  then have "sound_conn (set_inbound tcp s')" by (simp add: set_inbound_def)
  then have 1: "traced f c0 ?w (es @ [DrainIn ?n n]) (outs @ [([], take n (take ?n (bs_contents ?s)))]) (set_inbound tcp s')"
    by (intro traced_step [OF t]) (use o(2) l g n in simp_all)
  show ?thesis
  proof (cases "bs_eof s' \<or> bs_error s'")
    case True
    with o(3) obtain td' k' where e: "Socket_shutdown (logged K) td SHUT_WR k = Inr (td', k')"
      "w' = w\<lparr>so_tcp := Some (set_inbound tcp s'), so_kernel := k', so_thread_data := td', so_inbound_shutdown := True\<rparr>" by (auto simp: and_then_Inr_iff)
    from traced_same [OF 1, of w'] e(2) logged_shutdown [OF e(1)] show ?thesis unfolding glue_def by auto
  qed (use o(3) 1 in \<open>auto simp: glue_def\<close>)
qed

lemma transmit_log:
  "transmit (logged_adapter ops) segs tcp w = Inr w' \<Longrightarrow> so_tcp w' = Some (if segs = [] then tcp else tcp\<lparr>cn_segments_out := []\<rparr>) \<and>
    so_thread_data w' = so_thread_data w \<and> same_log (so_kernel w) (so_kernel w') \<and> la_received (so_adapter w') = la_received (so_adapter w) \<and>
    la_sent (so_adapter w') = la_sent (so_adapter w) @ segs"
proof (induction segs arbitrary: tcp w)
  case (Cons seg segs)
  obtain a k where o: "op_write (logged_adapter ops) seg (so_adapter w) (so_kernel w) = Inr (a, k)"
    "transmit (logged_adapter ops) segs (tcp\<lparr>cn_segments_out := segs\<rparr>) (w\<lparr>so_kernel := k, so_adapter := a\<rparr>) = Inr w'"
    using Cons.prems by (auto simp: and_then_Inr_iff)
  from Cons.IH [OF o(2)] logged_adapter_ops(2) [OF o(1)] show ?case by (auto intro: same_log_trans)
qed auto

lemma send_keeps:
  assumes "glue f c0 w" "send_datagrams (logged_adapter ops) w = Inr w'"
  shows "glue f c0 w'"
proof -
  obtain es outs tcp where t: "traced f c0 w es outs tcp" using assms(1) unfolding glue_def by blast
  then have g: "get_tcp w = Inr tcp" "sound_conn tcp" "fd_fd (so_thread_data w) = f" unfolding traced_def get_tcp_def by auto
  have tr: "transmit (logged_adapter ops) (cn_segments_out tcp) tcp w = Inr w'" using assms(2) g(1) by (simp add: send_datagrams_def)
  note l = transmit_log [OF tr]
  have "(if cn_segments_out tcp = [] then tcp else tcp\<lparr>cn_segments_out := []\<rparr>) = tcp\<lparr>cn_segments_out := []\<rparr>" by (cases tcp) simp
  with l g have "traced f c0 w' (es @ [CollectOut]) (outs @ [(cn_segments_out tcp, [])]) (tcp\<lparr>cn_segments_out := []\<rparr>)"
    by (intro traced_step [OF t]) (simp_all add: same_log_def)
  then show ?thesis unfolding glue_def by blast
qed

lemma glue_kernel:
  assumes "glue f c0 w" "same_log (so_kernel w) k"
  shows "glue f c0 (w\<lparr>so_kernel := k\<rparr>)"
proof -
  obtain es outs tcp where t: "traced f c0 w es outs tcp" using assms(1) unfolding glue_def by blast
  from traced_same [OF t, of "w\<lparr>so_kernel := k\<rparr>"] assms(2) show ?thesis unfolding glue_def by auto
qed

lemma sponge_rule_cases:
  assumes "r \<in> set (sponge_rules ops K)"
  obtains "ru_callback r = receive_datagram ops" "ru_cancel r = Inr" | "ru_callback r = outbound_from_owner K" "ru_cancel r = outbound_cancelled"
  | "ru_callback r = inbound_to_owner K" "ru_cancel r = Inr" | "ru_callback r = send_datagrams ops" "ru_cancel r = Inr"
  using assms by (auto simp: sponge_rules_def add_rule_def)

interpretation sponge_loop: rule_invariant "logged K" so_kernel set_kernel "set (sponge_rules (logged_adapter ops) (logged K))" "glue f c0"
  for K :: "'k kernel" and ops :: "('a, 'k) adapter" and f c0
proof
  fix r and w w' :: "('a, 'k) logged_sponge" assume r: "r \<in> set (sponge_rules (logged_adapter ops) (logged K))" and g: "glue f c0 w"
  show "glue f c0 w'" if "ru_callback r w = Inr w'"
    using r by (cases rule: sponge_rule_cases)
      (use that receive_keeps [OF g] outbound_keeps_glue [OF g] inbound_keeps_glue [OF g] send_keeps [OF g] in simp_all)
  show "glue f c0 w'" if "ru_cancel r w = Inr w'"
    using r by (cases rule: sponge_rule_cases) (use that g outbound_cancelled_keeps [OF g] in simp_all)
next
  fix w :: "('a, 'k) logged_sponge" and ps t x k
  assume "glue f c0 w" "sys_poll (logged K) ps t (so_kernel w) = (x, k)"
  then show "glue f c0 (set_kernel k w)" unfolding set_kernel_def by (intro glue_kernel logged_calls(1))
qed

section \<open>The loops\<close>

lemma tick_glue:
  assumes "glue f c0 w" "so_tcp w = Some tcp" "TCPConnection_tick tcp ms = Inr tcp'" "same_log (so_kernel w) k"
    "op_tick (logged_adapter ops) ms (so_adapter w) k = Inr (a, k')"
  shows "glue f c0 (w\<lparr>so_kernel := k', so_adapter := a, so_tcp := Some tcp'\<rparr>)"
proof -
  obtain es outs where t: "traced f c0 w es outs tcp" using assms(1,2) unfolding glue_def traced_def by auto
  then have g: "sound_conn tcp" "fd_fd (so_thread_data w) = f" unfolding traced_def by auto
  note l = logged_adapter_ops(3) [OF assms(5)]
  have "traced f c0 (w\<lparr>so_kernel := k', so_adapter := a, so_tcp := Some tcp'\<rparr>) (es @ [TickConn ms]) (outs @ [([], [])]) tcp'"
    by (rule traced_step [OF t]) (use assms(3,4) l g(2) returnsD [OF tick_keeps [OF g(1)] assms(3)] in \<open>simp_all add: same_log_def\<close>)
  then show ?thesis unfolding glue_def by blast
qed

lemma tcp_loop_from_keeps:
  assumes "tcp_loop_from (logged_adapter ops) (logged K) condition aborts base_time rules w = Inr (left, rules', w')"
    and "set rules \<subseteq> set (sponge_rules (logged_adapter ops) (logged K))" "glue f c0 w"
  shows "glue f c0 w' \<and> set rules' \<subseteq> set (sponge_rules (logged_adapter ops) (logged K))"
  using assms
proof (induction aborts arbitrary: base_time rules w)
  case (Cons abort aborts)
  let ?loop = "tcp_loop_from (logged_adapter ops) (logged K) condition aborts"
  show ?case
  proof (cases "condition w = Inr True")
    case False
    with Cons.prems show ?thesis by (auto simp: and_then_Inr_iff split: if_splits)
  next
    case True
    with Cons.prems(1) obtain ret rules1 w1 where t: "wait_next_event (logged K) so_kernel set_kernel (int TCP_TICK_MS) rules w = Inr (ret, rules1, w1)"
      "(if ret = Exit \<or> abort then Inr (True, rules1, w1) else and_then (get_tcp w1) (\<lambda>tcp. if cn_active tcp then
         (let (next_time, k) = sys_clock (logged K) (so_kernel w1) in
          and_then (TCPConnection_tick tcp (sub64 next_time base_time)) (\<lambda>tcp.
          and_then (op_tick (logged_adapter ops) (sub64 next_time base_time) (so_adapter w1) k) (\<lambda>(adapter, k).
          ?loop next_time rules1 (w1\<lparr>so_kernel := k, so_adapter := adapter, so_tcp := Some tcp\<rparr>))))
         else ?loop base_time rules1 w1)) = Inr (left, rules', w')"
      by (auto simp: and_then_Inr_iff)
    note k = sponge_loop.turn_keeps [OF Cons.prems(2,3) t(1)]
    show ?thesis
    proof (cases "ret = Exit \<or> abort")
      case False
      then obtain tcp where tcp: "so_tcp w1 = Some tcp" using t(2) by (auto simp: and_then_Inr_iff get_tcp_def split: option.splits)
      obtain now s where c: "sys_clock (logged K) (so_kernel w1) = (now, s)" by (metis surj_pair)
      show ?thesis
      proof (cases "cn_active tcp")
        case True
        with False t(2) tcp c obtain tcp' a s' where u: "TCPConnection_tick tcp (sub64 now base_time) = Inr tcp'"
          "op_tick (logged_adapter ops) (sub64 now base_time) (so_adapter w1) s = Inr (a, s')"
          "?loop now rules1 (w1\<lparr>so_kernel := s', so_adapter := a, so_tcp := Some tcp'\<rparr>) = Inr (left, rules', w')"
          by (auto simp: and_then_Inr_iff get_tcp_def)
        from Cons.IH [OF u(3) k(2) tick_glue [OF k(1) tcp u(1) logged_calls(6) [OF c] u(2)]] show ?thesis .
      next
        case no: False
        with False t(2) tcp Cons.IH [OF _ k(2,1)] show ?thesis by (simp add: get_tcp_def)
      qed
    qed (use t(2) k in auto)
  qed
qed simp

lemma tcp_loop_keeps:
  assumes "tcp_loop (logged_adapter ops) (logged K) condition aborts rules w = Inr (left, rules', w')"
    and "set rules \<subseteq> set (sponge_rules (logged_adapter ops) (logged K))" "glue f c0 w"
  shows "glue f c0 w' \<and> set rules' \<subseteq> set (sponge_rules (logged_adapter ops) (logged K))"
proof -
  obtain now s where c: "sys_clock (logged K) (so_kernel w) = (now, s)" by (metis surj_pair)
  have "tcp_loop_from (logged_adapter ops) (logged K) condition aborts now rules (w\<lparr>so_kernel := s\<rparr>) = Inr (left, rules', w')"
    using assms(1) c by (simp add: tcp_loop_def)
  from tcp_loop_from_keeps [OF this assms(2) glue_kernel [OF assms(3) logged_calls(6) [OF c]]] show ?thesis .
qed

section \<open>Opening\<close>

definition fresh_adapter :: "'a \<Rightarrow> 'a logged_adapter_state" where
  "fresh_adapter a = \<lparr>la_adapter = a, la_received = [], la_sent = []\<rparr>"

definition unused :: "('a, 'k) logged_sponge \<Rightarrow> bool" where
  "unused w \<longleftrightarrow> so_tcp w = None \<and> la_received (so_adapter w) = [] \<and> la_sent (so_adapter w) = [] \<and>
     lg_consumed (so_kernel w) = (\<lambda>_. []) \<and> lg_accepted (so_kernel w) = (\<lambda>_. [])"

lemma logged_socket: "Socket_of (logged K) fd domain type s = Inr (fd', s') \<Longrightarrow> same_log s s'"
  unfolding Socket_of_Inr by (blast intro: same_log_trans logged_calls(8))

lemma new_unused:
  assumes "TCPSpongeSocket_new (logged K) pair (fresh_adapter a) (nothing_logged k) = Inr w"
  shows "unused w"
proof -
  obtain fd0 s0 fd1 s1 s2 where o: "LocalStreamSocket_of (logged K) (fst pair) (nothing_logged k) = Inr (fd0, s0)"
    "LocalStreamSocket_of (logged K) (snd pair) s0 = Inr (fd1, s1)" "set_blocking (logged K) fd1 False s1 = Inr s2"
    "so_kernel w = s2" "so_adapter w = fresh_adapter a" "so_tcp w = None"
    using assms by (auto simp: TCPSpongeSocket_new_def and_then_Inr_iff)
  have "same_log (nothing_logged k) s2"
    using o(1-3) unfolding LocalStreamSocket_of_def by (blast intro: same_log_trans logged_socket logged_blocking)
  then show ?thesis using o(4-6) by (simp add: unused_def same_log_def nothing_logged_def fresh_adapter_def)
qed

lemma set_config_log: "la_received (set_config (logged_adapter ops) c a) = la_received a" "la_sent (set_config (logged_adapter ops) c a) = la_sent a"
  by (simp_all add: set_config_def logged_adapter_ops)

lemma start_connect_glue:
  assumes "unused w" "cfg_ok cfg" "start_connect (logged_adapter ops) (logged K) cfg c_ad w = Inr (rules, w')"
  shows "\<exists>random tcp. TCPConnection_connect (TCPConnection_new random cfg) = Inr tcp \<and> glue (fd_fd (so_thread_data w')) tcp w' \<and>
    rules = sponge_rules (logged_adapter ops) (logged K)"
proof -
  obtain random s where r: "sys_random (logged K) (so_kernel w) = (random, s)" by (metis surj_pair)
  obtain tcp where o: "TCPConnection_connect (TCPConnection_new random cfg) = Inr tcp" "rules = sponge_rules (logged_adapter ops) (logged K)"
    "w' = w\<lparr>so_kernel := s, so_tcp := Some tcp, so_adapter := set_config (logged_adapter ops) c_ad (so_adapter w)\<rparr>"
    using assms(1,3) r by (auto simp: start_connect_def initialize_TCP_def unused_def get_tcp_def and_then_Inr_iff Let_def split: if_splits)
  have "traced (fd_fd (so_thread_data w')) tcp w' [] [] tcp"
    using assms(1) o(3) logged_calls(7) [OF r] returnsD [OF connect_keeps [OF TCPConnection_new_sound [OF assms(2)]] o(1)]
    by (simp add: traced_def unused_def same_log_def set_config_log)
  then show ?thesis using o(1,2) unfolding glue_def by blast
qed

lemma start_listen_glue:
  assumes "unused w" "cfg_ok cfg" "start_listen (logged_adapter ops) (logged K) cfg c_ad w = Inr (rules, w')"
  shows "\<exists>random. glue (fd_fd (so_thread_data w')) (TCPConnection_new random cfg) w' \<and> rules = sponge_rules (logged_adapter ops) (logged K)"
proof -
  obtain random s where r: "sys_random (logged K) (so_kernel w) = (random, s)" by (metis surj_pair)
  obtain b where o: "rules = sponge_rules (logged_adapter ops) (logged K)"
    "w' = w\<lparr>so_kernel := s, so_tcp := Some (TCPConnection_new random cfg),
       so_adapter := op_set_base (logged_adapter ops) b (set_config (logged_adapter ops) c_ad (so_adapter w))\<rparr>"
    using assms(1,3) r by (auto simp: start_listen_def initialize_TCP_def unused_def Let_def)
  have "traced (fd_fd (so_thread_data w')) (TCPConnection_new random cfg) w' [] [] (TCPConnection_new random cfg)"
    using assms(1) o(2) logged_calls(7) [OF r] TCPConnection_new_sound [OF assms(2)]
    by (simp add: traced_def unused_def same_log_def set_config_log logged_adapter_ops)
  then show ?thesis using o(1) unfolding glue_def by blast
qed

section \<open>What the socket guarantees by itself\<close>

text \<open>What is left to ask of a history: that the segments that arrive are those of a peer.\<close>

fun peer_ok :: "bytes \<Rightarrow> WrappingInt32 \<Rightarrow> TCPConnection \<Rightarrow> conn_event \<Rightarrow> bool" where
  "peer_ok P isn c (ArriveSegment seg) \<longleftrightarrow> (cn_active c \<longrightarrow> seg_admissible P isn c seg)"
| "peer_ok P isn c _ \<longleftrightarrow> True"

lemma step_outbound:
  assumes "conn_step c e = Inr (out, c')" "socket_event c e"
  shows "if written_by e = [] \<and> (\<forall>d. e \<noteq> WriteOut d) then fixed_outbound c c' else
    cn_active c \<and> \<not> bs_input_ended (outbound_stream c) \<and> bs_bytes_written (outbound_stream c') = add64 (bs_bytes_written (outbound_stream c)) (length (written_by e))"
proof (cases e)
  case (ArriveSegment seg)
  with assms(1) returnsD [OF segment_fixes] show ?thesis by (auto simp: and_then_Inr_iff)
next
  case (WriteOut d)
  with assms write_out_fixes show ?thesis by (fastforce simp: and_then_Inr_iff)
next
  case EndOut
  with assms(1) returnsD [OF end_out_fixes] show ?thesis by (auto simp: and_then_Inr_iff)
next
  case (TickConn ms)
  with assms(1) returnsD [OF tick_fixes] show ?thesis by (auto simp: and_then_Inr_iff)
qed (use assms in \<open>auto simp: and_then_Inr_iff outbound_stream_def set_inbound_def\<close>)

lemma ended_writes_nothing:
  assumes "run conn_step c es = Inr (outs, c')" "admissible_run conn_step socket_event c es" "bs_input_ended (outbound_stream c)"
  shows "concat (map written_by es) = []"
  using assms
proof (induction es arbitrary: c outs)
  case (Cons e es)
  obtain o1 c1 rest where s: "conn_step c e = Inr (o1, c1)" "run conn_step c1 es = Inr (rest, c')" using Cons.prems(1) by (auto simp: and_then_Inr_iff)
  have a: "socket_event c e" "admissible_run conn_step socket_event c1 es" using Cons.prems(2) s(1) by auto
  from step_outbound [OF s(1) a(1)] Cons.prems(3) have "written_by e = []" "bs_input_ended (outbound_stream c1)"
    by (auto simp: fixed_input_def split: if_splits)
  with Cons.IH [OF s(2) a(2)] show ?case by simp
qed simp

lemma conn_inv_written: "conn_inv S P isn c \<Longrightarrow> bs_bytes_written (outbound_stream c) \<le> length S \<and> length S < two63"
  using conn_inv_base [of S P isn c] unfolding conn_base_def sn_inv_def flight_def written_def output_is_def outbound_stream_def by auto

lemma socket_step_admissible:
  assumes inv: "conn_inv S P isn c" and s: "conn_step c e = Inr (out, c1)" and r: "run conn_step c1 es = Inr (rest, c')"
    and e: "socket_event c e" "peer_ok P isn c e" "admissible_run conn_step socket_event c1 es"
    and S: "drop (bs_bytes_written (outbound_stream c)) S = written_by e @ concat (map written_by es)"
  shows "conn_admissible S P isn c e"
proof (cases e)
  case (WriteOut d)
  have "d = take (length d) (drop (bs_bytes_written (outbound_stream c)) S)" using S WriteOut by simp
  with step_outbound [OF s e(1)] WriteOut show ?thesis by (simp add: outbound_stream_def)
next
  case EndOut
  with s have "end_input_stream c = Inr c1" by (auto simp: and_then_Inr_iff)
  moreover from returnsD [OF end_out_fixes this] ended_writes_nothing [OF r e(3)] S EndOut have "drop (bs_bytes_written (outbound_stream c)) S = []" by simp
  ultimately show ?thesis using EndOut conn_inv_written [OF inv] by (auto simp: end_input_stream_def outbound_stream_def)
next
  case (DrainIn len taken)
  have "rc_inv P isn (cn_receiver c)" using conn_inv_base [OF inv] unfolding conn_base_def by blast
  then have "bs_inv (inbound_stream c)" using rc_inv_output(1) unfolding output_is_def inbound_stream_def by blast
  with s DrainIn e(1) show ?thesis by (auto simp: and_then_Inr_iff ByteStream_peek_output_def inbound_stream_def)
qed (use e in auto)

lemma socket_run_admissible:
  assumes "conn_inv S P isn c" "run conn_step c es = Inr (outs, c')" "admissible_run conn_step socket_event c es"
    "admissible_run conn_step (peer_ok P isn) c es" "drop (bs_bytes_written (outbound_stream c)) S = concat (map written_by es)"
  shows "admissible_run conn_step (conn_admissible S P isn) c es"
  using assms
proof (induction es arbitrary: c outs)
  case (Cons e es)
  obtain o1 c1 rest where s: "conn_step c e = Inr (o1, c1)" "run conn_step c1 es = Inr (rest, c')" using Cons.prems(2) by (auto simp: and_then_Inr_iff)
  have a: "socket_event c e" "admissible_run conn_step socket_event c1 es" "peer_ok P isn c e" "admissible_run conn_step (peer_ok P isn) c1 es"
    using Cons.prems(3,4) s(1) by auto
  have ok: "conn_admissible S P isn c e"
    using socket_step_admissible [OF Cons.prems(1) s a(1,3,2)] Cons.prems(5) by simp
  have inv: "conn_inv S P isn c1" using endpoint_machine.step_safe [OF Cons.prems(1) ok] s(1) by auto
  have "drop (bs_bytes_written (outbound_stream c1)) S = concat (map written_by es)"
  proof (cases "written_by e = [] \<and> (\<forall>d. e \<noteq> WriteOut d)")
    case True
    with step_outbound [OF s(1) a(1)] Cons.prems(5) show ?thesis by (simp add: fixed_input_def)
  next
    case False
    have "length (drop (bs_bytes_written (outbound_stream c)) S) = length (written_by e) + length (concat (map written_by es))"
      using Cons.prems(5) by simp
    then have "bs_bytes_written (outbound_stream c) + length (written_by e) < two64"
      using conn_inv_written [OF Cons.prems(1)] unfolding length_drop by linarith
    with False step_outbound [OF s(1) a(1)] have "bs_bytes_written (outbound_stream c1) = bs_bytes_written (outbound_stream c) + length (written_by e)" by auto
    with arg_cong [OF Cons.prems(5), of "drop (length (written_by e))"] show ?thesis by (simp add: add.commute)
  qed
  from Cons.IH [OF inv s(2) a(2,4) this] ok s(1) show ?case by simp
qed simp

section \<open>Properties\<close>

text \<open>A socket that was opened in one of the two ways, and what its thread made of it: \<open>aborts\<close> and \<open>aborts'\<close> are the values of the flag
  \<open>_abort\<close>, one per turn.\<close>

definition socket_runs :: "('a, 'k) adapter \<Rightarrow> 'k kernel \<Rightarrow> TCPConfig \<Rightarrow> FdAdapterConfig \<Rightarrow> bool \<Rightarrow> bool list \<Rightarrow> bool list \<Rightarrow>
    ('a, 'k) logged_sponge \<Rightarrow> ('a, 'k) logged_sponge \<Rightarrow> bool" where
  "socket_runs ops K cfg c_ad connecting aborts aborts' w0 w \<longleftrightarrow> (\<exists>left rules w1 left' rules'.
     (if connecting then TCPSpongeSocket_connect else listen_and_accept) (logged_adapter ops) (logged K) cfg c_ad aborts w0 = Inr (left, rules, w1) \<and>
     tcp_loop (logged_adapter ops) (logged K) (\<lambda>_. Inr True) aborts' rules w1 = Inr (left', rules', w))"

lemma socket_runs_traced:
  assumes "cfg_ok cfg" "unused w0" "socket_runs ops K cfg c_ad connecting aborts aborts' w0 w"
  shows "\<exists>random c0 es outs tcp. run conn_step (TCPConnection_new random cfg) (if connecting then [ConnectOut] else []) =
      Inr (if connecting then [([], [])] else [], c0) \<and> traced (fd_fd (so_thread_data w)) c0 w es outs tcp"
proof -
  obtain left rules w1 left' rules' where r:
    "(if connecting then TCPSpongeSocket_connect else listen_and_accept) (logged_adapter ops) (logged K) cfg c_ad aborts w0 = Inr (left, rules, w1)"
    "tcp_loop (logged_adapter ops) (logged K) (\<lambda>_. Inr True) aborts' rules w1 = Inr (left', rules', w)"
    using assms(3) unfolding socket_runs_def by blast
  have "\<exists>random c0 rules0 w'' condition. run conn_step (TCPConnection_new random cfg) (if connecting then [ConnectOut] else []) =
        Inr (if connecting then [([], [])] else [], c0) \<and> glue (fd_fd (so_thread_data w'')) c0 w'' \<and>
      rules0 = sponge_rules (logged_adapter ops) (logged K) \<and>
      tcp_loop (logged_adapter ops) (logged K) condition aborts rules0 w'' = Inr (left, rules, w1)"
  proof (cases connecting)
    case True
    with r(1) obtain rules0 w'' where o: "start_connect (logged_adapter ops) (logged K) cfg c_ad w0 = Inr (rules0, w'')"
      "tcp_loop (logged_adapter ops) (logged K) (in_state [SYN_SENT]) aborts rules0 w'' = Inr (left, rules, w1)"
      by (auto simp: TCPSpongeSocket_connect_def and_then_Inr_iff)
    from start_connect_glue [OF assms(2,1) o(1)] obtain random tcp where "TCPConnection_connect (TCPConnection_new random cfg) = Inr tcp"
      "glue (fd_fd (so_thread_data w'')) tcp w''" "rules0 = sponge_rules (logged_adapter ops) (logged K)" by blast
    with o(2) True show ?thesis
      by (intro exI [of _ random] exI [of _ tcp] exI [of _ rules0] exI [of _ w''] exI [of _ "in_state [SYN_SENT]"]) simp
  next
    case False
    with r(1) obtain rules0 w'' where o: "start_listen (logged_adapter ops) (logged K) cfg c_ad w0 = Inr (rules0, w'')"
      "tcp_loop (logged_adapter ops) (logged K) (in_state [LISTEN, SYN_RCVD, SYN_SENT]) aborts rules0 w'' = Inr (left, rules, w1)"
      by (auto simp: listen_and_accept_def and_then_Inr_iff)
    from start_listen_glue [OF assms(2,1) o(1)] obtain random where "glue (fd_fd (so_thread_data w'')) (TCPConnection_new random cfg) w''"
      "rules0 = sponge_rules (logged_adapter ops) (logged K)" by blast
    with o(2) False show ?thesis
      by (intro exI [of _ random] exI [of _ "TCPConnection_new random cfg"] exI [of _ rules0] exI [of _ w''] exI [of _ "in_state [LISTEN, SYN_RCVD, SYN_SENT]"]) simp
  qed
  then obtain random c0 w'' condition where o: "run conn_step (TCPConnection_new random cfg) (if connecting then [ConnectOut] else []) =
        Inr (if connecting then [([], [])] else [], c0)" "glue (fd_fd (so_thread_data w'')) c0 w''"
    "tcp_loop (logged_adapter ops) (logged K) condition aborts (sponge_rules (logged_adapter ops) (logged K)) w'' = Inr (left, rules, w1)" by blast
  from tcp_loop_keeps [OF o(3) subset_refl o(2)] have "glue (fd_fd (so_thread_data w'')) c0 w1" "set rules \<subseteq> set (sponge_rules (logged_adapter ops) (logged K))" by blast+
  from tcp_loop_keeps [OF r(2) this(2,1)] obtain es outs tcp where t: "traced (fd_fd (so_thread_data w'')) c0 w es outs tcp" unfolding glue_def by blast
  then have e: "fd_fd (so_thread_data w'') = fd_fd (so_thread_data w)" unfolding traced_def by simp
  from t [unfolded e] o(1) show ?thesis by blast
qed

lemma run_append:
  "run step s xs = Inr (os, s') \<Longrightarrow> run step s' ys = Inr (os', s'') \<Longrightarrow> run step s (xs @ ys) = Inr (os @ os', s'')"
proof (induction xs arbitrary: s os)
  case (Cons x xs)
  from Cons.prems(1) obtain o1 s1 rest where r: "step s x = Inr (o1, s1)" "run step s1 xs = Inr (rest, s')" "os = o1 # rest" by (auto simp: and_then_Inr_iff)
  from Cons.IH [OF r(2) Cons.prems(2)] r show ?case by simp
qed simp

text \<open>C9. A socket is its connection: whatever the kernel, the adapter, the peer and the owner do, and after any number of turns of the
  loops, the connection is in the state it reaches by a history of its operations in which the arriving segments are those the
  adapter handed over, the bytes written are all those taken from the owner, the segments collected are all those given to the adapter, and
  the bytes taken out are all those given to the owner, each in its order.\<close>

theorem socket_follows_connection:
  assumes "cfg_ok cfg" "TCPSpongeSocket_new (logged K) pair (fresh_adapter a) (nothing_logged k) = Inr w0"
    and "socket_runs ops K cfg c_ad connecting aborts aborts' w0 w"
  shows "\<exists>random es outs tcp. so_tcp w = Some tcp \<and>
    run conn_step (TCPConnection_new random cfg) ((if connecting then [ConnectOut] else []) @ es) = Inr (outs, tcp) \<and>
    la_received (so_adapter w) = concat (map arrived es) \<and> lg_consumed (so_kernel w) (fd_fd (so_thread_data w)) = concat (map written_by es) \<and>
    la_sent (so_adapter w) = concat (map fst outs) \<and> lg_accepted (so_kernel w) (fd_fd (so_thread_data w)) = concat (map snd outs)"
proof -
  obtain random c0 es outs tcp where r: "run conn_step (TCPConnection_new random cfg) (if connecting then [ConnectOut] else []) =
      Inr (if connecting then [([], [])] else [], c0)" "traced (fd_fd (so_thread_data w)) c0 w es outs tcp"
    using socket_runs_traced [OF assms(1) new_unused [OF assms(2)] assms(3)] by blast
  have "run conn_step c0 es = Inr (outs, tcp)" using r(2) unfolding traced_def by blast
  from run_append [OF r(1) this] r(2) show ?thesis unfolding traced_def
    by (intro exI [of _ random] exI [of _ es] exI [of _ "(if connecting then [([], [])] else []) @ outs"] exI [of _ tcp]) auto
qed

lemma start_inv:
  assumes "cfg_ok cfg" "length S + 2 < two63" "length P + 2 < two63"
    "run conn_step (TCPConnection_new random cfg) (if connecting then [ConnectOut] else []) = Inr (os, c0)"
  shows "conn_inv S P isn c0" "bs_bytes_written (outbound_stream c0) = 0" "sn_isn (cn_sender c0) = sn_isn (cn_sender (TCPConnection_new random cfg))"
    "rc_read (cn_receiver c0) = 0"
proof -
  let ?n = "TCPConnection_new random cfg"
  have i: "conn_inv S P isn ?n" by (rule TCPConnection_new_inv [OF assms(1-3)])
  have z: "bs_bytes_written (outbound_stream ?n) = 0" "rc_read (cn_receiver ?n) = 0"
    by (simp_all add: TCPConnection_new_def outbound_stream_def TCPSender_new_def ByteStream_new_def)
  have "conn_inv S P isn c0 \<and> bs_bytes_written (outbound_stream c0) = 0 \<and> sn_isn (cn_sender c0) = sn_isn (cn_sender ?n) \<and> rc_read (cn_receiver c0) = 0"
  proof (cases connecting)
    case True
    with assms(4) have c: "TCPConnection_connect ?n = Inr c0" by (auto simp: and_then_Inr_iff)
    have "cn_active ?n" "\<not> cn_sent_syn ?n" "cn_segments_out ?n = []" by (simp_all add: TCPConnection_new_def)
    from connect_event [OF i this] c returnsD [OF connect_fixes c] z show ?thesis by (simp add: fixed_input_def keeps_def)
  next
    case False
    with assms(4) i z show ?thesis by simp
  qed
  then show "conn_inv S P isn c0" "bs_bytes_written (outbound_stream c0) = 0" "sn_isn (cn_sender c0) = sn_isn (cn_sender ?n)" "rc_read (cn_receiver c0) = 0"
    by blast+
qed


section \<open>A socket that listens\<close>

text \<open>A run for the witnesses: a socket over UDP listens, nothing arrives in its first turn, and its owner gives up.\<close>

definition sample_pair :: "FDWrapper \<times> FDWrapper" where
  "sample_pair = (sample_fd\<lparr>fd_fd := 4\<rparr>, sample_fd\<lparr>fd_fd := 5\<rparr>)"

definition sample_adapter :: TCPOverUDPSocketAdapter where
  "sample_adapter = \<lparr>ud_base = FdAdapterBase_default, ud_sock = sample_fd\<rparr>"

lemma new_state: "TCPConnection_state (TCPConnection_new random cfg) = TCPState_of_state LISTEN"
  by (simp add: TCPConnection_state_def TCPConnection_new_def TCPState_of_def sender_summary_def receiver_summary_def TCPReceiver_new_def
      TCPSender_new_def TCPReceiver_stream_out_def StreamReassembler_new_def ByteStream_new_def TCPReceiver_ackno_def)

lemma new_streams:
  assumes "cfg_ok cfg"
  shows "remaining_outbound_capacity (TCPConnection_new random cfg) = Inr (tc_send_capacity cfg)"
    "ByteStream_buffer_empty (inbound_stream (TCPConnection_new random cfg)) = Inr True"
    "\<not> bs_eof (inbound_stream (TCPConnection_new random cfg))" "\<not> bs_error (inbound_stream (TCPConnection_new random cfg))"
proof -
  have n: "bs_inv (ByteStream_new (tc_send_capacity cfg))" "bs_inv (ByteStream_new (tc_recv_capacity cfg))"
    "bs_abs (ByteStream_new (tc_send_capacity cfg)) = \<lparr>as_capacity = tc_send_capacity cfg, as_contents = [], as_written = 0, as_read = 0, as_ended = False, as_error = False\<rparr>"
    "bs_abs (ByteStream_new (tc_recv_capacity cfg)) = \<lparr>as_capacity = tc_recv_capacity cfg, as_contents = [], as_written = 0, as_read = 0, as_ended = False, as_error = False\<rparr>"
    using assms ByteStream_new_ok unfolding cfg_ok_def by auto
  show "remaining_outbound_capacity (TCPConnection_new random cfg) = Inr (tc_send_capacity cfg)"
    using n(1,3) by (simp add: remaining_outbound_capacity_def TCPConnection_new_def TCPSender_new_def bs_abs_def)
  show "ByteStream_buffer_empty (inbound_stream (TCPConnection_new random cfg)) = Inr True"
    using n(2,4) by (simp add: inbound_stream_def TCPConnection_new_def TCPReceiver_new_def StreamReassembler_new_def TCPReceiver_stream_out_def bs_abs_def)
  show "\<not> bs_eof (inbound_stream (TCPConnection_new random cfg))" "\<not> bs_error (inbound_stream (TCPConnection_new random cfg))"
    by (simp_all add: inbound_stream_def TCPConnection_new_def TCPReceiver_new_def StreamReassembler_new_def TCPReceiver_stream_out_def ByteStream_new_def)
qed

lemma sample_new:
  "TCPSpongeSocket_new (logged one_byte_kernel) sample_pair (fresh_adapter sample_adapter) (nothing_logged []) =
     Inr \<lparr>so_kernel = nothing_logged [], so_owner = fst sample_pair, so_thread_data = snd sample_pair, so_adapter = fresh_adapter sample_adapter,
       so_tcp = None, so_inbound_shutdown = False, so_outbound_shutdown = False, so_fully_acked = False\<rparr>"
  by (simp add: TCPSpongeSocket_new_def LocalStreamSocket_of_def Socket_of_def set_blocking_def logged_def through_def one_byte_kernel_def
      AF_UNIX_def SOCK_STREAM_def O_NONBLOCK_def nothing_logged_def)

lemma sample_run:
  "\<exists>w0 w. TCPSpongeSocket_new (logged one_byte_kernel) sample_pair (fresh_adapter sample_adapter) (nothing_logged []) = Inr w0 \<and>
     socket_runs (udp_adapter one_byte_kernel) one_byte_kernel TCPConfig_default FdAdapterConfig_default False [True] [] w0 w \<and>
     lg_consumed (so_kernel w) (fd_fd (so_thread_data w)) = []"
proof -
  define w0 where "w0 = \<lparr>so_kernel = nothing_logged ([] :: bytes), so_owner = fst sample_pair, so_thread_data = snd sample_pair,
    so_adapter = fresh_adapter sample_adapter, so_tcp = None, so_inbound_shutdown = False, so_outbound_shutdown = False, so_fully_acked = False\<rparr>"
  let ?ops = "logged_adapter (udp_adapter one_byte_kernel)" and ?K = "logged one_byte_kernel" and ?c = "TCPConnection_new 0 TCPConfig_default"
  define w1 where "w1 = w0\<lparr>so_tcp := Some ?c, so_adapter := op_set_base ?ops
    (FdAdapterBase_set_listening (op_base ?ops (set_config ?ops FdAdapterConfig_default (so_adapter w0))) True)
    (set_config ?ops FdAdapterConfig_default (so_adapter w0))\<rparr>"
  have calls: "sys_random ?K (nothing_logged []) = (0, nothing_logged [])" "sys_clock ?K (nothing_logged []) = (0, nothing_logged [])"
    "sys_poll ?K ps t (nothing_logged []) = ((0, 0, []), nothing_logged [])" for ps t
    by (simp_all add: logged_def through_def one_byte_kernel_def nothing_logged_def)
  have k: "so_kernel w1 = nothing_logged []" "so_tcp w1 = Some ?c" "so_thread_data w1 = snd sample_pair" by (simp_all add: w1_def w0_def)
  have same: "w1\<lparr>so_kernel := nothing_logged []\<rparr> = w1" using k(1) by (cases w1) simp
  have fd: "op_fd ?ops (so_adapter w1) = sample_fd"
    by (simp add: w1_def w0_def logged_adapter_def udp_adapter_def set_config_def fresh_adapter_def sample_adapter_def)
  have start: "start_listen ?ops ?K TCPConfig_default FdAdapterConfig_default w0 = Inr (sponge_rules ?ops ?K, w1)"
    by (simp add: start_listen_def initialize_TCP_def calls w0_def w1_def Let_def)
  have cond: "in_state [LISTEN, SYN_RCVD, SYN_SENT] w1 = Inr True"
    by (simp add: in_state_def get_tcp_def k new_state TCPState_equal_eq)
  have turn: "wait_next_event ?K so_kernel set_kernel (int TCP_TICK_MS) (sponge_rules ?ops ?K) w1 = Inr (Timeout, sponge_rules ?ops ?K, w1)"
  proof -
    have "0 < tc_send_capacity TCPConfig_default" using TCPConfig_default_ok by (simp add: cfg_ok_def)
    moreover have "cn_active ?c" "cn_segments_out ?c = []" "\<not> so_outbound_shutdown w1" by (simp_all add: TCPConnection_new_def w1_def w0_def)
    ultimately show ?thesis using k(1)
      by (simp add: wait_next_event_def sponge_rules_def add_rule_def fd k(2,3) get_tcp_def tcp_active_def outbound_wanted_def inbound_wanted_def
          segments_waiting_def new_streams [OF TCPConfig_default_ok] sample_fd_def sample_pair_def calls(3) Let_def set_kernel_def same)
  qed
  have "tcp_loop ?ops ?K (in_state [LISTEN, SYN_RCVD, SYN_SENT]) [True] (sponge_rules ?ops ?K) w1 = Inr (True, sponge_rules ?ops ?K, w1)"
    "tcp_loop ?ops ?K (\<lambda>_. Inr True) [] (sponge_rules ?ops ?K) w1 = Inr (False, sponge_rules ?ops ?K, w1)"
    unfolding tcp_loop_def k(1) calls(2) prod.case Let_def same using cond turn by simp_all
  then have "socket_runs (udp_adapter one_byte_kernel) one_byte_kernel TCPConfig_default FdAdapterConfig_default False [True] [] w0 w1"
    using start unfolding socket_runs_def listen_and_accept_def
    by (intro exI [of _ True] exI [of _ "sponge_rules ?ops ?K"] exI [of _ w1] exI [of _ False]) simp
  moreover have "lg_consumed (so_kernel w1) (fd_fd (so_thread_data w1)) = []" by (simp add: k nothing_logged_def)
  ultimately show ?thesis using sample_new unfolding w0_def by blast
qed

theorem socket_follows_connection_witness:
  "\<exists>w0 w es. TCPSpongeSocket_new (logged one_byte_kernel) sample_pair (fresh_adapter sample_adapter) (nothing_logged []) = Inr w0 \<and>
     socket_runs (udp_adapter one_byte_kernel) one_byte_kernel TCPConfig_default FdAdapterConfig_default False [True] [] w0 w \<and>
     la_received (so_adapter w) = concat (map arrived es)"
proof -
  obtain w0 w where r: "TCPSpongeSocket_new (logged one_byte_kernel) sample_pair (fresh_adapter sample_adapter) (nothing_logged []) = Inr w0"
    "socket_runs (udp_adapter one_byte_kernel) one_byte_kernel TCPConfig_default FdAdapterConfig_default False [True] [] w0 w" using sample_run by blast
  from socket_follows_connection [OF TCPConfig_default_ok r] r show ?thesis by blast
qed


end
