(* ===== verification/Socket_Limits.thy ===== *)
theory Socket_Limits
  imports Socket_Glue
begin

text \<open>
  Where \<open>TCPSpongeSocket\<close> faults and where it does not: \<open>connect\<close> always gets as far as waiting for the peer, a reset that arrives
  together with bytes of the owner aborts the program, and the reset that a destroyed socket announces is never sent.
\<close>

section \<open>Connecting\<close>

lemma fill_window_new:
  "\<exists>s seg. fill_window (TCPSender_new random n rto fixed) = Inr s \<and> sn_segments_out s = [seg] \<and> sn_next_seqno s = 1 \<and>
    TCPSender_bytes_in_flight s = 1 \<and> \<not> bs_error (sn_stream s)"
  by (simp add: fill_window_def TCPSender_new_def TCPSender_connect_def send_def Let_def assert_that_def begin_timing_def
      push_outstanding_seg_def TCPSegment_length_in_sequence_space_def TCPSegment_default_def TCPHeader_default_def
      TCPSender_bytes_in_flight_def ByteStream_new_def)

lemma connect_new:
  assumes "cfg_ok cfg"
  shows "\<exists>tcp. TCPConnection_connect (TCPConnection_new random cfg) = Inr tcp \<and> TCPConnection_state tcp = TCPState_of_state SYN_SENT"
proof -
  let ?c = "TCPConnection_new random cfg"
  have n: "cn_active ?c" "sn_segments_out (cn_sender ?c) = []" "cn_segments_out ?c = []" "cn_linger_after_streams_finish ?c"
    "cn_receiver ?c = TCPReceiver_new (tc_recv_capacity cfg)"
    by (simp_all add: TCPConnection_new_def TCPSender_new_def)
  have rc: "rc_inv [] isn (cn_receiver ?c)" for isn using assms TCPReceiver_new_inv n(5) by (simp add: cfg_ok_def)
  have sum: "receiver_summary (cn_receiver ?c) = Receiver_LISTEN"
    by (simp add: n(5) receiver_summary_def TCPReceiver_stream_out_def TCPReceiver_ackno_def TCPReceiver_new_def
        StreamReassembler_new_def ByteStream_new_def)
  obtain s seg where s: "fill_window (cn_sender ?c) = Inr s" "sn_segments_out s = [seg]" "sn_next_seqno s = 1"
    "TCPSender_bytes_in_flight s = 1" "\<not> bs_error (sn_stream s)"
    using fill_window_new [of random "tc_send_capacity cfg" "tc_rt_timeout cfg" "tc_fixed_isn cfg"] by (auto simp: TCPConnection_new_def)
  let ?d = "?c\<lparr>cn_sender := s\<lparr>sn_segments_out := []\<rparr>\<rparr>"
  have w: "set_win ?d h = Inr (h\<lparr>th_win := conn_window ?d\<rparr>)" for h using rc by (intro set_win_ok [of "[]" undefined]) simp
  have "sender_summary (s\<lparr>sn_segments_out := []\<rparr>) = Sender_SYN_SENT"
    using s(3-5) by (simp add: sender_summary_def TCPSender_bytes_in_flight_def)
  then show ?thesis
    using n(1-4) s(1,2) w sum by (simp add: TCPConnection_connect_def assert_that_def Let_def TCPConnection_state_def TCPState_of_def)
qed

text \<open>So the exception for an unexpected state after \<open>connect\<close> is never thrown.\<close>

theorem start_connect_returns:
  assumes "cfg_ok cfg" "so_tcp w = None"
  shows "yields (start_connect ops K cfg c_ad w) (\<lambda>(rules, w'). rules = sponge_rules ops K \<and> in_state [SYN_SENT] w' = Inr True)"
proof -
  obtain random k where r: "sys_random K (so_kernel w) = (random, k)" by (metis surj_pair)
  obtain tcp where "TCPConnection_connect (TCPConnection_new random cfg) = Inr tcp" "TCPConnection_state tcp = TCPState_of_state SYN_SENT"
    using connect_new [OF assms(1)] by blast
  with assms(2) r show ?thesis
    by (simp add: start_connect_def initialize_TCP_def get_tcp_def in_state_def TCPState_equal_eq yields_def Let_def)
qed

section \<open>A reset and a write in one turn\<close>

text \<open>C40. The interest of rule 2 was asked before the turn; when the segment that rule 1 reads resets the connection, the bytes that
  rule 2 then reads are written to a connection that is no longer active, whose assertion fails.\<close>

theorem reset_then_write_aborts:
  assumes "so_tcp w = Some tcp" "cn_active tcp" "TCPReceiver_ackno (cn_receiver tcp) \<noteq> None" "remaining_outbound_capacity tcp = Inr room"
    and "op_read ops (so_adapter w) (so_kernel w) = Inr (Some seg, a, k)" "th_rst (sg_header seg)"
    and "FileDescriptor_read K (so_thread_data w) room k = Inr (d, fd, k')"
    and "poll_ready p1 re1" "\<not> poll_error re1" "poll_ready p2 re2" "\<not> poll_error re2"
  shows "poll_results (sponge_rules ops K) ((p1, re1) # (p2, re2) # ps) w = Inl AssertionFailed"
proof -
  let ?c = "end_uncleanly (tcp\<lparr>cn_time_since_last_segment_received := 0\<rparr>)"
  obtain ackno where "TCPReceiver_ackno (cn_receiver tcp) = Some ackno" using assms(3) by blast
  then have c: "TCPConnection_segment_received tcp seg = Inr ?c" "\<not> cn_active ?c" "remaining_outbound_capacity ?c = Inr room"
    using assms(2,4,6) by (simp_all add: TCPConnection_segment_received_def end_uncleanly_def Let_def remaining_outbound_capacity_def
        set_inbound_def set_outbound_def outbound_stream_def ByteStream_set_error_def ByteStream_remaining_capacity_def)
  obtain acked where r: "receive_datagram ops w = Inr (w\<lparr>so_kernel := k, so_adapter := a, so_tcp := Some ?c, so_fully_acked := acked\<rparr>)"
    using assms(1,5) c(1) by (simp add: receive_datagram_def get_tcp_def)
  let ?w = "w\<lparr>so_kernel := k, so_adapter := a, so_tcp := Some ?c, so_fully_acked := acked\<rparr>"
  have i: "tcp_active ?w = Inr False" using c(2) by (simp add: tcp_active_def get_tcp_def)
  have b: "outbound_from_owner K ?w = Inl AssertionFailed"
    using assms(7) c(2,3) by (simp add: outbound_from_owner_def get_tcp_def TCPConnection_write_def assert_that_def)
  show ?thesis unfolding sponge_rules_def add_rule_def Let_def using assms(8-11) r i b by simp
qed

definition reset_segment :: TCPSegment where
  "reset_segment = TCPSegment_default\<lparr>sg_header := TCPHeader_default\<lparr>th_rst := True\<rparr>\<rparr>"

definition talking_kernel :: "bytes kernel" where
  "talking_kernel = one_byte_kernel\<lparr>sys_read := \<lambda>f n k. ((1, 0, [65]), k)\<rparr>"

definition resetting_adapter :: "(TCPOverUDPSocketAdapter, bytes) adapter" where
  "resetting_adapter = (udp_adapter talking_kernel)\<lparr>op_read := \<lambda>a k. Inr (Some reset_segment, a, k)\<rparr>"

definition synchronized_socket :: "(TCPOverUDPSocketAdapter, bytes) sponge" where
  "synchronized_socket =
     \<lparr>so_kernel = [], so_owner = fst sample_pair, so_thread_data = snd sample_pair, so_adapter = sample_adapter,
      so_tcp = Some (TCPConnection_new 0 TCPConfig_default\<lparr>cn_receiver := TCPReceiver_new 10\<lparr>rc_received_syn := True\<rparr>\<rparr>),
      so_inbound_shutdown = False, so_outbound_shutdown = False, so_fully_acked = False\<rparr>"

definition readable :: revents where
  "readable = \<lparr>re_in = True, re_out = False, re_err = False, re_nval = False, re_hup = False\<rparr>"

theorem reset_then_write_aborts_witness:
  "poll_results (sponge_rules resetting_adapter talking_kernel)
     [(\<lparr>pf_fd = 3, pf_events = Some In\<rparr>, readable), (\<lparr>pf_fd = 5, pf_events = Some In\<rparr>, readable)] synchronized_socket = Inl AssertionFailed"
proof (rule reset_then_write_aborts)
  show "remaining_outbound_capacity (TCPConnection_new 0 TCPConfig_default\<lparr>cn_receiver := TCPReceiver_new 10\<lparr>rc_received_syn := True\<rparr>\<rparr>) =
    Inr (tc_send_capacity TCPConfig_default)"
    using new_streams(1) [OF TCPConfig_default_ok] by (simp add: remaining_outbound_capacity_def)
  show "op_read resetting_adapter (so_adapter synchronized_socket) (so_kernel synchronized_socket) = Inr (Some reset_segment, sample_adapter, [])"
    by (simp add: resetting_adapter_def synchronized_socket_def)
  show "FileDescriptor_read talking_kernel (so_thread_data synchronized_socket) (tc_send_capacity TCPConfig_default) [] =
    Inr ([65], register_read (snd sample_pair), [])"
    by (simp add: FileDescriptor_read_def talking_kernel_def synchronized_socket_def SystemCall_def resize_to_def string_resize_def READ_BUFFER_SIZE_def
        TCPConfig_default_def DEFAULT_CAPACITY_def to_int_def)
qed (simp_all add: synchronized_socket_def TCPConnection_new_def TCPReceiver_ackno_def reset_segment_def readable_def poll_ready_def poll_error_def)

section \<open>Destroying\<close>

text \<open>A connection that is destroyed while it is active queues a reset, and the queue is destroyed with it: the adapter is not used.\<close>

theorem destroyed_reset_unsent:
  assumes "so_tcp w = Some tcp" "cn_active tcp" "TCPReceiver_ackno (cn_receiver tcp) \<noteq> None" "tcp_finish K w = Inr w'"
  shows "\<exists>tcp' segs seg. TCPConnection_destroy tcp = Inr tcp' \<and> cn_segments_out tcp' = segs @ [seg] \<and> th_rst (sg_header seg) \<and>
    so_tcp w' = None \<and> so_adapter w' = so_adapter w"
proof -
  obtain tcp' where d: "TCPConnection_destroy tcp = Inr tcp'" "so_tcp w' = None" "so_adapter w' = so_adapter w"
    using assms(1,4) by (auto simp: tcp_finish_def get_tcp_def and_then_Inr_iff)
  with assms(2,3) have "\<exists>segs seg. cn_segments_out tcp' = segs @ [seg] \<and> th_rst (sg_header seg)"
    by (auto simp: TCPConnection_destroy_def send_rst_def set_win_def and_then_Inr_iff end_uncleanly_def set_inbound_def set_outbound_def Let_def)
  with d show ?thesis by blast
qed

end
