(* ===== verification/Router.thy ===== *)
theory Router
  imports Network_Interface
begin

text \<open>
  \<open>AsyncNetworkInterface\<close> and \<open>Router\<close> of \<open>src/libsponge/router.hh\<close> and \<open>router.cc\<close>: longest-prefix-match routing between
  interfaces. The mask of a route shifts a 32-bit word by the length of the prefix and by 32 less that length; the language leaves a
  shift by 32 or more undefined, so what it gives is an argument of the model. The proofs are in \<open>Routing\<close>.
\<close>

section \<open>AsyncNetworkInterface\<close>

record AsyncNetworkInterface =
  ai_interface :: NetworkInterface
  ai_datagrams_out :: "IPv4Datagram list"

definition AsyncNetworkInterface_of :: "NetworkInterface \<Rightarrow> AsyncNetworkInterface" where
  "AsyncNetworkInterface_of interface = \<lparr>ai_interface = interface, ai_datagrams_out = []\<rparr>"

definition AsyncNetworkInterface_recv_frame :: "AsyncNetworkInterface \<Rightarrow> EthernetFrame \<Rightarrow> AsyncNetworkInterface result" where
  "AsyncNetworkInterface_recv_frame a frame =
     and_then (recv_frame (ai_interface a) frame) (\<lambda>(optional_dgram, interface).
     let a = a\<lparr>ai_interface := interface\<rparr> in
     case optional_dgram of
       None \<Rightarrow> Inr a
     | Some dgram \<Rightarrow> Inr (a\<lparr>ai_datagrams_out := ai_datagrams_out a @ [dgram]\<rparr>))"

section \<open>Router\<close>

record Route =
  rt_route_prefix :: "32 word"
  rt_prefix_length :: "8 word"
  rt_next_hop :: "Address option"
  rt_interface_num :: size_t

record Router =
  ro_interfaces :: "AsyncNetworkInterface list"
  ro_routes :: "Route list"

definition add_interface :: "Router \<Rightarrow> AsyncNetworkInterface \<Rightarrow> size_t \<times> Router" where
  "add_interface r interface =
     (let r = r\<lparr>ro_interfaces := ro_interfaces r @ [interface]\<rparr> in (length (ro_interfaces r) - 1, r))"

definition add_route :: "Router \<Rightarrow> 32 word \<Rightarrow> 8 word \<Rightarrow> Address option \<Rightarrow> size_t \<Rightarrow> Router" where
  "add_route r route_prefix prefix_length next_hop interface_num =
     r\<lparr>ro_routes := ro_routes r @
       [\<lparr>rt_route_prefix = route_prefix, rt_prefix_length = prefix_length, rt_next_hop = next_hop,
         rt_interface_num = interface_num\<rparr>]\<rparr>"

text \<open>\<open>interface(N)\<close> is \<open>_interfaces.at(N)\<close>, which throws when there is no such interface.\<close>

definition interface_at :: "Router \<Rightarrow> size_t \<Rightarrow> AsyncNetworkInterface result" where
  "interface_at r N = (if N < length (ro_interfaces r) then Inr (ro_interfaces r ! N) else Inl OutOfBounds)"

text \<open>A left shift of a 32-bit word; \<open>undef\<close> stands for a shift count out of range.\<close>

type_synonym shift = "32 word \<Rightarrow> int \<Rightarrow> 32 word"

definition shift_left :: "shift \<Rightarrow> 32 word \<Rightarrow> int \<Rightarrow> 32 word" where
  "shift_left undef w n = (if 0 \<le> n \<and> n < 32 then push_bit (nat n) w else undef w n)"

definition route_mask :: "shift \<Rightarrow> Route \<Rightarrow> 32 word" where
  "route_mask undef route =
     shift_left undef (shift_left undef 1 (uint (rt_prefix_length route)) - 1) (32 - uint (rt_prefix_length route))"

unbundle bit_operations_syntax

text \<open>The loop over the routes: the best route so far, as the length of its prefix and its index.\<close>

fun match_loop :: "shift \<Rightarrow> 32 word \<Rightarrow> nat \<Rightarrow> Route list \<Rightarrow> 8 word \<Rightarrow> nat option \<Rightarrow> nat option" where
  "match_loop undef dst_ip i [] max_prefix_len idx = idx"
| "match_loop undef dst_ip i (route # routes) max_prefix_len idx =
     (if (route_mask undef route AND dst_ip) = rt_route_prefix route \<and> rt_prefix_length route \<ge> max_prefix_len
      then match_loop undef dst_ip (i + 1) routes (rt_prefix_length route) (Some i)
      else match_loop undef dst_ip (i + 1) routes max_prefix_len idx)"

definition send_on :: "Router \<Rightarrow> size_t \<Rightarrow> IPv4Datagram \<Rightarrow> Address \<Rightarrow> Router result" where
  "send_on r N dgram next_hop =
     and_then (interface_at r N) (\<lambda>a.
     and_then (send_datagram (ai_interface a) dgram next_hop) (\<lambda>interface.
     Inr (r\<lparr>ro_interfaces := (ro_interfaces r)[N := a\<lparr>ai_interface := interface\<rparr>]\<rparr>)))"

definition route_one_datagram :: "shift \<Rightarrow> Router \<Rightarrow> IPv4Datagram \<Rightarrow> Router result" where
  "route_one_datagram undef r dgram =
     (let header = dg_header dgram in
      if ih_ttl header \<le> 1 then Inr r
      else
        (let header = header\<lparr>ih_ttl := ih_ttl header - 1\<rparr>;
             dgram = dgram\<lparr>dg_header := header\<rparr>;
             dst_ip = ih_dst header
         in
         case match_loop undef dst_ip 0 (ro_routes r) 0 None of
           None \<Rightarrow> Inr r
         | Some idx \<Rightarrow>
             (let route = ro_routes r ! idx in
              case rt_next_hop route of
                Some next_hop \<Rightarrow> send_on r (rt_interface_num route) dgram next_hop
              | None \<Rightarrow> send_on r (rt_interface_num route) dgram \<lparr>ad_ip = dst_ip, ad_port = 0\<rparr>)))"

text \<open>The loops of \<open>route\<close>: over the datagrams of one interface, and over the interfaces.\<close>

definition pop_datagram :: "size_t \<Rightarrow> Router \<Rightarrow> Router" where
  "pop_datagram N r =
     r\<lparr>ro_interfaces := (ro_interfaces r)[N := (ro_interfaces r ! N)\<lparr>ai_datagrams_out := tl (ai_datagrams_out (ro_interfaces r ! N))\<rparr>]\<rparr>"

primrec route_queue :: "shift \<Rightarrow> size_t \<Rightarrow> IPv4Datagram list \<Rightarrow> Router \<Rightarrow> Router result" where
  "route_queue undef N [] r = Inr r"
| "route_queue undef N (dgram # dgrams) r =
     and_then (route_one_datagram undef r dgram) (\<lambda>r. route_queue undef N dgrams (pop_datagram N r))"

primrec route_loop :: "shift \<Rightarrow> size_t list \<Rightarrow> Router \<Rightarrow> Router result" where
  "route_loop undef [] r = Inr r"
| "route_loop undef (N # Ns) r =
     and_then (route_queue undef N (ai_datagrams_out (ro_interfaces r ! N)) r) (route_loop undef Ns)"

definition Router_route :: "shift \<Rightarrow> Router \<Rightarrow> Router result" where
  "Router_route undef r = route_loop undef [0..<length (ro_interfaces r)] r"

end
