(* ===== verification/Network_Simulator.thy ===== *)
theory Network_Simulator
  imports Router File_Descriptor
begin

text \<open>
  The hosts, the network and the run of \<open>src/apps/network_simulator.cc\<close>: six hosts on the interfaces of a router, whose frames are
  exchanged between the members of each link. The generator of random numbers is an argument, a function on a state of its own; what the
  program prints is left out, and an exception carries the message without the description of the datagram. An \<open>unordered_map\<close> is gone
  through in an order the library leaves open, which is an argument as well. The proofs are in \<open>Simulated_Network\<close>.
\<close>

unbundle bit_operations_syntax

section \<open>Random addresses\<close>

type_synonym 'g generator = "'g \<Rightarrow> 32 word \<times> 'g"

primrec random_address_bytes :: "'g generator \<Rightarrow> nat \<Rightarrow> 'g \<Rightarrow> EthernetAddress \<times> 'g" where
  "random_address_bytes rd 0 g = ([], g)"
| "random_address_bytes rd (Suc n) g =
     (let (x, g) = rd g; (addr, g) = random_address_bytes rd n g in (ucast x # addr, g))"

definition random_host_ethernet_address :: "'g generator \<Rightarrow> 'g \<Rightarrow> EthernetAddress \<times> 'g" where
  "random_host_ethernet_address rd g =
     (let (addr, g) = random_address_bytes rd 6 g;
          addr = addr[0 := addr ! 0 OR 0x02];
          addr = addr[0 := addr ! 0 AND 0xfe]
      in (addr, g))"

definition random_router_ethernet_address :: "'g generator \<Rightarrow> 'g \<Rightarrow> EthernetAddress \<times> 'g" where
  "random_router_ethernet_address rd g =
     (let (addr, g) = random_address_bytes rd 6 g in (addr[0 := 0x02, 1 := 0, 2 := 0], g))"

text \<open>The address of a dotted quad.\<close>

definition ip :: "32 word \<Rightarrow> 32 word \<Rightarrow> 32 word \<Rightarrow> 32 word \<Rightarrow> 32 word" where
  "ip a b c d = ((a * 256 + b) * 256 + c) * 256 + d"

definition address :: "32 word \<Rightarrow> Address" where
  "address n = \<lparr>ad_ip = n, ad_port = 0\<rparr>"

section \<open>Hosts\<close>

record Host =
  ho_name :: string
  ho_my_address :: Address
  ho_interface :: AsyncNetworkInterface
  ho_next_hop :: Address
  ho_expecting_to_receive :: "IPv4Datagram list"

primrec expecting :: "IPv4Datagram list \<Rightarrow> IPv4Datagram \<Rightarrow> bool result" where
  "expecting [] expected = Inr False"
| "expecting (x # xs) expected =
     and_then (IPv4Datagram_serialize x) (\<lambda>a.
     and_then (IPv4Datagram_serialize expected) (\<lambda>b.
     if BufferList_concatenate a = BufferList_concatenate b then Inr True else expecting xs expected))"

primrec remove_expectation :: "IPv4Datagram list \<Rightarrow> IPv4Datagram \<Rightarrow> IPv4Datagram list result" where
  "remove_expectation [] expected = Inr []"
| "remove_expectation (x # xs) expected =
     and_then (IPv4Datagram_serialize x) (\<lambda>a.
     and_then (IPv4Datagram_serialize expected) (\<lambda>b.
     if BufferList_concatenate a = BufferList_concatenate b then Inr xs
     else and_then (remove_expectation xs expected) (\<lambda>xs. Inr (x # xs))))"

definition Host_new :: "'g generator \<Rightarrow> string \<Rightarrow> Address \<Rightarrow> Address \<Rightarrow> 'g \<Rightarrow> Host \<times> 'g" where
  "Host_new rd name my_address next_hop g =
     (let (eth, g) = random_host_ethernet_address rd g in
      (\<lparr>ho_name = name, ho_my_address = my_address, ho_interface = AsyncNetworkInterface_of (NetworkInterface_new eth my_address),
        ho_next_hop = next_hop, ho_expecting_to_receive = []\<rparr>, g))"

definition random_payload :: "32 word \<Rightarrow> bytes" where
  "random_payload x = map of_char (''random payload: {'' @ to_string_nat (unat x) @ ''}'')"

definition send_to :: "'g generator \<Rightarrow> Host \<Rightarrow> Address \<Rightarrow> 8 word \<Rightarrow> 'g \<Rightarrow> (IPv4Datagram \<times> Host \<times> 'g) result" where
  "send_to rd h destination ttl g =
     (let (x, g) = rd g;
          payload = BufferList_of_string (random_payload x);
          header = IPv4Header_default\<lparr>ih_src := ad_ip (ho_my_address h), ih_dst := ad_ip destination\<rparr>;
          header = header\<lparr>ih_len := word_of_nat (unat (ih_hlen header) * 4 + BufferList_size payload), ih_ttl := ttl\<rparr>;
          dgram = \<lparr>dg_header = header, dg_payload = payload\<rparr>
      in
      and_then (send_datagram (ai_interface (ho_interface h)) dgram (ho_next_hop h)) (\<lambda>interface.
      Inr (dgram, h\<lparr>ho_interface := (ho_interface h)\<lparr>ai_interface := interface\<rparr>\<rparr>, g)))"

definition expect :: "Host \<Rightarrow> IPv4Datagram \<Rightarrow> Host" where
  "expect h expected = h\<lparr>ho_expecting_to_receive := ho_expecting_to_receive h @ [expected]\<rparr>"

primrec check_received :: "IPv4Datagram list \<Rightarrow> Host \<Rightarrow> Host result" where
  "check_received [] h = Inr h"
| "check_received (dgram_received # dgrams) h =
     and_then (expecting (ho_expecting_to_receive h) dgram_received) (\<lambda>found.
     if \<not> found then Inl (RuntimeError (''Host '' @ ho_name h @ '' received unexpected Internet datagram''))
     else
       and_then (remove_expectation (ho_expecting_to_receive h) dgram_received) (\<lambda>expectations.
       check_received dgrams
         (h\<lparr>ho_expecting_to_receive := expectations, ho_interface := (ho_interface h)\<lparr>ai_datagrams_out := dgrams\<rparr>\<rparr>)))"

definition Host_check :: "Host \<Rightarrow> Host result" where
  "Host_check h =
     and_then (check_received (ai_datagrams_out (ho_interface h)) h) (\<lambda>h.
     if ho_expecting_to_receive h \<noteq> []
     then Inl (RuntimeError (''Host '' @ ho_name h @ '' did NOT receive an expected Internet datagram''))
     else Inr h)"

section \<open>Links\<close>

abbreviation out_frames :: "AsyncNetworkInterface \<Rightarrow> EthernetFrame list" where
  "out_frames a \<equiv> ni_frames_out (ai_interface a)"

fun clear :: "'a list \<Rightarrow> 'a list \<Rightarrow> 'a list" where
  "clear [] queue2 = queue2"
| "clear (x # queue1) queue2 = clear queue1 (tl queue2)"

definition clear_frames :: "EthernetFrame list \<Rightarrow> AsyncNetworkInterface \<Rightarrow> AsyncNetworkInterface" where
  "clear_frames frames a = a\<lparr>ai_interface := (ai_interface a)\<lparr>ni_frames_out := clear frames (out_frames a)\<rparr>\<rparr>"

primrec deliver :: "EthernetFrame list \<Rightarrow> AsyncNetworkInterface \<Rightarrow> AsyncNetworkInterface result" where
  "deliver [] dst = Inr dst"
| "deliver (frame # to_send) dst =
     and_then (AsyncNetworkInterface_recv_frame dst (frame\<lparr>ef_payload := BufferList_of_string (BufferList_concatenate (ef_payload frame))\<rparr>))
       (deliver to_send)"

definition exchange_frames :: "AsyncNetworkInterface \<Rightarrow> AsyncNetworkInterface \<Rightarrow> (AsyncNetworkInterface \<times> AsyncNetworkInterface) result" where
  "exchange_frames x y =
     (let x_frames = out_frames x; y_frames = out_frames y in
      and_then (deliver x_frames y) (\<lambda>y.
      and_then (deliver y_frames x) (\<lambda>x.
      Inr (clear_frames x_frames x, clear_frames y_frames y))))"

definition exchange_frames3 :: "AsyncNetworkInterface \<Rightarrow> AsyncNetworkInterface \<Rightarrow> AsyncNetworkInterface \<Rightarrow>
    (AsyncNetworkInterface \<times> AsyncNetworkInterface \<times> AsyncNetworkInterface) result" where
  "exchange_frames3 x y z =
     (let x_frames = out_frames x; y_frames = out_frames y; z_frames = out_frames z in
      and_then (deliver x_frames y) (\<lambda>y.
      and_then (deliver x_frames z) (\<lambda>z.
      and_then (deliver y_frames x) (\<lambda>x.
      and_then (deliver y_frames z) (\<lambda>z.
      and_then (deliver z_frames x) (\<lambda>x.
      and_then (deliver z_frames y) (\<lambda>y.
      Inr (clear_frames x_frames x, clear_frames y_frames y, clear_frames z_frames z))))))))"

section \<open>The network\<close>

record Network =
  nw_router :: Router
  nw_default_id :: size_t
  nw_eth0_id :: size_t
  nw_eth1_id :: size_t
  nw_eth2_id :: size_t
  nw_uun3_id :: size_t
  nw_hs4_id :: size_t
  nw_mit5_id :: size_t
  nw_hosts :: "string \<rightharpoonup> Host"

definition add_router_interface :: "'g generator \<Rightarrow> 32 word \<Rightarrow> Router \<Rightarrow> 'g \<Rightarrow> size_t \<times> Router \<times> 'g" where
  "add_router_interface rd n r g =
     (let (eth, g) = random_router_ethernet_address rd g;
          (N, r) = add_interface r (AsyncNetworkInterface_of (NetworkInterface_new eth (address n)))
      in (N, r, g))"

definition insert_host :: "'g generator \<Rightarrow> string \<Rightarrow> 32 word \<Rightarrow> 32 word \<Rightarrow> (string \<rightharpoonup> Host) \<times> 'g \<Rightarrow> (string \<rightharpoonup> Host) \<times> 'g" where
  "insert_host rd name my_address next_hop = (\<lambda>(hosts, g).
     let (h, g) = Host_new rd name (address my_address) (address next_hop) g in
     (case hosts name of None \<Rightarrow> hosts(name \<mapsto> h) | Some _ \<Rightarrow> hosts, g))"

definition host :: "Network \<Rightarrow> string \<Rightarrow> Host result" where
  "host nw name =
     (case nw_hosts nw name of
        None \<Rightarrow> Inl (RuntimeError (''unknown host: '' @ name))
      | Some h \<Rightarrow> if ho_name h \<noteq> name then Inl (RuntimeError (''invalid host: '' @ name)) else Inr h)"

definition set_host :: "Network \<Rightarrow> string \<Rightarrow> Host \<Rightarrow> Network" where
  "set_host nw name h = nw\<lparr>nw_hosts := (nw_hosts nw)(name \<mapsto> h)\<rparr>"

definition Network_new :: "'g generator \<Rightarrow> 'g \<Rightarrow> (Network \<times> 'g) result" where
  "Network_new rd g =
     (let (default_id, r, g) = add_router_interface rd (ip 171 67 76 46) \<lparr>ro_interfaces = [], ro_routes = []\<rparr> g;
          (eth0_id, r, g) = add_router_interface rd (ip 10 0 0 1) r g;
          (eth1_id, r, g) = add_router_interface rd (ip 172 16 0 1) r g;
          (eth2_id, r, g) = add_router_interface rd (ip 192 168 0 1) r g;
          (uun3_id, r, g) = add_router_interface rd (ip 198 178 229 1) r g;
          (hs4_id, r, g) = add_router_interface rd (ip 143 195 0 2) r g;
          (mit5_id, r, g) = add_router_interface rd (ip 128 30 76 255) r g;
          (hosts, g) = insert_host rd ''applesauce'' (ip 10 0 0 2) (ip 10 0 0 1) (Map.empty, g);
          (hosts, g) = insert_host rd ''default_router'' (ip 171 67 76 1) 0 (hosts, g);
          (hosts, g) = insert_host rd ''cherrypie'' (ip 192 168 0 2) (ip 192 168 0 1) (hosts, g);
          (hosts, g) = insert_host rd ''hs_router'' (ip 143 195 0 1) 0 (hosts, g);
          (hosts, g) = insert_host rd ''dm42'' (ip 198 178 229 42) (ip 198 178 229 1) (hosts, g);
          (hosts, g) = insert_host rd ''dm43'' (ip 198 178 229 43) (ip 198 178 229 1) (hosts, g);
          nw = \<lparr>nw_router = r, nw_default_id = default_id, nw_eth0_id = eth0_id, nw_eth1_id = eth1_id, nw_eth2_id = eth2_id,
                nw_uun3_id = uun3_id, nw_hs4_id = hs4_id, nw_mit5_id = mit5_id, nw_hosts = hosts\<rparr>
      in
      and_then (host nw ''default_router'') (\<lambda>default_router.
      and_then (host nw ''hs_router'') (\<lambda>hs_router.
      let r = add_route r (ip 0 0 0 0) 0 (Some (ho_my_address default_router)) default_id;
          r = add_route r (ip 10 0 0 0) 8 None eth0_id;
          r = add_route r (ip 172 16 0 0) 16 None eth1_id;
          r = add_route r (ip 192 168 0 0) 24 None eth2_id;
          r = add_route r (ip 198 178 229 0) 24 None uun3_id;
          r = add_route r (ip 143 195 0 0) 17 (Some (ho_my_address hs_router)) hs4_id;
          r = add_route r (ip 143 195 128 0) 18 (Some (ho_my_address hs_router)) hs4_id;
          r = add_route r (ip 143 195 192 0) 19 (Some (ho_my_address hs_router)) hs4_id;
          r = add_route r (ip 128 30 76 255) 16 (Some (address (ip 128 30 0 1))) mit5_id
      in Inr (nw\<lparr>nw_router := r\<rparr>, g))))"

definition set_interface :: "Network \<Rightarrow> size_t \<Rightarrow> AsyncNetworkInterface \<Rightarrow> Network" where
  "set_interface nw N a = nw\<lparr>nw_router := (nw_router nw)\<lparr>ro_interfaces := (ro_interfaces (nw_router nw))[N := a]\<rparr>\<rparr>"

definition connect_host :: "size_t \<Rightarrow> string \<Rightarrow> Network \<Rightarrow> Network result" where
  "connect_host N name nw =
     and_then (interface_at (nw_router nw) N) (\<lambda>x.
     and_then (host nw name) (\<lambda>h.
     and_then (exchange_frames x (ho_interface h)) (\<lambda>(x, y).
     Inr (set_host (set_interface nw N x) name (h\<lparr>ho_interface := y\<rparr>)))))"

definition connect_hosts :: "size_t \<Rightarrow> string \<Rightarrow> string \<Rightarrow> Network \<Rightarrow> Network result" where
  "connect_hosts N name1 name2 nw =
     and_then (interface_at (nw_router nw) N) (\<lambda>x.
     and_then (host nw name1) (\<lambda>h1.
     and_then (host nw name2) (\<lambda>h2.
     and_then (exchange_frames3 x (ho_interface h1) (ho_interface h2)) (\<lambda>(x, y, z).
     Inr (set_host (set_host (set_interface nw N x) name1 (h1\<lparr>ho_interface := y\<rparr>)) name2 (h2\<lparr>ho_interface := z\<rparr>))))))"

definition simulate_physical_connections :: "Network \<Rightarrow> Network result" where
  "simulate_physical_connections nw =
     and_then (connect_host (nw_default_id nw) ''default_router'' nw) (\<lambda>nw.
     and_then (connect_host (nw_eth0_id nw) ''applesauce'' nw) (\<lambda>nw.
     and_then (connect_host (nw_eth2_id nw) ''cherrypie'' nw) (\<lambda>nw.
     and_then (connect_host (nw_hs4_id nw) ''hs_router'' nw) (\<lambda>nw.
     connect_hosts (nw_uun3_id nw) ''dm42'' ''dm43'' nw))))"

primrec simulate_rounds :: "shift \<Rightarrow> nat \<Rightarrow> Network \<Rightarrow> Network result" where
  "simulate_rounds undef 0 nw = Inr nw"
| "simulate_rounds undef (Suc i) nw =
     and_then (Router_route undef (nw_router nw)) (\<lambda>r.
     and_then (simulate_physical_connections (nw\<lparr>nw_router := r\<rparr>)) (simulate_rounds undef i))"

text \<open>\<open>order\<close>: the names of the hosts in the order in which the map is gone through.\<close>

primrec check_hosts :: "string list \<Rightarrow> Network \<Rightarrow> Network result" where
  "check_hosts [] nw = Inr nw"
| "check_hosts (name # order) nw =
     (case nw_hosts nw name of
        None \<Rightarrow> check_hosts order nw
      | Some h \<Rightarrow> and_then (Host_check h) (\<lambda>h. check_hosts order (set_host nw name h)))"

definition simulate :: "shift \<Rightarrow> string list \<Rightarrow> Network \<Rightarrow> Network result" where
  "simulate undef order nw = and_then (simulate_rounds undef 256 nw) (check_hosts order)"

section \<open>The run\<close>

definition host_sends :: "'g generator \<Rightarrow> string \<Rightarrow> Address \<Rightarrow> 8 word \<Rightarrow> Network \<Rightarrow> 'g \<Rightarrow> (IPv4Datagram \<times> Network \<times> 'g) result" where
  "host_sends rd name destination ttl nw g =
     and_then (host nw name) (\<lambda>h.
     and_then (send_to rd h destination ttl g) (\<lambda>(dgram, h, g).
     Inr (dgram, set_host nw name h, g)))"

text \<open>A test of the program: a host sends, another one expects the datagram one hop older, and the network runs.\<close>

definition test_delivery :: "shift \<Rightarrow> 'g generator \<Rightarrow> string list \<Rightarrow> string \<Rightarrow> Address \<Rightarrow> string \<Rightarrow> Network \<times> 'g \<Rightarrow> (Network \<times> 'g) result" where
  "test_delivery undef rd order source destination receiver = (\<lambda>(nw, g).
     and_then (host_sends rd source destination 64 nw g) (\<lambda>(dgram_sent, nw, g).
     let dgram_sent = dgram_sent\<lparr>dg_header := (dg_header dgram_sent)\<lparr>ih_ttl := ih_ttl (dg_header dgram_sent) - 1\<rparr>\<rparr> in
     and_then (host nw receiver) (\<lambda>h.
     and_then (simulate undef order (set_host nw receiver (expect h dgram_sent))) (\<lambda>nw. Inr (nw, g)))))"

text \<open>The test in which the destination is the address of a host.\<close>

definition test_hosts :: "shift \<Rightarrow> 'g generator \<Rightarrow> string list \<Rightarrow> string \<Rightarrow> string \<Rightarrow> Network \<times> 'g \<Rightarrow> (Network \<times> 'g) result" where
  "test_hosts undef rd order source receiver = (\<lambda>(nw, g).
     and_then (host nw receiver) (\<lambda>h. test_delivery undef rd order source (ho_my_address h) receiver (nw, g)))"

text \<open>The test in which nobody may receive the datagram.\<close>

definition test_expiry :: "shift \<Rightarrow> 'g generator \<Rightarrow> string list \<Rightarrow> string \<Rightarrow> Address \<Rightarrow> 8 word \<Rightarrow> Network \<times> 'g \<Rightarrow> (Network \<times> 'g) result" where
  "test_expiry undef rd order source destination ttl = (\<lambda>(nw, g).
     and_then (host_sends rd source destination ttl nw g) (\<lambda>(dgram_sent, nw, g).
     and_then (simulate undef order nw) (\<lambda>nw. Inr (nw, g))))"

definition network_simulator :: "shift \<Rightarrow> 'g generator \<Rightarrow> string list \<Rightarrow> 'g \<Rightarrow> (Network \<times> 'g) result" where
  "network_simulator undef rd order g =
     and_then (Network_new rd g) (\<lambda>s.
     and_then (test_hosts undef rd order ''applesauce'' ''cherrypie'' s) (\<lambda>s.
     and_then (test_hosts undef rd order ''cherrypie'' ''applesauce'' s) (\<lambda>s.
     and_then (test_delivery undef rd order ''applesauce'' (address (ip 1 2 3 4)) ''default_router'' s) (\<lambda>s.
     and_then (test_delivery undef rd order ''applesauce'' (address (ip 143 195 131 17)) ''hs_router'' s) (\<lambda>s.
     and_then (test_delivery undef rd order ''cherrypie'' (address (ip 143 195 193 52)) ''hs_router'' s) (\<lambda>s.
     and_then (test_delivery undef rd order ''cherrypie'' (address (ip 143 195 223 255)) ''hs_router'' s) (\<lambda>s.
     and_then (test_delivery undef rd order ''cherrypie'' (address (ip 143 195 224 0)) ''default_router'' s) (\<lambda>s.
     and_then (test_hosts undef rd order ''dm42'' ''dm43'' s) (\<lambda>s.
     and_then (test_expiry undef rd order ''applesauce'' (address (ip 1 2 3 4)) 1 s) (\<lambda>s.
     test_expiry undef rd order ''applesauce'' (address (ip 1 2 3 4)) 0 s))))))))))"

end
