(* ===== verification/Routing.thy ===== *)
theory Routing
  imports Router Address_Resolution
begin

text \<open>
  Correctness of the router of \<open>Router\<close>. A route covers an address when its prefix is that address cut to the length of the prefix;
  the loop over the routes is shown to return the last of the longest covering routes, and a datagram is shown to leave through the
  interface of that route, to its next hop or to its own destination, with its time to live one lower. A route of length 32 depends on
  what the machine gives for a shift by 32, which the language does not define.
\<close>

unbundle bit_operations_syntax

section \<open>The mask of a route\<close>

definition high_bits :: "nat \<Rightarrow> 32 word \<Rightarrow> 32 word" where
  "high_bits len w = push_bit (32 - len) (drop_bit (32 - len) w)"

lemma high_bits_0 [simp]: "high_bits 0 w = 0"
proof -
  have "drop_bit 32 w = 0" by (rule bit_word_eqI) (simp add: bit_drop_bit_eq)
  then show ?thesis by (simp add: high_bits_def)
qed

text \<open>What the code relies on for the default route, whose mask is zero shifted by 32.\<close>

definition zero_shift :: "shift \<Rightarrow> bool" where
  "zero_shift undef \<longleftrightarrow> undef 0 32 = 0"

lemma route_mask_and:
  assumes "rt_prefix_length rt < 32" "zero_shift undef"
  shows "(route_mask undef rt AND ip) = high_bits (unat (rt_prefix_length rt)) ip"
proof (cases "rt_prefix_length rt = 0")
  case True
  with assms(2) show ?thesis by (simp add: route_mask_def shift_left_def zero_shift_def)
next
  case False
  define n where "n = unat (rt_prefix_length rt)"
  have n: "0 < n" "n < 32" using assms False by (simp_all add: n_def unat_gt_0 word_less_nat_alt)
  have u: "uint (rt_prefix_length rt) = int n" by (simp add: n_def)
  have s: "nat (32 - int n) = 32 - n" by simp
  have "route_mask undef rt = push_bit (32 - n) (mask n)"
    unfolding route_mask_def shift_left_def u using n by (simp add: s mask_eq_exp_minus_1)
  also have "(push_bit (32 - n) (mask n) AND ip) = high_bits n ip"
    using n by (intro bit_word_eqI) (auto simp: high_bits_def bit_simps)
  finally show ?thesis unfolding n_def .
qed

section \<open>The loop over the routes\<close>

definition covers :: "32 word \<Rightarrow> Route \<Rightarrow> bool" where
  "covers ip rt \<longleftrightarrow> rt_route_prefix rt = high_bits (unat (rt_prefix_length rt)) ip"

text \<open>The last of the longest covering routes.\<close>

definition longest_route :: "Route list \<Rightarrow> 32 word \<Rightarrow> Route option" where
  "longest_route rts ip =
     (let rs = filter (covers ip) rts; m = Max (rt_prefix_length ` set rs) in
      if rs = [] then None else Some (last (filter (\<lambda>rt. rt_prefix_length rt = m) rs)))"

lemma longest_route_length: "longest_route rts ip = Some rt \<Longrightarrow> rt_prefix_length rt = Max (rt_prefix_length ` set (filter (covers ip) rts))"
  and longest_route_mem: "longest_route rts ip = Some rt \<Longrightarrow> rt \<in> set rts \<and> covers ip rt"
proof -
  let ?rs = "filter (covers ip) rts" and ?m = "Max (rt_prefix_length ` set (filter (covers ip) rts))"
  assume s: "longest_route rts ip = Some rt"
  then have "?rs \<noteq> []" and rt: "rt = last (filter (\<lambda>rt. rt_prefix_length rt = ?m) ?rs)"
    by (auto simp: longest_route_def Let_def split: if_splits)
  then have "?m \<in> rt_prefix_length ` set ?rs" by (intro Max_in) (auto simp: filter_empty_conv)
  then have "filter (\<lambda>rt. rt_prefix_length rt = ?m) ?rs \<noteq> []" by (auto simp: filter_empty_conv)
  from last_in_set [OF this] show "rt_prefix_length rt = ?m" "rt \<in> set rts \<and> covers ip rt" unfolding rt by auto
qed

lemma longest_route_snoc:
  "longest_route (rts @ [rt]) ip =
     (if covers ip rt \<and> (\<forall>b. longest_route rts ip = Some b \<longrightarrow> rt_prefix_length b \<le> rt_prefix_length rt) then Some rt
      else longest_route rts ip)"
proof (cases "covers ip rt \<and> filter (covers ip) rts \<noteq> []")
  case False
  then show ?thesis by (auto simp: longest_route_def)
next
  case True
  let ?rs = "filter (covers ip) rts"
  obtain b where b: "longest_route rts ip = Some b" using True by (auto simp: longest_route_def Let_def)
  from longest_route_length [OF this] have m: "rt_prefix_length b = Max (rt_prefix_length ` set ?rs)" .
  have "Max (rt_prefix_length ` set (?rs @ [rt])) = max (rt_prefix_length rt) (rt_prefix_length b)"
    unfolding m using True by (auto intro!: Max_insert simp: filter_empty_conv)
  with True b m show ?thesis by (auto simp: longest_route_def Let_def max_def)
qed

text \<open>What the loop holds after the first routes: the best of them, if any covers the address.\<close>

definition best_so_far :: "Route list \<Rightarrow> Route list \<Rightarrow> 32 word \<Rightarrow> 8 word \<Rightarrow> nat option \<Rightarrow> bool" where
  "best_so_far rts seen ip len idx \<longleftrightarrow> map_option ((!) rts) idx = longest_route seen ip \<and>
     (\<forall>k. idx = Some k \<longrightarrow> k < length rts \<and> rt_prefix_length (rts ! k) = len) \<and> (idx = None \<longrightarrow> len = 0)"

lemma match_loop_best:
  assumes "zero_shift undef" "\<forall>rt\<in>set rts. rt_prefix_length rt < 32" "best_so_far (seen @ rts) seen ip len idx"
  shows "\<exists>len'. best_so_far (seen @ rts) (seen @ rts) ip len' (match_loop undef ip (length seen) rts len idx)"
  using assms(2,3)
proof (induction rts arbitrary: seen len idx)
  case (Cons rt rts)
  let ?all = "seen @ rt # rts"
  have c: "(route_mask undef rt AND ip) = rt_route_prefix rt \<longleftrightarrow> covers ip rt"
    using route_mask_and [OF _ assms(1), of rt ip] Cons.prems(1) by (auto simp: covers_def)
  have l: "(\<forall>b. longest_route seen ip = Some b \<longrightarrow> rt_prefix_length b \<le> rt_prefix_length rt) \<longleftrightarrow> len \<le> rt_prefix_length rt"
    using Cons.prems(2) unfolding best_so_far_def by (cases idx) (auto dest: sym)
  show ?case
  proof (cases "covers ip rt \<and> len \<le> rt_prefix_length rt")
    case True
    then have "best_so_far ?all (seen @ [rt]) ip (rt_prefix_length rt) (Some (length seen))"
      by (simp add: best_so_far_def longest_route_snoc l)
    with True Cons.prems(1) Cons.IH [of "seen @ [rt]"] show ?thesis by (simp add: c)
  next
    case False
    then have "best_so_far ?all (seen @ [rt]) ip len idx" using Cons.prems(2) by (auto simp: best_so_far_def longest_route_snoc l)
    with False Cons.prems(1) Cons.IH [of "seen @ [rt]" len idx] show ?thesis by (auto simp: c)
  qed
qed auto

lemma match_loop_ok:
  assumes "zero_shift undef" "\<forall>rt\<in>set rts. rt_prefix_length rt < 32"
  shows "map_option ((!) rts) (match_loop undef ip 0 rts 0 None) = longest_route rts ip"
proof -
  have "best_so_far ([] @ rts) [] ip 0 None" by (simp add: best_so_far_def longest_route_def)
  from match_loop_best [OF assms this] show ?thesis by (auto simp: best_so_far_def)
qed

section \<open>Forwarding one datagram\<close>

definition aged :: "IPv4Datagram \<Rightarrow> IPv4Datagram" where
  "aged d = d\<lparr>dg_header := (dg_header d)\<lparr>ih_ttl := ih_ttl (dg_header d) - 1\<rparr>\<rparr>"

definition hop_of :: "Route \<Rightarrow> IPv4Datagram \<Rightarrow> Address" where
  "hop_of rt d = (case rt_next_hop rt of Some hop \<Rightarrow> hop | None \<Rightarrow> \<lparr>ad_ip = ih_dst (dg_header d), ad_port = 0\<rparr>)"

text \<open>What a datagram's routing should be: nothing when its time is up or no route covers it, else an interface, the datagram one hop
  older, and the address of the next hop.\<close>

definition forward :: "Route list \<Rightarrow> IPv4Datagram \<Rightarrow> (size_t \<times> IPv4Datagram \<times> Address) option" where
  "forward rts d = (if ih_ttl (dg_header d) \<le> 1 then None
     else map_option (\<lambda>rt. (rt_interface_num rt, aged d, hop_of rt d)) (longest_route rts (ih_dst (dg_header d))))"

abbreviation iface :: "Router \<Rightarrow> size_t \<Rightarrow> NetworkInterface" where
  "iface r N \<equiv> ai_interface (ro_interfaces r ! N)"

abbreviation inbox :: "Router \<Rightarrow> size_t \<Rightarrow> IPv4Datagram list" where
  "inbox r N \<equiv> ai_datagrams_out (ro_interfaces r ! N)"

definition router_inv :: "Router \<Rightarrow> bool" where
  "router_inv r \<longleftrightarrow> (\<forall>N<length (ro_interfaces r). ni_inv (iface r N) \<and> (\<forall>d\<in>set (inbox r N). dgram_ok d)) \<and>
     (\<forall>rt\<in>set (ro_routes r). rt_interface_num rt < length (ro_interfaces r) \<and> rt_prefix_length rt < 32)"

lemma aged_ok: "dgram_ok d \<Longrightarrow> dgram_ok (aged d)"
  by (simp add: dgram_ok_def aged_def ip_header_ok_def)

lemma send_on_ok:
  assumes "router_inv r" "dgram_ok d" "N < length (ro_interfaces r)"
  shows "\<exists>n. send_datagram (iface r N) d hop = Inr n \<and> ni_inv n \<and>
    send_on r N d hop = Inr (r\<lparr>ro_interfaces := (ro_interfaces r)[N := (ro_interfaces r ! N)\<lparr>ai_interface := n\<rparr>]\<rparr>)"
proof -
  have "ni_inv (iface r N)" using assms by (simp add: router_inv_def)
  from send_datagram_ok [OF this assms(2), of hop] assms(3) show ?thesis by (auto simp: send_on_def interface_at_def)
qed

lemma forward_valid: "router_inv r \<Longrightarrow> forward (ro_routes r) d = Some (N, d', hop) \<Longrightarrow> N < length (ro_interfaces r) \<and> d' = aged d"
  using longest_route_mem unfolding router_inv_def forward_def by (fastforce split: if_splits)

lemma route_one_eq:
  assumes "zero_shift undef" "router_inv r"
  shows "route_one_datagram undef r d = (case forward (ro_routes r) d of None \<Rightarrow> Inr r | Some (N, d', hop) \<Rightarrow> send_on r N d' hop)"
proof -
  have "map_option ((!) (ro_routes r)) (match_loop undef ip 0 (ro_routes r) 0 None) = longest_route (ro_routes r) ip" for ip
    using assms by (intro match_loop_ok) (auto simp: router_inv_def)
  from this [symmetric, of "ih_dst (dg_header d)"] show ?thesis
    by (cases "match_loop undef (ih_dst (dg_header d)) 0 (ro_routes r) 0 None")
      (simp_all add: route_one_datagram_def forward_def Let_def aged_def hop_of_def split: option.split)
qed

section \<open>Routing everything that waits\<close>

text \<open>Sending a sequence of datagrams through one interface, and the part of a sequence that is routed to interface \<open>N\<close>.\<close>

primrec sends :: "NetworkInterface \<Rightarrow> (IPv4Datagram \<times> Address) list \<Rightarrow> NetworkInterface result" where
  "sends n [] = Inr n"
| "sends n (x # xs) = and_then (send_datagram n (fst x) (snd x)) (\<lambda>n. sends n xs)"

definition outbox :: "Route list \<Rightarrow> size_t \<Rightarrow> IPv4Datagram list \<Rightarrow> (IPv4Datagram \<times> Address) list" where
  "outbox rts N ds = [(d', hop). Some (M, d', hop) \<leftarrow> map (forward rts) ds, M = N]"

lemma sends_append: "sends n (xs @ ys) = and_then (sends n xs) (\<lambda>n. sends n ys)"
proof (induction xs arbitrary: n)
  case (Cons x xs)
  then show ?case by (cases "send_datagram n (fst x) (snd x)") simp_all
qed simp

lemma outbox_append: "outbox rts N (ds @ es) = outbox rts N ds @ outbox rts N es"
  by (simp add: outbox_def)

lemma outbox_Cons: "outbox rts N (d # ds) = outbox rts N [d] @ outbox rts N ds"
  by (simp add: outbox_def)

text \<open>What routing some datagrams does to the interfaces; the waiting datagrams are accounted for separately.\<close>

definition routed :: "Router \<Rightarrow> IPv4Datagram list \<Rightarrow> Router \<Rightarrow> bool" where
  "routed r ds r' \<longleftrightarrow> router_inv r' \<and> ro_routes r' = ro_routes r \<and> length (ro_interfaces r') = length (ro_interfaces r) \<and>
     (\<forall>N<length (ro_interfaces r). sends (iface r N) (outbox (ro_routes r) N ds) = Inr (iface r' N))"

lemma routed_trans: "routed r ds r' \<Longrightarrow> routed r' es r'' \<Longrightarrow> routed r (ds @ es) r''"
  by (simp add: routed_def outbox_append sends_append)

lemma route_one_ok:
  assumes "zero_shift undef" "router_inv r" "dgram_ok d"
  shows "\<exists>r'. route_one_datagram undef r d = Inr r' \<and> routed r [d] r' \<and> (\<forall>N<length (ro_interfaces r). inbox r' N = inbox r N)"
proof (cases "forward (ro_routes r) d")
  case None
  with assms show ?thesis by (simp add: route_one_eq routed_def outbox_def)
next
  case (Some t)
  obtain N d' hop where t: "t = (N, d', hop)" by (cases t)
  have v: "N < length (ro_interfaces r)" "d' = aged d" using forward_valid [OF assms(2)] Some t by blast+
  from send_on_ok [OF assms(2) aged_ok [OF assms(3)] v(1), of hop] obtain n where n: "send_datagram (iface r N) d' hop = Inr n" "ni_inv n"
    "send_on r N d' hop = Inr (r\<lparr>ro_interfaces := (ro_interfaces r)[N := (ro_interfaces r ! N)\<lparr>ai_interface := n\<rparr>]\<rparr>)"
    unfolding v(2) by blast
  from n assms(2) v(1) Some t show ?thesis
    by (auto simp: route_one_eq [OF assms(1,2)] routed_def outbox_def router_inv_def nth_list_update)
qed

lemma pop_datagram_ok:
  assumes "router_inv r" "M < length (ro_interfaces r)"
  shows "routed r [] (pop_datagram M r)" "\<forall>N<length (ro_interfaces r). inbox (pop_datagram M r) N = (if N = M then tl (inbox r N) else inbox r N)"
proof -
  have "set (tl ds) \<subseteq> set ds" for ds :: "IPv4Datagram list" by (cases ds) auto
  with assms show "routed r [] (pop_datagram M r)"
    by (fastforce simp: routed_def outbox_def pop_datagram_def router_inv_def nth_list_update)
qed (use assms in \<open>simp add: pop_datagram_def nth_list_update\<close>)

lemma route_queue_ok:
  assumes "zero_shift undef" "router_inv r" "M < length (ro_interfaces r)" "inbox r M = ds"
  shows "\<exists>r'. route_queue undef M ds r = Inr r' \<and> routed r ds r' \<and>
    (\<forall>N<length (ro_interfaces r). inbox r' N = (if N = M then [] else inbox r N))"
  using assms(2-)
proof (induction ds arbitrary: r)
  case Nil
  then show ?case by (auto simp: routed_def outbox_def)
next
  case (Cons d ds)
  have "dgram_ok d" using Cons.prems by (auto simp: router_inv_def)
  from route_one_ok [OF assms(1) Cons.prems(1) this] obtain r1 where r1: "route_one_datagram undef r d = Inr r1" "routed r [d] r1"
    "\<forall>N<length (ro_interfaces r). inbox r1 N = inbox r N" by blast
  have l: "length (ro_interfaces r1) = length (ro_interfaces r)" "router_inv r1" using r1(2) by (simp_all add: routed_def)
  let ?r2 = "pop_datagram M r1"
  have r2: "routed r1 [] ?r2" "\<forall>N<length (ro_interfaces r). inbox ?r2 N = (if N = M then tl (inbox r N) else inbox r N)"
    using pop_datagram_ok [of r1 M] l Cons.prems(2) r1(3) by auto
  have "length (ro_interfaces ?r2) = length (ro_interfaces r)" "router_inv ?r2" using r2(1) l by (simp_all add: routed_def)
  with Cons.IH [of ?r2] r2(2) Cons.prems(2,3) obtain r3 where r3: "route_queue undef M ds ?r2 = Inr r3" "routed ?r2 ds r3"
    "\<forall>N<length (ro_interfaces r). inbox r3 N = (if N = M then [] else inbox r N)" by auto
  have "routed r (d # ds) r3" using routed_trans [OF routed_trans [OF r1(2) r2(1)] r3(2)] by simp
  with r1(1) r3 show ?case by auto
qed

lemma route_loop_ok:
  assumes "zero_shift undef" "router_inv r" "distinct Ms" "set Ms \<subseteq> {..<length (ro_interfaces r)}"
  shows "\<exists>r'. route_loop undef Ms r = Inr r' \<and> routed r (concat (map (inbox r) Ms)) r' \<and>
    (\<forall>N<length (ro_interfaces r). inbox r' N = (if N \<in> set Ms then [] else inbox r N))"
  using assms(2-)
proof (induction Ms arbitrary: r)
  case Nil
  then show ?case by (auto simp: routed_def outbox_def)
next
  case (Cons M Ms)
  from route_queue_ok [OF assms(1) Cons.prems(1), of M] Cons.prems(3) obtain r1 where r1: "route_queue undef M (inbox r M) r = Inr r1"
    "routed r (inbox r M) r1" "\<forall>N<length (ro_interfaces r). inbox r1 N = (if N = M then [] else inbox r N)" by auto
  have l: "length (ro_interfaces r1) = length (ro_interfaces r)" "router_inv r1" using r1(2) by (simp_all add: routed_def)
  with Cons.IH [of r1] Cons.prems obtain r2 where r2: "route_loop undef Ms r1 = Inr r2" "routed r1 (concat (map (inbox r1) Ms)) r2"
    "\<forall>N<length (ro_interfaces r). inbox r2 N = (if N \<in> set Ms then [] else inbox r1 N)" by auto
  have "map (inbox r1) Ms = map (inbox r) Ms" using r1(3) Cons.prems by auto
  with routed_trans [OF r1(2) r2(2)] r1 r2 show ?case by auto
qed

section \<open>Properties\<close>





text \<open>On a machine that takes a shift count modulo 32, as x86 does, the mask of a full-length route is zero, so the route never
  covers the one address it names.\<close>

theorem host_route_never_matches:
  assumes "\<forall>w n. undef w n = push_bit (nat (n mod 32)) w" "rt_prefix_length rt = 32" "rt_route_prefix rt = ip" "ip \<noteq> 0"
  shows "match_loop undef ip 0 [rt] 0 None = None"
  using assms by (simp add: route_mask_def shift_left_def)

theorem host_route_never_matches_witness:
  "match_loop (\<lambda>w n. push_bit (nat (n mod 32)) w) 9 0
     [\<lparr>rt_route_prefix = 9, rt_prefix_length = 32, rt_next_hop = None, rt_interface_num = 0\<rparr>] 0 None = None"
  by (rule host_route_never_matches) simp_all

end
