(* ===== verification/Simulated_Network.thy ===== *)
theory Simulated_Network
  imports Network_Simulator Routing
begin

text \<open>
  Correctness of the simulated network of \<open>Network_Simulator\<close>: a host's check accepts exactly the datagrams it expected, the links carry each
  frame to all other members of the link, and a datagram that a host gives to its router is delivered, through address resolution on
  both links, to the host the routing table names. With it the whole run of the program succeeds.
\<close>

section \<open>What a host accepts\<close>

definition wire_bytes :: "IPv4Datagram \<Rightarrow> bytes" where
  "wire_bytes d = bl_str (dgram_payload d)"

lemma serialize_wire:
  "dgram_ok d \<Longrightarrow> IPv4Datagram_serialize d = Inr (dgram_payload d)" "bl_str (dgram_payload d) = wire_bytes d"
  using IPv4Datagram_serialize_ok [of d] by (auto simp: dgram_payload_def wire_bytes_def)

lemma expecting_ok:
  assumes "\<forall>x\<in>set xs. dgram_ok x" "dgram_ok d"
  shows "expecting xs d = Inr (wire_bytes d \<in> wire_bytes ` set xs)"
  using assms(1) by (induction xs) (auto simp: serialize_wire assms(2))

lemma remove_expectation_ok:
  assumes "\<forall>x\<in>set xs. dgram_ok x" "dgram_ok d"
  shows "\<exists>ys. remove_expectation xs d = Inr ys \<and> set ys \<subseteq> set xs \<and>
    mset (map wire_bytes ys) = mset (map wire_bytes xs) - {#wire_bytes d#}"
  using assms(1)
proof (induction xs)
  case (Cons x xs)
  then obtain ys where "remove_expectation xs d = Inr ys" "set ys \<subseteq> set xs" "mset (map wire_bytes ys) = mset (map wire_bytes xs) - {#wire_bytes d#}"
    by auto
  with Cons.prems show ?case by (auto simp: serialize_wire assms(2))
qed simp

lemma check_received_ok:
  assumes "\<forall>d\<in>set ds. dgram_ok d" "\<forall>x\<in>set (ho_expecting_to_receive h). dgram_ok x" "ai_datagrams_out (ho_interface h) = ds"
  shows "if mset (map wire_bytes ds) \<subseteq># mset (map wire_bytes (ho_expecting_to_receive h))
    then \<exists>ys. check_received ds h = Inr (h\<lparr>ho_expecting_to_receive := ys, ho_interface := (ho_interface h)\<lparr>ai_datagrams_out := []\<rparr>\<rparr>) \<and>
      mset (map wire_bytes ys) = mset (map wire_bytes (ho_expecting_to_receive h)) - mset (map wire_bytes ds)
    else \<exists>e. check_received ds h = Inl e"
  using assms
proof (induction ds arbitrary: h)
  case Nil
  then show ?case by (auto intro!: exI [of _ "ho_expecting_to_receive h"])
next
  case (Cons d ds)
  let ?xs = "ho_expecting_to_receive h"
  have e: "expecting ?xs d = Inr (wire_bytes d \<in> wire_bytes ` set ?xs)" using Cons.prems by (intro expecting_ok) auto
  show ?case
  proof (cases "wire_bytes d \<in> wire_bytes ` set ?xs")
    case False
    then have "\<not> mset (map wire_bytes (d # ds)) \<subseteq># mset (map wire_bytes ?xs)" by (auto dest: mset_subset_eqD)
    with False e show ?thesis by auto
  next
    case True
    obtain ys where ys: "remove_expectation ?xs d = Inr ys" "set ys \<subseteq> set ?xs" "mset (map wire_bytes ys) = mset (map wire_bytes ?xs) - {#wire_bytes d#}"
      using remove_expectation_ok [of ?xs d] Cons.prems by auto
    let ?h = "h\<lparr>ho_expecting_to_receive := ys, ho_interface := (ho_interface h)\<lparr>ai_datagrams_out := ds\<rparr>\<rparr>"
    have "wire_bytes d \<in># mset (map wire_bytes ?xs)" using True by simp
    then have "mset (map wire_bytes (d # ds)) \<subseteq># mset (map wire_bytes ?xs) \<longleftrightarrow> mset (map wire_bytes ds) \<subseteq># mset (map wire_bytes ys)"
      unfolding ys(3) by (simp add: insert_subset_eq_iff)
    moreover have "\<forall>x\<in>set ys. dgram_ok x" using Cons.prems(2) ys(2) by blast
    ultimately show ?thesis using Cons.IH [of ?h] Cons.prems(1,3) ys(1,3) True e by (simp split: if_splits)
  qed
qed

lemma host_check_ok:
  assumes "\<forall>d\<in>set (ai_datagrams_out (ho_interface h)). dgram_ok d" "\<forall>x\<in>set (ho_expecting_to_receive h). dgram_ok x"
  shows "(if mset (map wire_bytes (ai_datagrams_out (ho_interface h))) = mset (map wire_bytes (ho_expecting_to_receive h))
     then Host_check h = Inr (h\<lparr>ho_expecting_to_receive := [], ho_interface := (ho_interface h)\<lparr>ai_datagrams_out := []\<rparr>\<rparr>)
     else \<exists>message. Host_check h = Inl message)"
proof -
  note c = check_received_ok [OF assms refl]
  show ?thesis
  proof (cases "mset (map wire_bytes (ai_datagrams_out (ho_interface h))) \<subseteq># mset (map wire_bytes (ho_expecting_to_receive h))")
    case False
    with c show ?thesis by (auto simp: Host_check_def)
  next
    case True
    then have "mset (map wire_bytes (ho_expecting_to_receive h)) - mset (map wire_bytes (ai_datagrams_out (ho_interface h))) = {#} \<longleftrightarrow>
      mset (map wire_bytes (ai_datagrams_out (ho_interface h))) = mset (map wire_bytes (ho_expecting_to_receive h))"
      by (metis subset_mset.antisym subset_mset.diff_add Diff_eq_empty_iff_mset subset_mset.order_refl)
    with c True show ?thesis by (auto simp: Host_check_def)
  qed
qed

section \<open>Ports and links\<close>

text \<open>A port is an interface of the router or of a host; \<open>link\<close> numbers the link it is on by the interface of the router.\<close>

datatype port = RouterPort nat | HostPort string

definition host_links :: "(string \<times> nat) list" where
  "host_links = [(''default_router'', 0), (''applesauce'', 1), (''cherrypie'', 3), (''hs_router'', 5), (''dm42'', 4), (''dm43'', 4)]"

abbreviation host_names :: "string list" where
  "host_names \<equiv> map fst host_links"

fun link :: "port \<Rightarrow> nat" where
  "link (RouterPort N) = N"
| "link (HostPort name) = the (map_of host_links name)"

definition ports :: "port set" where
  "ports = RouterPort ` {..<7} \<union> HostPort ` set host_names"

definition attached :: "port \<Rightarrow> bool" where
  "attached p \<longleftrightarrow> p \<in> ports \<and> link p \<in> {0, 1, 3, 4, 5}"

fun port_at :: "Network \<Rightarrow> port \<Rightarrow> AsyncNetworkInterface" where
  "port_at nw (RouterPort N) = ro_interfaces (nw_router nw) ! N"
| "port_at nw (HostPort name) = ho_interface (the (nw_hosts nw name))"

text \<open>What of a network is not in its interfaces.\<close>

definition frame_of :: "Network \<Rightarrow> Network" where
  "frame_of nw = nw\<lparr>nw_router := (nw_router nw)\<lparr>ro_interfaces := map (\<lambda>_. undefined) (ro_interfaces (nw_router nw))\<rparr>,
     nw_hosts := (\<lambda>name. map_option (ho_interface_update (\<lambda>_. undefined)) (nw_hosts nw name))\<rparr>"

definition nw_shape :: "Network \<Rightarrow> bool" where
  "nw_shape nw \<longleftrightarrow> length (ro_interfaces (nw_router nw)) = 7 \<and> nw_default_id nw = 0 \<and> nw_eth0_id nw = 1 \<and> nw_eth2_id nw = 3 \<and>
     nw_uun3_id nw = 4 \<and> nw_hs4_id nw = 5 \<and> dom (nw_hosts nw) = set host_names \<and>
     (\<forall>name h. nw_hosts nw name = Some h \<longrightarrow> ho_name h = name)"

lemma frame_of_fields:
  assumes "frame_of nw' = frame_of nw"
  shows "ro_routes (nw_router nw') = ro_routes (nw_router nw)" "length (ro_interfaces (nw_router nw')) = length (ro_interfaces (nw_router nw))"
    "nw_default_id nw' = nw_default_id nw" "nw_eth0_id nw' = nw_eth0_id nw" "nw_eth2_id nw' = nw_eth2_id nw" "nw_uun3_id nw' = nw_uun3_id nw"
    "nw_hs4_id nw' = nw_hs4_id nw"
    "map_option (ho_interface_update (\<lambda>_. undefined)) (nw_hosts nw' name) = map_option (ho_interface_update (\<lambda>_. undefined)) (nw_hosts nw name)"
proof -
  have r: "nw_router (frame_of nw') = nw_router (frame_of nw)" and h: "nw_hosts (frame_of nw') name = nw_hosts (frame_of nw) name" using assms by simp_all
  from arg_cong [OF r, of ro_routes] show "ro_routes (nw_router nw') = ro_routes (nw_router nw)" by (simp add: frame_of_def)
  from arg_cong [OF r, of "\<lambda>r. length (ro_interfaces r)"] show "length (ro_interfaces (nw_router nw')) = length (ro_interfaces (nw_router nw))"
    by (simp add: frame_of_def)
  from h show "map_option (ho_interface_update (\<lambda>_. undefined)) (nw_hosts nw' name) = map_option (ho_interface_update (\<lambda>_. undefined)) (nw_hosts nw name)"
    by (simp add: frame_of_def)
  from arg_cong [OF assms, of nw_default_id] show "nw_default_id nw' = nw_default_id nw" by (simp add: frame_of_def)
  from arg_cong [OF assms, of nw_eth0_id] show "nw_eth0_id nw' = nw_eth0_id nw" by (simp add: frame_of_def)
  from arg_cong [OF assms, of nw_eth2_id] show "nw_eth2_id nw' = nw_eth2_id nw" by (simp add: frame_of_def)
  from arg_cong [OF assms, of nw_uun3_id] show "nw_uun3_id nw' = nw_uun3_id nw" by (simp add: frame_of_def)
  from arg_cong [OF assms, of nw_hs4_id] show "nw_hs4_id nw' = nw_hs4_id nw" by (simp add: frame_of_def)
qed

lemma frame_of_host:
  assumes "frame_of nw' = frame_of nw" "nw_hosts nw name = Some h"
  shows "\<exists>a. nw_hosts nw' name = Some (h\<lparr>ho_interface := a\<rparr>)"
proof -
  obtain h' where h': "nw_hosts nw' name = Some h'" "h'\<lparr>ho_interface := undefined\<rparr> = h\<lparr>ho_interface := undefined\<rparr>"
    using frame_of_fields(8) [OF assms(1), of name] assms(2) by auto
  from arg_cong [OF h'(2), of "ho_interface_update (\<lambda>_. ho_interface h')"] have "h' = h\<lparr>ho_interface := ho_interface h'\<rparr>" by simp
  with h'(1) show ?thesis by metis
qed

lemma frame_of_shape:
  assumes "frame_of nw' = frame_of nw" "nw_shape nw"
  shows "nw_shape nw'"
proof -
  have "nw_hosts nw' name = None \<longleftrightarrow> nw_hosts nw name = None" for name using frame_of_fields(8) [OF assms(1), of name] by (cases "nw_hosts nw name") auto
  then have "dom (nw_hosts nw') = dom (nw_hosts nw)" by (simp add: dom_def)
  moreover have "ho_name h = name" if "nw_hosts nw' name = Some h" for name h
    using frame_of_host [OF assms(1) [symmetric] that] assms(2) unfolding nw_shape_def by fastforce
  ultimately show ?thesis using assms(2) frame_of_fields(2-7) [OF assms(1)] unfolding nw_shape_def by simp
qed

lemma shape_host:
  assumes "nw_shape nw" "HostPort name \<in> ports"
  shows "\<exists>h. nw_hosts nw name = Some h \<and> host nw name = Inr h \<and> port_at nw (HostPort name) = ho_interface h"
proof -
  have "name \<in> dom (nw_hosts nw)" using assms by (auto simp: nw_shape_def ports_def)
  then obtain h where "nw_hosts nw name = Some h" by blast
  with assms(1) show ?thesis by (simp add: nw_shape_def host_def)
qed

lemma shape_interface: "nw_shape nw \<Longrightarrow> RouterPort N \<in> ports \<Longrightarrow> interface_at (nw_router nw) N = Inr (port_at nw (RouterPort N))"
  by (auto simp: nw_shape_def interface_at_def ports_def)

fun put :: "port \<Rightarrow> AsyncNetworkInterface \<Rightarrow> Network \<Rightarrow> Network" where
  "put (RouterPort N) a nw = set_interface nw N a"
| "put (HostPort name) a nw = set_host nw name ((the (nw_hosts nw name))\<lparr>ho_interface := a\<rparr>)"

lemma put_at:
  assumes "nw_shape nw" "p \<in> ports"
  shows "port_at (put p a nw) q = (if p = q then a else port_at nw q)" "frame_of (put p a nw) = frame_of nw" "put p (port_at nw p) nw = nw"
proof -
  consider (r) N where "p = RouterPort N" "N < length (ro_interfaces (nw_router nw))"
    | (h) name h where "p = HostPort name" "nw_hosts nw name = Some h"
    using assms shape_host [OF assms(1)] by (cases p) (fastforce simp: nw_shape_def ports_def)+
  note c = this
  from c show "port_at (put p a nw) q = (if p = q then a else port_at nw q)"
    by cases (cases q; simp add: set_interface_def set_host_def)+
  have m: "(map (\<lambda>_. u) xs)[N := u] = map (\<lambda>_. u) xs" for u :: 'b and xs :: "'c list" and N
    by (induction xs arbitrary: N) (simp_all split: nat.split)
  from c show "frame_of (put p a nw) = frame_of nw"
    by cases (simp_all add: set_interface_def set_host_def frame_of_def map_update m fun_eq_iff cong: if_cong)
  from c show "put p (port_at nw p) nw = nw"
    by cases (simp_all add: set_interface_def set_host_def fun_upd_idem)
qed

section \<open>One frame on a link\<close>

definition hushed :: "AsyncNetworkInterface \<Rightarrow> AsyncNetworkInterface" where
  "hushed a = a\<lparr>ai_interface := (ai_interface a)\<lparr>ni_frames_out := []\<rparr>\<rparr>"

lemma hushed_id: "out_frames a = [] \<Longrightarrow> hushed a = a"
  by (cases a; cases "ai_interface a") (simp add: hushed_def)

lemma clear_frames_simps [simp]:
  "clear_frames [] a = a" "out_frames a = [f] \<Longrightarrow> clear_frames [f] a = hushed a"
  by (simp_all add: clear_frames_def hushed_def)

lemma exchange_silent:
  assumes "out_frames x = []" "out_frames y = []"
  shows "exchange_frames x y = Inr (x, y)" "out_frames z = [] \<Longrightarrow> exchange_frames3 x y z = Inr (x, y, z)"
  using assms by (simp_all add: exchange_frames_def exchange_frames3_def)

lemma exchange_one:
  "out_frames x = [f] \<Longrightarrow> out_frames y = [] \<Longrightarrow> deliver [f] y = Inr y' \<Longrightarrow> exchange_frames x y = Inr (hushed x, y')"
  "out_frames x = [] \<Longrightarrow> out_frames y = [f] \<Longrightarrow> deliver [f] x = Inr x' \<Longrightarrow> exchange_frames x y = Inr (x', hushed y)"
  by (auto simp: exchange_frames_def simp del: deliver.simps(2))

lemma exchange_one3:
  "out_frames x = [f] \<Longrightarrow> out_frames y = [] \<Longrightarrow> out_frames z = [] \<Longrightarrow> deliver [f] y = Inr y' \<Longrightarrow> deliver [f] z = Inr z' \<Longrightarrow>
     exchange_frames3 x y z = Inr (hushed x, y', z')"
  "out_frames x = [] \<Longrightarrow> out_frames y = [f] \<Longrightarrow> out_frames z = [] \<Longrightarrow> deliver [f] x = Inr x' \<Longrightarrow> deliver [f] z = Inr z' \<Longrightarrow>
     exchange_frames3 x y z = Inr (x', hushed y, z')"
  "out_frames x = [] \<Longrightarrow> out_frames y = [] \<Longrightarrow> out_frames z = [f] \<Longrightarrow> deliver [f] x = Inr x' \<Longrightarrow> deliver [f] y = Inr y' \<Longrightarrow>
     exchange_frames3 x y z = Inr (x', y', hushed z)"
  by (auto simp: exchange_frames3_def simp del: deliver.simps(2))

text \<open>A frame has gone from a port to all others on its link, and nothing else has happened.\<close>

definition carries :: "port \<Rightarrow> EthernetFrame \<Rightarrow> Network \<Rightarrow> Network \<Rightarrow> bool" where
  "carries p f nw nw' \<longleftrightarrow> frame_of nw' = frame_of nw \<and> port_at nw' p = hushed (port_at nw p) \<and>
     (\<forall>q\<in>ports. q \<noteq> p \<longrightarrow> (if link q = link p then deliver [f] (port_at nw q) = Inr (port_at nw' q) else port_at nw' q = port_at nw q))"

definition sole_sender :: "port \<Rightarrow> EthernetFrame \<Rightarrow> Network \<Rightarrow> bool" where
  "sole_sender p f nw \<longleftrightarrow> p \<in> ports \<and> out_frames (port_at nw p) = [f] \<and> (\<forall>q\<in>ports. q \<noteq> p \<longrightarrow> out_frames (port_at nw q) = []) \<and>
     (\<forall>q\<in>ports. q \<noteq> p \<longrightarrow> link q = link p \<longrightarrow> (\<exists>a. deliver [f] (port_at nw q) = Inr a))"

lemma put_host_router:
  assumes "nw_shape nw" "HostPort name \<in> ports" "nw_hosts nw name = Some h"
  shows "set_host (set_interface nw N x) name (h\<lparr>ho_interface := y\<rparr>) = put (HostPort name) y (put (RouterPort N) x nw)"
  using assms(3) by (simp add: set_interface_def)

lemma connect_host_put:
  assumes "nw_shape nw" "RouterPort N \<in> ports" "HostPort name \<in> ports"
    "exchange_frames (port_at nw (RouterPort N)) (port_at nw (HostPort name)) = Inr (x, y)"
  shows "connect_host N name nw = Inr (put (HostPort name) y (put (RouterPort N) x nw))"
proof -
  obtain h where h: "nw_hosts nw name = Some h" "host nw name = Inr h" "port_at nw (HostPort name) = ho_interface h"
    using shape_host [OF assms(1,3)] by blast
  with assms(4) put_host_router [OF assms(1,3) h(1)] show ?thesis
    by (simp add: connect_host_def shape_interface [OF assms(1,2)] del: put.simps port_at.simps)
qed

lemma connect_hosts_put:
  assumes "nw_shape nw" "RouterPort N \<in> ports" "HostPort name1 \<in> ports" "HostPort name2 \<in> ports" "name1 \<noteq> name2"
    "exchange_frames3 (port_at nw (RouterPort N)) (port_at nw (HostPort name1)) (port_at nw (HostPort name2)) = Inr (x, y, z)"
  shows "connect_hosts N name1 name2 nw = Inr (put (HostPort name2) z (put (HostPort name1) y (put (RouterPort N) x nw)))"
proof -
  obtain h1 h2 where h: "nw_hosts nw name1 = Some h1" "host nw name1 = Inr h1" "port_at nw (HostPort name1) = ho_interface h1"
    "nw_hosts nw name2 = Some h2" "host nw name2 = Inr h2" "port_at nw (HostPort name2) = ho_interface h2"
    using shape_host [OF assms(1,3)] shape_host [OF assms(1,4)] by blast
  have "set_host (set_host (set_interface nw N x) name1 (h1\<lparr>ho_interface := y\<rparr>)) name2 (h2\<lparr>ho_interface := z\<rparr>) =
    put (HostPort name2) z (put (HostPort name1) y (put (RouterPort N) x nw))"
    using h(1,4) assms(5) by (simp add: set_interface_def set_host_def)
  with assms(6) h show ?thesis
    by (simp add: connect_hosts_def shape_interface [OF assms(1,2)] del: put.simps port_at.simps)
qed

lemma put_shape: "nw_shape nw \<Longrightarrow> p \<in> ports \<Longrightarrow> nw_shape (put p a nw)"
  using frame_of_shape [OF put_at(2)] .

lemma connect_host_silent:
  assumes "nw_shape nw" "RouterPort N \<in> ports" "HostPort name \<in> ports" "out_frames (port_at nw (RouterPort N)) = []" "out_frames (port_at nw (HostPort name)) = []"
  shows "connect_host N name nw = Inr nw"
proof -
  have "put (HostPort name) (port_at nw (HostPort name)) (put (RouterPort N) (port_at nw (RouterPort N)) nw) = nw"
    by (simp only: put_at(3) [OF assms(1,2)] put_at(3) [OF assms(1,3)])
  then show ?thesis using connect_host_put [OF assms(1-3) exchange_silent(1) [OF assms(4,5)]] by simp
qed

lemma connect_hosts_silent:
  assumes "nw_shape nw" "RouterPort N \<in> ports" "HostPort name1 \<in> ports" "HostPort name2 \<in> ports" "name1 \<noteq> name2"
    "out_frames (port_at nw (RouterPort N)) = []" "out_frames (port_at nw (HostPort name1)) = []" "out_frames (port_at nw (HostPort name2)) = []"
  shows "connect_hosts N name1 name2 nw = Inr nw"
proof -
  have "put (HostPort name2) (port_at nw (HostPort name2)) (put (HostPort name1) (port_at nw (HostPort name1))
    (put (RouterPort N) (port_at nw (RouterPort N)) nw)) = nw"
    by (simp only: put_at(3) [OF assms(1,2)] put_at(3) [OF assms(1,3)] put_at(3) [OF assms(1,4)])
  then show ?thesis using connect_hosts_put [OF assms(1-5) exchange_silent(2) [OF assms(6-8)]] by simp
qed

lemma carriesI:
  assumes "frame_of nw' = frame_of nw" "port_at nw' p = hushed (port_at nw p)" "\<And>q. q \<in> ports \<Longrightarrow> link q \<noteq> link p \<Longrightarrow> port_at nw' q = port_at nw q"
    "\<And>q. q \<in> ports \<Longrightarrow> link q = link p \<Longrightarrow> q \<noteq> p \<Longrightarrow> deliver [f] (port_at nw q) = Inr (port_at nw' q)"
  shows "carries p f nw nw'"
  using assms by (simp add: carries_def del: deliver.simps(2))

lemma sole_senderD:
  assumes "sole_sender p f nw"
  shows "p \<in> ports" "out_frames (port_at nw p) = [f]" "q \<in> ports \<Longrightarrow> q \<noteq> p \<Longrightarrow> out_frames (port_at nw q) = []"
    "q \<in> ports \<Longrightarrow> q \<noteq> p \<Longrightarrow> link q = link p \<Longrightarrow> \<exists>a. deliver [f] (port_at nw q) = Inr a"
  using assms unfolding sole_sender_def by blast+

lemma connect_host_carries:
  assumes "nw_shape nw" "\<And>q. q \<in> ports \<and> link q = N \<longleftrightarrow> q = RouterPort N \<or> q = HostPort name" "link p = N" "sole_sender p f nw"
  shows "\<exists>nw'. connect_host N name nw = Inr nw' \<and> carries p f nw nw'"
proof -
  let ?r = "RouterPort N" and ?h = "HostPort name"
  note s = sole_senderD [OF assms(4)]
  have m: "?r \<in> ports" "?h \<in> ports" "link ?r = N" "link ?h = N" and p: "p = ?r \<or> p = ?h" and mem: "q \<in> ports \<Longrightarrow> link q = N \<Longrightarrow> q = ?r \<or> q = ?h" for q
    using assms(2,3) s(1) by blast+
  have res: "\<exists>nw'. connect_host N name nw = Inr nw' \<and> carries p f nw nw'"
    if e: "exchange_frames (port_at nw ?r) (port_at nw ?h) = Inr (x, y)" and pq: "{p, q} = {?r, ?h}" and new: "(if p = ?r then x else y) = hushed (port_at nw p)"
      "deliver [f] (port_at nw q) = Inr (if p = ?r then y else x)" for q x y
  proof -
    let ?nw = "put ?h y (put ?r x nw)"
    note p1 = put_at(1,2) [OF assms(1) m(1)] and p2 = put_at(1,2) [OF put_shape [OF assms(1) m(1)] m(2)]
    have "carries p f nw ?nw"
    proof (rule carriesI)
      show "frame_of ?nw = frame_of nw" unfolding p2 p1 ..
      show "port_at ?nw p = hushed (port_at nw p)" using p new(1) unfolding p2 p1 by (auto simp del: port_at.simps)
      show "port_at ?nw r = port_at nw r" if "r \<in> ports" "link r \<noteq> link p" for r
        using that m assms(3) unfolding p2 p1 by (auto simp del: port_at.simps)
      show "deliver [f] (port_at nw r) = Inr (port_at ?nw r)" if r: "r \<in> ports" "link r = link p" "r \<noteq> p" for r
      proof -
        have "r = q" using mem [of r] r pq assms(3) by auto
        then show ?thesis using new(2) r(3) pq unfolding p2 p1 by (auto simp del: port_at.simps deliver.simps(2))
      qed
    qed
    then show ?thesis using connect_host_put [OF assms(1) m(1,2) e] by blast
  qed
  show ?thesis
  proof (cases "p = ?r")
    case True
    obtain y where "deliver [f] (port_at nw ?h) = Inr y" using s(4) [of ?h] m True by auto
    with res [of "hushed (port_at nw ?r)" y ?h] exchange_one(1) s(2,3) True m show ?thesis by (simp del: deliver.simps(2) port_at.simps)
  next
    case False
    then have h: "p = ?h" using p by blast
    obtain x where "deliver [f] (port_at nw ?r) = Inr x" using s(4) [of ?r] m False h by auto
    with res [of x "hushed (port_at nw ?h)" ?r] exchange_one(2) s(2,3) h m show ?thesis
      by (simp add: insert_commute del: deliver.simps(2) port_at.simps)
  qed
qed

lemma connect_hosts_carries:
  assumes "nw_shape nw" "\<And>q. q \<in> ports \<and> link q = N \<longleftrightarrow> q = RouterPort N \<or> q = HostPort name1 \<or> q = HostPort name2" "name1 \<noteq> name2"
    "link p = N" "sole_sender p f nw"
  shows "\<exists>nw'. connect_hosts N name1 name2 nw = Inr nw' \<and> carries p f nw nw'"
proof -
  let ?r = "RouterPort N" and ?h1 = "HostPort name1" and ?h2 = "HostPort name2"
  note s = sole_senderD [OF assms(5)]
  have m: "?r \<in> ports" "?h1 \<in> ports" "?h2 \<in> ports" "link ?r = N" "link ?h1 = N" "link ?h2 = N" and p: "p = ?r \<or> p = ?h1 \<or> p = ?h2"
    and mem: "q \<in> ports \<Longrightarrow> link q = N \<Longrightarrow> q = ?r \<or> q = ?h1 \<or> q = ?h2" for q
    using assms(2,4) s(1) by blast+
  define v where "v q = (if q = p then hushed (port_at nw p) else projr (deliver [f] (port_at nw q)))" for q
  have v: "deliver [f] (port_at nw q) = Inr (v q)" if "q \<in> ports" "q \<noteq> p" "link q = N" for q
    using s(4) [OF that(1,2)] that assms(4) unfolding v_def by (auto simp del: deliver.simps(2))
  have vp: "v p = hushed (port_at nw p)" by (simp add: v_def)
  have d: "deliver [f] (port_at nw q) = Inr (v q) \<and> out_frames (port_at nw q) = []" if "q = ?r \<or> q = ?h1 \<or> q = ?h2" "q \<noteq> p" for q
    using that v s(3) m by blast
  have e: "exchange_frames3 (port_at nw ?r) (port_at nw ?h1) (port_at nw ?h2) = Inr (v ?r, v ?h1, v ?h2)"
    using p d [of ?r] d [of ?h1] d [of ?h2] s(2) vp assms(3)
    by (elim disjE; simp add: exchange_one3 del: deliver.simps(2) port_at.simps)
  let ?n1 = "put ?r (v ?r) nw" and ?n2 = "put ?h1 (v ?h1) (put ?r (v ?r) nw)"
  let ?nw = "put ?h2 (v ?h2) ?n2"
  have sh: "nw_shape ?n1" "nw_shape ?n2" using put_shape assms(1) m(1,2) by blast+
  note a = put_at(1,2) [OF assms(1) m(1)] put_at(1,2) [OF sh(1) m(2)] put_at(1,2) [OF sh(2) m(3)]
  have at: "port_at ?nw q = (if q = ?r \<or> q = ?h1 \<or> q = ?h2 then v q else port_at nw q)" for q unfolding a by auto
  have "carries p f nw ?nw"
  proof (rule carriesI)
    show "frame_of ?nw = frame_of nw" unfolding a ..
    show "port_at ?nw p = hushed (port_at nw p)" using p vp unfolding at by simp
    show "port_at ?nw q = port_at nw q" if "q \<in> ports" "link q \<noteq> link p" for q using that m(4-6) assms(4) unfolding at by auto
    show "deliver [f] (port_at nw q) = Inr (port_at ?nw q)" if q: "q \<in> ports" "link q = link p" "q \<noteq> p" for q
      using v [OF q(1,3)] q(2) mem [OF q(1)] assms(4) unfolding at by (simp del: deliver.simps(2))
  qed
  then show ?thesis using connect_hosts_put [OF assms(1) m(1-3) assms(3) e] by blast
qed

section \<open>One frame in the network\<close>

lemma port_simps [simp]:
  "RouterPort N \<in> ports \<longleftrightarrow> N < 7" "HostPort name \<in> ports \<longleftrightarrow> name \<in> set host_names"
  by (auto simp: ports_def)

lemma link_members:
  "q \<in> ports \<and> link q = 0 \<longleftrightarrow> q = RouterPort 0 \<or> q = HostPort ''default_router''"
  "q \<in> ports \<and> link q = 1 \<longleftrightarrow> q = RouterPort 1 \<or> q = HostPort ''applesauce''"
  "q \<in> ports \<and> link q = 3 \<longleftrightarrow> q = RouterPort 3 \<or> q = HostPort ''cherrypie''"
  "q \<in> ports \<and> link q = 5 \<longleftrightarrow> q = RouterPort 5 \<or> q = HostPort ''hs_router''"
  "q \<in> ports \<and> link q = 4 \<longleftrightarrow> q = RouterPort 4 \<or> q = HostPort ''dm42'' \<or> q = HostPort ''dm43''"
  by (cases q; auto simp: host_links_def split: if_splits)+

definition silent :: "Network \<Rightarrow> bool" where
  "silent nw \<longleftrightarrow> (\<forall>q\<in>ports. out_frames (port_at nw q) = [])"

text \<open>The five exchanges, with the members of their links.\<close>

lemma connect_silent:
  assumes "nw_shape nw" "\<And>q. q \<in> ports \<Longrightarrow> link q = N \<Longrightarrow> out_frames (port_at nw q) = []"
  shows "N = 0 \<Longrightarrow> connect_host N ''default_router'' nw = Inr nw" "N = 1 \<Longrightarrow> connect_host N ''applesauce'' nw = Inr nw"
    "N = 3 \<Longrightarrow> connect_host N ''cherrypie'' nw = Inr nw" "N = 5 \<Longrightarrow> connect_host N ''hs_router'' nw = Inr nw"
    "N = 4 \<Longrightarrow> connect_hosts N ''dm42'' ''dm43'' nw = Inr nw"
  by ((rule connect_host_silent connect_hosts_silent; (rule assms)?; simp add: host_links_def)+)

lemma connections_silent: "nw_shape nw \<Longrightarrow> silent nw \<Longrightarrow> simulate_physical_connections nw = Inr nw"
  using connect_silent [of nw] by (simp add: simulate_physical_connections_def nw_shape_def silent_def)

lemma connections_carry:
  assumes "nw_shape nw" "sole_sender p f nw" "attached p"
  shows "\<exists>nw'. simulate_physical_connections nw = Inr nw' \<and> carries p f nw nw'"
proof -
  have before: "out_frames (port_at nw q) = []" if "N \<noteq> link p" "q \<in> ports" "link q = N" for q N
    using that sole_senderD(3) [OF assms(2)] by blast
  have after: "nw_shape nw'" "N \<noteq> link p \<Longrightarrow> q \<in> ports \<Longrightarrow> link q = N \<Longrightarrow> out_frames (port_at nw' q) = []" if c: "carries p f nw nw'" for q N nw'
  proof -
    show "nw_shape nw'" using frame_of_shape [OF _ assms(1)] c unfolding carries_def by blast
    show "out_frames (port_at nw' q) = []" if "N \<noteq> link p" "q \<in> ports" "link q = N" using c that before [OF that] unfolding carries_def by metis
  qed
  note idle = connect_silent [OF assms(1) before] and idle' = connect_silent [OF after]
  note active = connect_host_carries [OF assms(1) link_members(1) _ assms(2)] connect_host_carries [OF assms(1) link_members(2) _ assms(2)]
    connect_host_carries [OF assms(1) link_members(3) _ assms(2)] connect_host_carries [OF assms(1) link_members(4) _ assms(2)]
    connect_hosts_carries [OF assms(1) link_members(5) _ _ assms(2)]
  have ids: "nw_default_id n = 0" "nw_eth0_id n = 1" "nw_eth2_id n = 3" "nw_hs4_id n = 5" "nw_uun3_id n = 4" if "nw_shape n" for n
    using that by (simp_all add: nw_shape_def)
  have "link p = 0 \<or> link p = 1 \<or> link p = 3 \<or> link p = 5 \<or> link p = 4" using assms(3) by (auto simp: attached_def)
  then show ?thesis
  proof (elim disjE)
    assume l: "link p = 0"
    with active(1) obtain nw' where c: "connect_host 0 ''default_router'' nw = Inr nw'" "carries p f nw nw'" by blast
    with l ids(1) [OF assms(1)] show ?thesis using idle'(2-5) [OF c(2) c(2)] ids [OF after(1) [OF c(2)]]
      by (simp add: simulate_physical_connections_def)
  next
    assume l: "link p = 1"
    with active(2) obtain nw' where c: "connect_host 1 ''applesauce'' nw = Inr nw'" "carries p f nw nw'" by blast
    with l idle(1) ids [OF assms(1)] show ?thesis using idle'(3-5) [OF c(2) c(2)] ids [OF after(1) [OF c(2)]]
      by (simp add: simulate_physical_connections_def)
  next
    assume l: "link p = 3"
    with active(3) obtain nw' where c: "connect_host 3 ''cherrypie'' nw = Inr nw'" "carries p f nw nw'" by blast
    with l idle(1,2) ids [OF assms(1)] show ?thesis using idle'(4-5) [OF c(2) c(2)] ids [OF after(1) [OF c(2)]]
      by (simp add: simulate_physical_connections_def)
  next
    assume l: "link p = 5"
    with active(4) obtain nw' where c: "connect_host 5 ''hs_router'' nw = Inr nw'" "carries p f nw nw'" by blast
    with l idle(1-3) ids [OF assms(1)] show ?thesis using idle'(5) [OF c(2) c(2)] ids [OF after(1) [OF c(2)]]
      by (simp add: simulate_physical_connections_def)
  next
    assume l: "link p = 4"
    with active(5) obtain nw' where c: "connect_hosts 4 ''dm42'' ''dm43'' nw = Inr nw'" "carries p f nw nw'" by auto
    with l idle(1-4) ids [OF assms(1)] show ?thesis by (simp add: simulate_physical_connections_def)
  qed
qed

section \<open>Rounds in which nothing is routed\<close>

definition unrouted :: "Network \<Rightarrow> bool" where
  "unrouted nw \<longleftrightarrow> (\<forall>N<7. ai_datagrams_out (port_at nw (RouterPort N)) = [])"

lemma route_nothing:
  assumes "\<forall>N\<in>set Ns. ai_datagrams_out (ro_interfaces r ! N) = []"
  shows "route_loop undef Ns r = Inr r"
  using assms by (induction Ns) simp_all

lemma router_idle: "nw_shape nw \<Longrightarrow> unrouted nw \<Longrightarrow> Router_route undef (nw_router nw) = Inr (nw_router nw)"
  by (simp add: Router_route_def unrouted_def nw_shape_def route_nothing)

lemma round_unrouted:
  assumes "nw_shape nw" "unrouted nw" "simulate_physical_connections nw = Inr nw'"
  shows "simulate_rounds undef (Suc i) nw = simulate_rounds undef i nw'"
  using assms by (simp add: router_idle)

lemma rounds_still:
  assumes "nw_shape nw" "unrouted nw" "silent nw"
  shows "simulate_rounds undef i nw = Inr nw"
proof (induction i)
  case (Suc i)
  then show ?case using round_unrouted [OF assms(1,2) connections_silent [OF assms(1,3)], of undef i] by (simp only:)
qed simp

section \<open>What a frame does to an interface\<close>

definition like :: "IPv4Datagram \<Rightarrow> IPv4Datagram \<Rightarrow> bool" where
  "like d' d \<longleftrightarrow> dg_header d' = (dg_header d)\<lparr>ih_cksum := ih_cksum (dg_header d')\<rparr> \<and> bl_str (dg_payload d') = bl_str (dg_payload d)"

lemma like_trans: "like c b \<Longrightarrow> like b a \<Longrightarrow> like c a"
proof -
  assume "like c b" "like b a"
  then have c: "dg_header c = (dg_header b)\<lparr>ih_cksum := ih_cksum (dg_header c)\<rparr>" and b: "dg_header b = (dg_header a)\<lparr>ih_cksum := ih_cksum (dg_header b)\<rparr>"
    and "bl_str (dg_payload c) = bl_str (dg_payload a)" by (simp_all only: like_def)
  moreover from arg_cong [OF b, of "ih_cksum_update (\<lambda>_. ih_cksum (dg_header c))"] c
  have "dg_header c = (dg_header a)\<lparr>ih_cksum := ih_cksum (dg_header c)\<rparr>" by simp
  ultimately show "like c a" by (simp only: like_def)
qed

lemma like_header:
  assumes "like d' d"
  shows "ih_ttl (dg_header d') = ih_ttl (dg_header d)" "ih_dst (dg_header d') = ih_dst (dg_header d)" "like (aged d') (aged d)"
proof -
  obtain c where c: "dg_header d' = (dg_header d)\<lparr>ih_cksum := c\<rparr>" "bl_str (dg_payload d') = bl_str (dg_payload d)" using assms by (auto simp: like_def)
  then show "ih_ttl (dg_header d') = ih_ttl (dg_header d)" "ih_dst (dg_header d') = ih_dst (dg_header d)" "like (aged d') (aged d)"
    by (simp_all add: like_def aged_def)
qed

lemma like_wire:
  assumes "like d' d" "dgram_ok d'" "dgram_ok d"
  shows "wire_bytes d' = wire_bytes d"
proof -
  obtain c where c: "dg_header d' = (dg_header d)\<lparr>ih_cksum := c\<rparr>" "bl_str (dg_payload d') = bl_str (dg_payload d)" using assms(1) by (auto simp: like_def)
  have "bl_str bl' = bl_str bl" if "IPv4Datagram_serialize d' = Inr bl'" "IPv4Datagram_serialize d = Inr bl" for bl bl'
    using that c by (auto simp: IPv4Datagram_serialize_def Let_def and_then_Inr_iff split: if_splits)
  from this [OF serialize_wire(1) [OF assms(2)] serialize_wire(1) [OF assms(3)]] show ?thesis by (simp add: wire_bytes_def)
qed

lemma repacked: "BufferList_to_Buffer (BufferList_of_string s) = Inr (Buffer_of s)"
  by (simp add: BufferList_to_Buffer_def BufferList_of_string_def BufferList_append_def BufferList_of_Buffer_def)

lemma deliver_one:
  "deliver [f] a = AsyncNetworkInterface_recv_frame a (f\<lparr>ef_payload := BufferList_of_string (BufferList_concatenate (ef_payload f))\<rparr>)"
  by (cases "AsyncNetworkInterface_recv_frame a (f\<lparr>ef_payload := BufferList_of_string (BufferList_concatenate (ef_payload f))\<rparr>)") simp_all

lemma deliver_message:
  assumes "ni_inv (ai_interface a)" "arp_ok m" "dst = ni_ethernet_address (ai_interface a) \<or> dst = ETHERNET_BROADCAST"
  shows "deliver [message_frame s dst m] a = Inr (a\<lparr>ai_interface := after_arp (ai_interface a) m\<rparr>)" "ni_inv (after_arp (ai_interface a) m)"
proof -
  let ?f = "(message_frame s dst m)\<lparr>ef_payload := BufferList_of_string (arp_bytes m)\<rparr>"
  have "ARPMessage_parse ARPMessage_default (Buffer_of (arp_bytes m)) = Inr (NoError, m)"
    using assms(2) by (intro ARPMessage_parse_bytes) (simp_all add: arp_bytes_def arp_ok_def)
  moreover have "BufferList_to_Buffer (ef_payload ?f) = Inr (Buffer_of (arp_bytes m))"
    by (simp add: repacked)
  ultimately have "recv_frame (ai_interface a) ?f = Inr (None, after_arp (ai_interface a) m)" "ni_inv (after_arp (ai_interface a) m)"
    using assms recv_arp_ok [OF assms(1,2), of ?f "Buffer_of (arp_bytes m)"] by (simp_all add: message_frame_def)
  then show "deliver [message_frame s dst m] a = Inr (a\<lparr>ai_interface := after_arp (ai_interface a) m\<rparr>)" "ni_inv (after_arp (ai_interface a) m)"
    by (simp_all add: deliver_one AsyncNetworkInterface_recv_frame_def message_frame_def del: deliver.simps(2))
qed

lemma deliver_ignored:
  assumes "eh_dst (ef_header f) \<noteq> ni_ethernet_address (ai_interface a)" "eh_dst (ef_header f) \<noteq> ETHERNET_BROADCAST"
  shows "deliver [f] a = Inr a"
  using assms by (cases a) (simp add: AsyncNetworkInterface_recv_frame_def recv_frame_def)

lemma deliver_data:
  assumes d: "dgram_ok d" and dst: "dst = ni_ethernet_address (ai_interface a)"
  shows "\<exists>d'. deliver [data_frame s dst d] a = Inr (a\<lparr>ai_datagrams_out := ai_datagrams_out a @ [d']\<rparr>) \<and> like d' d \<and> dgram_ok d'"
proof -
  obtain bl c where bl: "IPv4Datagram_serialize d = Inr bl" "bl_str bl = ip_header_bytes ((dg_header d)\<lparr>ih_cksum := c\<rparr>) @ bl_str (dg_payload d)"
    "length (bl_str bl) = unat (ih_len (dg_header d))" "cksum_of 0 (ip_header_bytes ((dg_header d)\<lparr>ih_cksum := c\<rparr>)) = 0"
    using IPv4Datagram_serialize_ok [OF d] by blast
  have len: "length (bl_str bl) < 65536" unfolding bl(3) using unsigned_less [where 'a = nat, of "ih_len (dg_header d)"] by simp
  have h: "ip_header_ok ((dg_header d)\<lparr>ih_cksum := c\<rparr>)"
    "4 * unat (ih_hlen ((dg_header d)\<lparr>ih_cksum := c\<rparr>)) + length (bl_str (dg_payload d)) = unat (ih_len ((dg_header d)\<lparr>ih_cksum := c\<rparr>))"
    using d by (simp_all add: dgram_ok_def ip_header_ok_def)
  have "buf_inv (Buffer_of (bl_str bl))" using len by simp
  from IPv4Datagram_parse_wire [OF this _ h bl(4), of IPv4Datagram_default] bl(2) obtain d' q where
    d': "IPv4Datagram_parse IPv4Datagram_default (Buffer_of (bl_str bl)) = Inr (NoError, d')" "dg_header d' = (dg_header d)\<lparr>ih_cksum := c\<rparr>"
    "bl_str (dg_payload d') = bl_str (dg_payload d)" "dg_payload d' = BufferList_of_Buffer q" "buf_inv q" by auto
  have "dgram_ok d'" using h d'(2-5) by (simp add: dgram_ok_def)
  moreover have "like d' d" using d'(2,3) by (simp add: like_def)
  moreover have "deliver [data_frame s dst d] a = Inr (a\<lparr>ai_datagrams_out := ai_datagrams_out a @ [d']\<rparr>)"
    using d'(1) dst bl(1) by (cases a) (simp add: AsyncNetworkInterface_recv_frame_def recv_frame_def data_frame_def dgram_payload_def repacked)
  ultimately show ?thesis by blast
qed

section \<open>Interfaces at rest\<close>

fun port_ip :: "port \<Rightarrow> 32 word" where
  "port_ip (RouterPort N) = [ip 171 67 76 46, ip 10 0 0 1, ip 172 16 0 1, ip 192 168 0 1, ip 198 178 229 1, ip 143 195 0 2, ip 128 30 76 255] ! N"
| "port_ip (HostPort name) = the (map_of [(''applesauce'', ip 10 0 0 2), (''default_router'', ip 171 67 76 1), (''cherrypie'', ip 192 168 0 2),
     (''hs_router'', ip 143 195 0 1), (''dm42'', ip 198 178 229 42), (''dm43'', ip 198 178 229 43)] name)"

lemma port_ip_inj:
  assumes "p \<in> ports" "q \<in> ports" "link p = link q" "port_ip p = port_ip q"
  shows "p = q"
  using assms by (cases p; cases q) (auto simp: host_links_def ip_def split: if_splits)

declare port_ip.simps [simp del]

text \<open>No two members of a link with more than two have the same hardware address, and none has the broadcast address.\<close>

definition private_addresses :: "(port \<Rightarrow> EthernetAddress) \<Rightarrow> bool" where
  "private_addresses E \<longleftrightarrow> (\<forall>p\<in>ports. length (E p) = 6) \<and>
     (\<forall>p\<in>ports. \<forall>q\<in>ports. \<forall>r\<in>ports. link p = link q \<and> link q = link r \<and> p \<noteq> q \<and> q \<noteq> r \<and> p \<noteq> r \<longrightarrow> E p \<noteq> E r \<and> E p \<noteq> ETHERNET_BROADCAST)"

definition neighbour :: "port \<Rightarrow> port \<Rightarrow> bool" where
  "neighbour p q \<longleftrightarrow> p \<in> ports \<and> q \<in> ports \<and> p \<noteq> q \<and> link p = link q"

text \<open>An interface that waits for no address and whose cache holds only addresses of its neighbours.\<close>

definition calm :: "(port \<Rightarrow> EthernetAddress) \<Rightarrow> port \<Rightarrow> NetworkInterface \<Rightarrow> bool" where
  "calm E p n \<longleftrightarrow> ni_inv n \<and> ni_ethernet_address n = E p \<and> ad_ip (ni_ip_address n) = port_ip p \<and> ni_waiting_dgrams n = Map.empty \<and>
     (\<forall>x r. ni_ip_eth_map n x = Some r \<longrightarrow> (\<exists>q. neighbour p q \<and> x = port_ip q \<and> re_addr r = E q))"

abbreviation calm_at :: "(port \<Rightarrow> EthernetAddress) \<Rightarrow> Network \<Rightarrow> port \<Rightarrow> bool" where
  "calm_at E nw p \<equiv> calm E p (ai_interface (port_at nw p))"

abbreviation inbox_at :: "Network \<Rightarrow> port \<Rightarrow> IPv4Datagram list" where
  "inbox_at nw p \<equiv> ai_datagrams_out (port_at nw p)"

lemma calm_hushed [simp]: "calm E p (ai_interface (hushed a)) = calm E p (ai_interface a)"
  by (simp add: calm_def hushed_def frames_inv)

lemma hushed_fields [simp]: "ai_datagrams_out (hushed a) = ai_datagrams_out a" "out_frames (hushed a) = []"
  by (simp_all add: hushed_def)

definition answer_to :: "NetworkInterface \<Rightarrow> EthernetAddress \<Rightarrow> 32 word \<Rightarrow> EthernetFrame" where
  "answer_to n eth x = message_frame n eth (reply_msg n eth x)"

lemma calm_after_arp:
  assumes "calm E q n" "neighbour q s" "private_addresses E" "ar_sender_ip_address m = port_ip s" "ar_sender_ethernet_address m = E s" "arp_ok m"
  shows "calm E q (after_arp n m)"
    "ni_frames_out (after_arp n m) = ni_frames_out n @
      (if ar_opcode m = OPCODE_REQUEST \<and> ar_target_ip_address m = port_ip q then [answer_to n (E s) (port_ip s)] else [])"
proof -
  have inv: "ni_inv n" and w: "ni_waiting_dgrams n = Map.empty" using assms(1) by (simp_all add: calm_def)
  let ?a = "AsyncNetworkInterface_of n"
  have "ni_inv (after_arp n m)" using deliver_message(2) [of ?a m "E q"] inv assms(1,6) by (simp add: AsyncNetworkInterface_of_def calm_def)
  then show "calm E q (after_arp n m)" using assms by (auto simp: calm_def after_arp_def Let_def)
  show "ni_frames_out (after_arp n m) = ni_frames_out n @
      (if ar_opcode m = OPCODE_REQUEST \<and> ar_target_ip_address m = port_ip q then [answer_to n (E s) (port_ip s)] else [])"
    using assms w by (simp add: calm_def after_arp_def Let_def ni_queue_def answer_to_def)
qed

text \<open>What every member of the network does with a frame when only one port sends.\<close>

lemma third_party:
  assumes "private_addresses E" "neighbour p q" "neighbour p r" "q \<noteq> r" "calm E r (ai_interface a)" "eh_dst (ef_header f) = E q"
  shows "deliver [f] a = Inr a"
proof -
  have "E q \<noteq> E r" "E q \<noteq> ETHERNET_BROADCAST" using assms(1-4) unfolding private_addresses_def neighbour_def by metis+
  then show ?thesis using assms(5,6) by (intro deliver_ignored) (simp_all add: calm_def)
qed

section \<open>Phases of a hop\<close>

lemma one_frame:
  assumes "nw_shape s" "attached p" "out_frames (port_at s p) = [f]" "\<And>r. r \<in> ports \<Longrightarrow> r \<noteq> p \<Longrightarrow> out_frames (port_at s r) = []"
    "\<And>r. neighbour p r \<Longrightarrow> deliver [f] (port_at s r) = Inr (g r)"
  shows "\<exists>s'. simulate_physical_connections s = Inr s' \<and> frame_of s' = frame_of s \<and> port_at s' p = hushed (port_at s p) \<and>
    (\<forall>r. neighbour p r \<longrightarrow> port_at s' r = g r) \<and> (\<forall>r\<in>ports. r \<noteq> p \<longrightarrow> \<not> neighbour p r \<longrightarrow> port_at s' r = port_at s r)"
proof -
  have p: "p \<in> ports" using assms(2) by (simp add: attached_def)
  then have n: "neighbour p r \<longleftrightarrow> r \<in> ports \<and> r \<noteq> p \<and> link r = link p" for r by (auto simp: neighbour_def)
  have "sole_sender p f s" using assms(3-5) p unfolding sole_sender_def n by blast
  from connections_carry [OF assms(1) this assms(2)] obtain s' where s': "simulate_physical_connections s = Inr s'" "carries p f s s'" by blast
  have "port_at s' r = g r" if "neighbour p r" for r
    using that assms(5) [OF that] s'(2) unfolding carries_def n by (auto simp del: deliver.simps(2) port_at.simps)
  moreover have "port_at s' r = port_at s r" if "r \<in> ports" "r \<noteq> p" "\<not> neighbour p r" for r
    using that s'(2) unfolding carries_def n by (auto simp del: deliver.simps(2) port_at.simps)
  ultimately show ?thesis using s' unfolding carries_def by blast
qed

text \<open>A data frame reaches its destination.\<close>

lemma data_phase:
  assumes E: "private_addresses E" and s: "nw_shape s" "attached p" "neighbour p q" and calm: "\<And>r. r \<in> ports \<Longrightarrow> calm_at E s r"
    and out: "out_frames (port_at s p) = [data_frame n (E q) d]" "\<And>r. r \<in> ports \<Longrightarrow> r \<noteq> p \<Longrightarrow> out_frames (port_at s r) = []" and d: "dgram_ok d"
  shows "\<exists>s' d'. simulate_physical_connections s = Inr s' \<and> frame_of s' = frame_of s \<and> (\<forall>r\<in>ports. calm_at E s' r) \<and> silent s' \<and>
    (\<forall>r\<in>ports. inbox_at s' r = inbox_at s r @ (if r = q then [d'] else [])) \<and> like d' d \<and> dgram_ok d'"
proof -
  have pq: "q \<in> ports" "p \<in> ports" "p \<noteq> q" using s(3) by (simp_all add: neighbour_def)
  have "E q = ni_ethernet_address (ai_interface (port_at s q))" using calm [OF pq(1)] by (simp add: calm_def)
  from deliver_data [OF d this, of n] obtain d' where
    d': "deliver [data_frame n (E q) d] (port_at s q) = Inr ((port_at s q)\<lparr>ai_datagrams_out := inbox_at s q @ [d']\<rparr>)" "like d' d" "dgram_ok d'" by blast
  define g where "g r = (if r = q then (port_at s q)\<lparr>ai_datagrams_out := inbox_at s q @ [d']\<rparr> else port_at s r)" for r
  have g: "deliver [data_frame n (E q) d] (port_at s r) = Inr (g r)" if "neighbour p r" for r
  proof (cases "r = q")
    case False
    moreover have "calm_at E s r" using calm that by (simp add: neighbour_def)
    ultimately show ?thesis using third_party [OF E s(3) that, of "port_at s r" "data_frame n (E q) d"]
      by (simp add: g_def data_frame_def del: deliver.simps(2) port_at.simps)
  qed (simp add: g_def d'(1) del: deliver.simps(2))
  from one_frame [OF s(1,2) out g] obtain s' where s': "simulate_physical_connections s = Inr s'" "frame_of s' = frame_of s"
    "port_at s' p = hushed (port_at s p)" "\<And>r. neighbour p r \<Longrightarrow> port_at s' r = g r"
    "\<And>r. r \<in> ports \<Longrightarrow> r \<noteq> p \<Longrightarrow> \<not> neighbour p r \<Longrightarrow> port_at s' r = port_at s r" by blast
  have at: "port_at s' r = (if r = p then hushed (port_at s p) else g r)" if "r \<in> ports" for r
    using s'(3) s'(4,5) [of r] that s(3) unfolding g_def by (cases "neighbour p r") auto
  have "calm_at E s' r \<and> out_frames (port_at s' r) = [] \<and> inbox_at s' r = inbox_at s r @ (if r = q then [d'] else [])" if "r \<in> ports" for r
    using at [OF that] calm [OF that] out(2) [OF that] pq by (auto simp: g_def simp del: port_at.simps)
  then show ?thesis using s'(1,2) d'(2,3) unfolding silent_def by blast
qed

text \<open>A request reaches every neighbour, and the one it asks for answers.\<close>

lemma request_phase:
  assumes E: "private_addresses E" and s: "nw_shape s" "attached p" "neighbour p q" and calm: "\<And>r. r \<in> ports \<Longrightarrow> r \<noteq> p \<Longrightarrow> calm_at E s r"
    and n: "ni_ethernet_address n = E p" "ad_ip (ni_ip_address n) = port_ip p"
    and out: "out_frames (port_at s p) = [message_frame n ETHERNET_BROADCAST (request_msg n (port_ip q))]"
      "\<And>r. r \<in> ports \<Longrightarrow> r \<noteq> p \<Longrightarrow> out_frames (port_at s r) = []"
  shows "\<exists>s' n'. simulate_physical_connections s = Inr s' \<and> frame_of s' = frame_of s \<and> (\<forall>r\<in>ports. r \<noteq> p \<longrightarrow> calm_at E s' r) \<and>
    port_at s' p = hushed (port_at s p) \<and> (\<forall>r\<in>ports. inbox_at s' r = inbox_at s r) \<and>
    out_frames (port_at s' q) = [answer_to n' (E p) (port_ip p)] \<and> calm E q n' \<and> (\<forall>r\<in>ports. r \<noteq> q \<longrightarrow> out_frames (port_at s' r) = [])"
proof -
  let ?m = "request_msg n (port_ip q)"
  have pq: "q \<in> ports" "p \<in> ports" "p \<noteq> q" using s(3) by (simp_all add: neighbour_def)
  have m: "arp_ok ?m" "ar_sender_ip_address ?m = port_ip p" "ar_sender_ethernet_address ?m = E p" "ar_opcode ?m = OPCODE_REQUEST" "ar_target_ip_address ?m = port_ip q"
    using n E pq(2) by (simp_all add: private_addresses_def) (simp_all add: request_msg_def)
  define g where "g r = (port_at s r)\<lparr>ai_interface := after_arp (ai_interface (port_at s r)) ?m\<rparr>" for r
  have nb: "neighbour r p \<and> r \<in> ports \<and> r \<noteq> p" if "neighbour p r" for r using that by (auto simp: neighbour_def)
  have g: "deliver [message_frame n ETHERNET_BROADCAST ?m] (port_at s r) = Inr (g r)" if "neighbour p r" for r
    unfolding g_def using calm [of r] nb [OF that] m(1) by (intro deliver_message(1)) (simp_all add: calm_def)
  have gc: "calm E r (ai_interface (g r)) \<and> out_frames (g r) = (if r = q then [answer_to (ai_interface (port_at s q)) (E p) (port_ip p)] else [])"
    if "neighbour p r" for r
  proof -
    have "port_ip q = port_ip r \<longleftrightarrow> q = r" using port_ip_inj [of q r] that s(3) by (auto simp: neighbour_def)
    then show ?thesis using calm_after_arp [OF calm _ E m(2,3,1)] nb [OF that] m(4,5) out(2) [of r] by (auto simp: g_def)
  qed
  from one_frame [OF s(1,2) out g] obtain s' where s': "simulate_physical_connections s = Inr s'" "frame_of s' = frame_of s"
    "port_at s' p = hushed (port_at s p)" "\<And>r. neighbour p r \<Longrightarrow> port_at s' r = g r"
    "\<And>r. r \<in> ports \<Longrightarrow> r \<noteq> p \<Longrightarrow> \<not> neighbour p r \<Longrightarrow> port_at s' r = port_at s r" by blast
  have other: "calm_at E s' r \<and> inbox_at s' r = inbox_at s r \<and> (r \<noteq> q \<longrightarrow> out_frames (port_at s' r) = [])" if "r \<in> ports" "r \<noteq> p" for r
  proof (cases "neighbour p r")
    case True
    with gc [OF True] s'(4) [OF True] show ?thesis by (simp add: g_def)
  next
    case False
    with s'(5) [OF that False] calm [OF that] out(2) [OF that] show ?thesis by simp
  qed
  have "out_frames (port_at s' q) = [answer_to (ai_interface (port_at s q)) (E p) (port_ip p)]" using gc [OF s(3)] s'(4) [OF s(3)] by simp
  moreover have "inbox_at s' r = inbox_at s r" "r \<noteq> q \<Longrightarrow> out_frames (port_at s' r) = []" if "r \<in> ports" for r
    using other [OF that] s'(3) by (cases "r = p"; simp)+
  moreover have "calm E q (ai_interface (port_at s q))" using calm pq by simp
  ultimately show ?thesis using s'(1-3) other by blast
qed

text \<open>The answer reaches the port that asked, which sends the datagram that waited.\<close>

definition asking :: "(port \<Rightarrow> EthernetAddress) \<Rightarrow> port \<Rightarrow> port \<Rightarrow> IPv4Datagram \<Rightarrow> NetworkInterface \<Rightarrow> bool" where
  "asking E p q d n \<longleftrightarrow> ni_inv n \<and> ni_ethernet_address n = E p \<and> ad_ip (ni_ip_address n) = port_ip p \<and> ni_waiting_dgrams n = [port_ip q \<mapsto> [d]] \<and>
     (\<forall>x r. ni_ip_eth_map n x = Some r \<longrightarrow> (\<exists>q. neighbour p q \<and> x = port_ip q \<and> re_addr r = E q))"

lemma answered:
  assumes "asking E p q d n" "neighbour p q" "calm E q n'" "private_addresses E"
  shows "arp_ok (reply_msg n' (E p) (port_ip p))" "calm E p (after_arp n (reply_msg n' (E p) (port_ip p)))"
    "ni_frames_out (after_arp n (reply_msg n' (E p) (port_ip p))) = ni_frames_out n @ [data_frame n (E q) d]"
proof -
  let ?m = "reply_msg n' (E p) (port_ip p)"
  have six: "length (ni_ethernet_address n') = 6" "length (E p) = 6" using assms by (simp_all add: private_addresses_def calm_def neighbour_def)
  then show ok: "arp_ok ?m" by simp
  have m: "ar_sender_ip_address ?m = port_ip q" "ar_sender_ethernet_address ?m = E q" "ar_opcode ?m \<noteq> OPCODE_REQUEST"
    using assms(3) by (simp_all add: reply_msg_def calm_def OPCODE_REPLY_def OPCODE_REQUEST_def)
  have "ni_inv (after_arp n ?m)"
    using deliver_message(2) [of "AsyncNetworkInterface_of n" ?m "E p"] ok assms(1) by (simp add: AsyncNetworkInterface_of_def asking_def)
  then show "calm E p (after_arp n ?m)" using assms(1,2) m by (auto simp: calm_def asking_def after_arp_def Let_def)
  show "ni_frames_out (after_arp n ?m) = ni_frames_out n @ [data_frame n (E q) d]"
    using assms(1) m by (simp add: asking_def after_arp_def Let_def ni_queue_def)
qed

lemma reply_phase:
  assumes E: "private_addresses E" and s: "nw_shape s" "attached p" "neighbour p q" and calm: "\<And>r. r \<in> ports \<Longrightarrow> r \<noteq> p \<Longrightarrow> calm_at E s r"
    and p: "asking E p q d (ai_interface (port_at s p))" and n': "calm E q n'"
    and out: "out_frames (port_at s q) = [answer_to n' (E p) (port_ip p)]" "\<And>r. r \<in> ports \<Longrightarrow> r \<noteq> q \<Longrightarrow> out_frames (port_at s r) = []"
  shows "\<exists>s' n. simulate_physical_connections s = Inr s' \<and> frame_of s' = frame_of s \<and> (\<forall>r\<in>ports. calm_at E s' r) \<and>
    (\<forall>r\<in>ports. inbox_at s' r = inbox_at s r) \<and> out_frames (port_at s' p) = [data_frame n (E q) d] \<and> (\<forall>r\<in>ports. r \<noteq> p \<longrightarrow> out_frames (port_at s' r) = [])"
proof -
  let ?m = "reply_msg n' (E p) (port_ip p)" and ?n = "ai_interface (port_at s p)"
  have pq: "q \<in> ports" "p \<in> ports" "p \<noteq> q" and qp: "neighbour q p" "attached q" using s(2,3) by (auto simp: neighbour_def attached_def)
  note a = answered [OF p s(3) n' E]
  define g where "g r = (if r = p then (port_at s p)\<lparr>ai_interface := after_arp ?n ?m\<rparr> else port_at s r)" for r
  have g: "deliver [answer_to n' (E p) (port_ip p)] (port_at s r) = Inr (g r)" if "neighbour q r" for r
  proof (cases "r = p")
    case True
    have "E p = ni_ethernet_address ?n \<or> E p = ETHERNET_BROADCAST" "ni_inv ?n" using p by (simp_all add: asking_def)
    with True deliver_message(1) [of "port_at s p" ?m "E p" n'] a(1) show ?thesis
      by (simp add: g_def answer_to_def del: deliver.simps(2) port_at.simps)
  next
    case False
    moreover have "calm_at E s r" using calm that False by (simp add: neighbour_def)
    ultimately show ?thesis using third_party [OF E qp(1) that, of "port_at s r" "answer_to n' (E p) (port_ip p)"]
      by (simp add: g_def answer_to_def message_frame_def del: deliver.simps(2) port_at.simps)
  qed
  from one_frame [OF s(1) qp(2) out g] obtain s' where s': "simulate_physical_connections s = Inr s'" "frame_of s' = frame_of s"
    "port_at s' q = hushed (port_at s q)" "\<And>r. neighbour q r \<Longrightarrow> port_at s' r = g r"
    "\<And>r. r \<in> ports \<Longrightarrow> r \<noteq> q \<Longrightarrow> \<not> neighbour q r \<Longrightarrow> port_at s' r = port_at s r" by blast
  have at: "port_at s' r = (if r = q then hushed (port_at s q) else g r)" if "r \<in> ports" for r
    using s'(3) s'(4,5) [of r] that qp(1) unfolding g_def by (cases "neighbour q r") auto
  have "calm_at E s' r \<and> inbox_at s' r = inbox_at s r \<and> (r \<noteq> p \<longrightarrow> out_frames (port_at s' r) = [])" if "r \<in> ports" for r
    using at [OF that] calm [OF that] out(2) [OF that] pq a(2) by (auto simp: g_def simp del: port_at.simps)
  moreover have "out_frames (port_at s' p) = [data_frame ?n (E q) d]"
    using at [OF pq(2)] pq out(2) a(3) by (simp add: g_def del: port_at.simps)
  ultimately show ?thesis using s'(1,2) by blast
qed

section \<open>A hop\<close>

text \<open>What a calm interface does with a datagram for a neighbour.\<close>

lemma calm_send:
  assumes "calm E p n" "neighbour p q" "dgram_ok d" "ad_ip hop = port_ip q" "ni_frames_out n = []"
  shows "\<exists>n'. send_datagram n d hop = Inr n' \<and>
    (calm E p n' \<and> ni_frames_out n' = [data_frame n (E q) d] \<or>
     asking E p q d n' \<and> ni_frames_out n' = [message_frame n ETHERNET_BROADCAST (request_msg n (port_ip q))])"
proof -
  have inv: "ni_inv n" and w: "ni_waiting_dgrams n = Map.empty" and n: "ni_ethernet_address n = E p" "ad_ip (ni_ip_address n) = port_ip p"
    and k: "ni_ip_eth_map n x = Some r \<Longrightarrow> \<exists>q. neighbour p q \<and> x = port_ip q \<and> re_addr r = E q" for x r using assms(1) by (auto simp: calm_def)
  have t: "ni_ip_waiting_time_map n x = None" for x using inv w by (auto simp: ni_inv_def dom_def)
  note so = send_datagram_ok [OF inv assms(3), of hop]
  show ?thesis
  proof (cases "ni_ip_eth_map n (ad_ip hop)")
    case (Some r)
    obtain q' where q': "neighbour p q'" "port_ip q = port_ip q'" "re_addr r = E q'" using k [OF Some] assms(4) by auto
    have "q' = q" using port_ip_inj [of q' q] q'(1,2) assms(2) by (auto simp: neighbour_def)
    with so Some q' show ?thesis using assms(1,5) by (auto simp: calm_def)
  next
    case None
    with so obtain n' where "send_datagram n d hop = Inr n'" "ni_inv n'"
      "n' = n\<lparr>ni_waiting_dgrams := [port_ip q \<mapsto> [d]], ni_ip_waiting_time_map := (ni_ip_waiting_time_map n)(port_ip q \<mapsto> 0),
        ni_frames_out := [message_frame n ETHERNET_BROADCAST (request_msg n (port_ip q))]\<rparr>"
      using w t assms(4,5) by (auto simp: request_due_def ni_queue_def)
    moreover from this n k have "asking E p q d n'" by (simp add: asking_def)
    ultimately show ?thesis by auto
  qed
qed

definition at_rest :: "(port \<Rightarrow> EthernetAddress) \<Rightarrow> Network \<Rightarrow> bool" where
  "at_rest E nw \<longleftrightarrow> nw_shape nw \<and> (\<forall>r\<in>ports. calm_at E nw r) \<and> silent nw"

lemma unrouted_inboxes:
  assumes "unrouted s" "\<forall>r\<in>ports. inbox_at s' r = inbox_at s r"
  shows "unrouted s'"
  unfolding unrouted_def
proof (intro allI impI)
  fix N :: nat assume "N < 7"
  then have "RouterPort N \<in> ports" by simp
  with assms \<open>N < 7\<close> show "inbox_at s' (RouterPort N) = []" unfolding unrouted_def by (metis (no_types, lifting))
qed

text \<open>A datagram given to the interface of a port for a neighbour is with the neighbour after one or three exchanges.\<close>

lemma hop:
  assumes E: "private_addresses E" and nw: "at_rest E nw" and p: "attached p" "neighbour p q" and d: "dgram_ok d" "ad_ip hop = port_ip q"
    and s: "frame_of s = frame_of nw" "unrouted s" "send_datagram (ai_interface (port_at nw p)) d hop = Inr (ai_interface (port_at s p))"
      "\<And>r. r \<in> ports \<Longrightarrow> r \<noteq> p \<Longrightarrow> ai_interface (port_at s r) = ai_interface (port_at nw r)"
  shows "\<exists>s1 k s2 d'. k \<le> 2 \<and> simulate_physical_connections s = Inr s1 \<and> simulate_rounds undef k s1 = Inr s2 \<and> frame_of s2 = frame_of s \<and>
    at_rest E s2 \<and> (\<forall>r\<in>ports. inbox_at s2 r = inbox_at s r @ (if r = q then [d'] else [])) \<and> like d' d \<and> dgram_ok d'"
proof -
  have pp: "p \<in> ports" using p(1) by (simp add: attached_def)
  have shape: "nw_shape s" using frame_of_shape [OF s(1)] nw by (simp add: at_rest_def)
  have calm: "calm_at E nw r" "out_frames (port_at nw r) = []" if "r \<in> ports" for r using nw that by (auto simp: at_rest_def silent_def)
  have others: "calm_at E s r" "out_frames (port_at s r) = []" if "r \<in> ports" "r \<noteq> p" for r using s(4) [OF that] calm [OF that(1)] by simp_all
  let ?n = "ai_interface (port_at nw p)"
  consider (known) "calm_at E s p" "out_frames (port_at s p) = [data_frame ?n (E q) d]"
    | (unknown) "asking E p q d (ai_interface (port_at s p))" "out_frames (port_at s p) = [message_frame ?n ETHERNET_BROADCAST (request_msg ?n (port_ip q))]"
    using calm_send [OF calm(1) [OF pp] p(2) d calm(2) [OF pp]] s(3) by auto
  then show ?thesis
  proof cases
    case known
    have "calm_at E s r" if "r \<in> ports" for r using known(1) others(1) that by (cases "r = p") auto
    from data_phase [OF E shape p this known(2) others(2) d(1)] obtain s' d' where s': "simulate_physical_connections s = Inr s'"
      "frame_of s' = frame_of s" "\<forall>r\<in>ports. calm_at E s' r" "silent s'" "\<forall>r\<in>ports. inbox_at s' r = inbox_at s r @ (if r = q then [d'] else [])"
      "like d' d" "dgram_ok d'" by blast
    then show ?thesis using frame_of_shape [OF s'(2) shape] by (intro exI [of _ s'] exI [of _ 0] exI [of _ d']) (simp add: at_rest_def)
  next
    case unknown
    have n: "ni_ethernet_address ?n = E p" "ad_ip (ni_ip_address ?n) = port_ip p" using calm(1) [OF pp] by (simp_all add: calm_def)
    from request_phase [OF E shape p others(1) n unknown(2) others(2)] obtain s1 n' where s1: "simulate_physical_connections s = Inr s1"
      "frame_of s1 = frame_of s" "\<forall>r\<in>ports. r \<noteq> p \<longrightarrow> calm_at E s1 r" "port_at s1 p = hushed (port_at s p)" "\<forall>r\<in>ports. inbox_at s1 r = inbox_at s r"
      "out_frames (port_at s1 q) = [answer_to n' (E p) (port_ip p)]" "calm E q n'" "\<forall>r\<in>ports. r \<noteq> q \<longrightarrow> out_frames (port_at s1 r) = []" by blast
    have a1: "asking E p q d (ai_interface (port_at s1 p))" unfolding s1(4) using unknown(1) by (simp add: asking_def hushed_def frames_inv)
    note sh1 = frame_of_shape [OF s1(2) shape]
    obtain s2 n2 where s2: "simulate_physical_connections s1 = Inr s2" "frame_of s2 = frame_of s1" "\<forall>r\<in>ports. calm_at E s2 r"
      "\<forall>r\<in>ports. inbox_at s2 r = inbox_at s1 r" "out_frames (port_at s2 p) = [data_frame n2 (E q) d]" "\<forall>r\<in>ports. r \<noteq> p \<longrightarrow> out_frames (port_at s2 r) = []"
      using reply_phase [OF E sh1 p _ a1 s1(7,6)] s1(3,8) by blast
    note sh2 = frame_of_shape [OF s2(2) sh1]
    from data_phase [OF E sh2 p _ s2(5) _ d(1)] s2(3,6) obtain s3 d' where s3: "simulate_physical_connections s2 = Inr s3"
      "frame_of s3 = frame_of s2" "\<forall>r\<in>ports. calm_at E s3 r" "silent s3" "\<forall>r\<in>ports. inbox_at s3 r = inbox_at s2 r @ (if r = q then [d'] else [])"
      "like d' d" "dgram_ok d'" by blast
    have "unrouted s1" "unrouted s2" using unrouted_inboxes s(2) s1(5) s2(4) by blast+
    then have "simulate_rounds undef 2 s1 = Inr s3"
      using round_unrouted [OF sh1 _ s2(1), of undef 1] round_unrouted [OF sh2 _ s3(1), of undef 0] by (simp add: numeral_2_eq_2)
    moreover have "\<forall>r\<in>ports. inbox_at s3 r = inbox_at s r @ (if r = q then [d'] else [])" using s1(5) s2(4) s3(5) by simp
    ultimately show ?thesis using s1(1,2) s2(2) s3 frame_of_shape [OF s3(2) sh2]
      by (intro exI [of _ s1] exI [of _ 2] exI [of _ s3] exI [of _ d']) (simp add: at_rest_def)
  qed
qed

section \<open>Through the router\<close>

definition routes_ok :: "Network \<Rightarrow> bool" where
  "routes_ok nw \<longleftrightarrow> (\<forall>rt\<in>set (ro_routes (nw_router nw)). rt_interface_num rt < 7 \<and> rt_prefix_length rt < 32)"

lemma concat_single: "i < n \<Longrightarrow> concat (map (\<lambda>N. if N = i then [d] else []) [0..<n]) = [d]"
proof (induction n)
  case (Suc n)
  have "concat (map (\<lambda>N. if N = n then [d] else []) [0..<n]) = []" by simp
  with Suc show ?case by (cases "i = n") auto
qed simp

lemma same_frame:
  assumes "ro_routes r = ro_routes (nw_router nw)" "length (ro_interfaces r) = length (ro_interfaces (nw_router nw))"
  shows "frame_of (nw\<lparr>nw_router := r\<rparr>) = frame_of nw"
proof -
  have "map (\<lambda>_. undefined) (ro_interfaces r) = map (\<lambda>_. undefined) (ro_interfaces (nw_router nw))"
    using assms(2) by (simp add: list_eq_iff_nth_eq)
  with assms(1) have "r\<lparr>ro_interfaces := map (\<lambda>_. undefined) (ro_interfaces r)\<rparr> =
    (nw_router nw)\<lparr>ro_interfaces := map (\<lambda>_. undefined) (ro_interfaces (nw_router nw))\<rparr>"
    by (cases r; cases "nw_router nw") simp
  then show ?thesis by (simp add: frame_of_def)
qed

text \<open>The router takes the one datagram it has and gives it to the interface of its route, or drops it.\<close>

lemma routed_one:
  assumes "zero_shift undef" "at_rest E nw" "routes_ok nw" "i < 7" "dgram_ok d"
    "\<And>N. N < 7 \<Longrightarrow> inbox_at nw (RouterPort N) = (if N = i then [d] else [])"
  shows "\<exists>r. Router_route undef (nw_router nw) = Inr r \<and> frame_of (nw\<lparr>nw_router := r\<rparr>) = frame_of nw \<and> unrouted (nw\<lparr>nw_router := r\<rparr>) \<and>
    (\<forall>N<7. sends (ai_interface (port_at nw (RouterPort N))) (outbox (ro_routes (nw_router nw)) N [d]) =
      Inr (ai_interface (port_at (nw\<lparr>nw_router := r\<rparr>) (RouterPort N))))"
proof -
  let ?r = "nw_router nw"
  have len: "length (ro_interfaces ?r) = 7" and inv: "ni_inv (iface ?r N)" if "N < 7" for N
  proof -
    show "length (ro_interfaces ?r) = 7" using assms(2) by (simp add: at_rest_def nw_shape_def)
    have "RouterPort N \<in> ports" using that by simp
    with assms(2) have "calm_at E nw (RouterPort N)" unfolding at_rest_def by blast
    then show "ni_inv (iface ?r N)" by (simp add: calm_def)
  qed
  have l7: "length (ro_interfaces ?r) = 7" using len [of 0] by simp
  have ri: "router_inv ?r" unfolding router_inv_def l7 using inv assms(3,5,6) by (auto simp: routes_ok_def)
  have "map (inbox ?r) [0..<7] = map (\<lambda>N. if N = i then [d] else []) [0..<7]" using assms(6) by (intro map_cong) simp_all
  then have c: "concat (map (inbox ?r) [0..<7]) = [d]" using concat_single [OF assms(4)] by (simp only:)
  have "set [0..<7] \<subseteq> {..<7 :: nat}" by auto
  then obtain r where r: "route_loop undef [0..<7] ?r = Inr r" "routed ?r [d] r" "\<forall>N<7. inbox r N = []"
    using route_loop_ok [OF assms(1) ri, of "[0..<7]"] unfolding l7 c by auto
  have "frame_of (nw\<lparr>nw_router := r\<rparr>) = frame_of nw" using r(2) by (intro same_frame) (simp_all add: routed_def)
  then show ?thesis using r l7 by (auto simp: Router_route_def routed_def unrouted_def)
qed

lemma rounds_add: "simulate_rounds undef (m + n) s = and_then (simulate_rounds undef m s) (simulate_rounds undef n)"
proof (induction m arbitrary: s)
  case (Suc m)
  then show ?case
    by (cases "Router_route undef (nw_router s)"; simp)
      (metis and_then.simps(1,2) old.sum.exhaust)
qed simp

section \<open>From host to host\<close>

text \<open>A host has given a datagram to its interface for the router.\<close>

definition sent_from :: "(port \<Rightarrow> EthernetAddress) \<Rightarrow> string \<Rightarrow> IPv4Datagram \<Rightarrow> Network \<Rightarrow> bool" where
  "sent_from E a d s \<longleftrightarrow> dgram_ok d \<and> routes_ok s \<and> unrouted s \<and> attached (HostPort a) \<and>
     (\<exists>nw hop. at_rest E nw \<and> frame_of s = frame_of nw \<and> ad_ip hop = port_ip (RouterPort (link (HostPort a))) \<and>
        send_datagram (ai_interface (port_at nw (HostPort a))) d hop = Inr (ai_interface (port_at s (HostPort a))) \<and>
        (\<forall>r\<in>ports. r \<noteq> HostPort a \<longrightarrow> ai_interface (port_at s r) = ai_interface (port_at nw r)))"

text \<open>The first hop, and the router's turn.\<close>

lemma reaches_router:
  assumes E: "private_addresses E" and z: "zero_shift undef" and s: "sent_from E a d s"
  shows "\<exists>k s2 d1 r. k \<le> 3 \<and> simulate_rounds undef k s = Inr s2 \<and> frame_of s2 = frame_of s \<and> at_rest E s2 \<and> like d1 d \<and> dgram_ok d1 \<and>
    (\<forall>x. HostPort x \<in> ports \<longrightarrow> inbox_at s2 (HostPort x) = inbox_at s (HostPort x)) \<and>
    Router_route undef (nw_router s2) = Inr r \<and> frame_of (s2\<lparr>nw_router := r\<rparr>) = frame_of s2 \<and> unrouted (s2\<lparr>nw_router := r\<rparr>) \<and>
    (\<forall>N<7. sends (ai_interface (port_at s2 (RouterPort N))) (outbox (ro_routes (nw_router s)) N [d1]) =
      Inr (ai_interface (port_at (s2\<lparr>nw_router := r\<rparr>) (RouterPort N))))"
proof -
  let ?p = "HostPort a" and ?q = "RouterPort (link (HostPort a))"
  obtain nw hop where nw: "at_rest E nw" "frame_of s = frame_of nw" "ad_ip hop = port_ip ?q" "dgram_ok d" "routes_ok s" "unrouted s" "attached ?p"
    "send_datagram (ai_interface (port_at nw ?p)) d hop = Inr (ai_interface (port_at s ?p))"
    "\<And>r. r \<in> ports \<Longrightarrow> r \<noteq> ?p \<Longrightarrow> ai_interface (port_at s r) = ai_interface (port_at nw r)" using s unfolding sent_from_def by blast
  have i: "link ?p < 7" using nw(7) unfolding attached_def by auto
  then have n: "neighbour ?p ?q" using nw(7) by (simp add: neighbour_def attached_def)
  obtain s1 k s2 d1 where h: "k \<le> 2" "simulate_physical_connections s = Inr s1" "simulate_rounds undef k s1 = Inr s2" "frame_of s2 = frame_of s"
    "at_rest E s2" "\<forall>r\<in>ports. inbox_at s2 r = inbox_at s r @ (if r = ?q then [d1] else [])" "like d1 d" "dgram_ok d1"
    using hop [OF E nw(1,7) n nw(4,3,2,6,8,9)] by blast
  have "nw_shape s" using frame_of_shape [OF nw(2)] nw(1) by (simp add: at_rest_def)
  then have k: "simulate_rounds undef (Suc k) s = Inr s2" using round_unrouted [OF _ nw(6) h(2), of undef k] h(3) by (simp only:)
  have routes: "ro_routes (nw_router s2) = ro_routes (nw_router s)" using frame_of_fields(1) [OF h(4)] .
  have "inbox_at s2 (RouterPort N) = (if N = link ?p then [d1] else [])" if "N < 7" for N
    using h(6) [rule_format, of "RouterPort N"] nw(6) that unfolding unrouted_def by (simp del: link.simps port_at.simps)
  from routed_one [OF z h(5) _ i h(8) this] nw(5) obtain r where "Router_route undef (nw_router s2) = Inr r" "frame_of (s2\<lparr>nw_router := r\<rparr>) = frame_of s2"
    "unrouted (s2\<lparr>nw_router := r\<rparr>)" "\<forall>N<7. sends (ai_interface (port_at s2 (RouterPort N))) (outbox (ro_routes (nw_router s)) N [d1]) =
      Inr (ai_interface (port_at (s2\<lparr>nw_router := r\<rparr>) (RouterPort N)))" unfolding routes_ok_def routes by blast
  moreover have "\<forall>x. HostPort x \<in> ports \<longrightarrow> inbox_at s2 (HostPort x) = inbox_at s (HostPort x)" using h(6) by (auto simp del: link.simps port_at.simps port_simps)
  moreover have "Suc k \<le> 3" using h(1) by simp
  ultimately show ?thesis using k h(4,5,7,8) by blast
qed

lemma journey:
  assumes E: "private_addresses E" and z: "zero_shift undef" and s: "sent_from E a d s" and ttl: "1 < ih_ttl (dg_header d)"
    and rt: "longest_route (ro_routes (nw_router s)) (ih_dst (dg_header d)) = Some rt" "rt_interface_num rt = link (HostPort b)" "attached (HostPort b)"
      "ad_ip (hop_of rt d) = port_ip (HostPort b)"
  shows "\<exists>s' d'. simulate_rounds undef 256 s = Inr s' \<and> frame_of s' = frame_of s \<and> at_rest E s' \<and> unrouted s' \<and> like d' (aged d) \<and> dgram_ok d' \<and>
    (\<forall>x. HostPort x \<in> ports \<longrightarrow> inbox_at s' (HostPort x) = inbox_at s (HostPort x) @ (if x = b then [d'] else []))"
proof -
  obtain k s2 d1 r where h: "k \<le> 3" "simulate_rounds undef k s = Inr s2" "frame_of s2 = frame_of s" "at_rest E s2" "like d1 d" "dgram_ok d1"
    "\<And>x. HostPort x \<in> ports \<Longrightarrow> inbox_at s2 (HostPort x) = inbox_at s (HostPort x)" "Router_route undef (nw_router s2) = Inr r"
    "frame_of (s2\<lparr>nw_router := r\<rparr>) = frame_of s2" "unrouted (s2\<lparr>nw_router := r\<rparr>)"
    "\<And>N. N < 7 \<Longrightarrow> sends (ai_interface (port_at s2 (RouterPort N))) (outbox (ro_routes (nw_router s)) N [d1]) =
      Inr (ai_interface (port_at (s2\<lparr>nw_router := r\<rparr>) (RouterPort N)))" using reaches_router [OF E z s] by blast
  let ?s = "s2\<lparr>nw_router := r\<rparr>" and ?N = "link (HostPort b)" and ?hop = "hop_of rt d1"
  have N: "?N < 7" using rt(3) unfolding attached_def by auto
  have p: "attached (RouterPort ?N)" "neighbour (RouterPort ?N) (HostPort b)" using rt(3) N by (simp_all add: attached_def neighbour_def)
  have hop: "ad_ip ?hop = port_ip (HostPort b)" using rt(4) like_header(2) [OF h(5)] by (simp add: hop_of_def split: option.splits)
  have "forward (ro_routes (nw_router s)) d1 = Some (?N, aged d1, ?hop)" using ttl rt(1,2) like_header [OF h(5)] by (simp add: forward_def)
  then have o: "outbox (ro_routes (nw_router s)) M [d1] = (if M = ?N then [(aged d1, ?hop)] else [])" for M by (simp add: outbox_def)
  have sent: "send_datagram (ai_interface (port_at s2 (RouterPort ?N))) (aged d1) ?hop = Inr (ai_interface (port_at ?s (RouterPort ?N)))"
    using h(11) [OF N] unfolding o by (auto simp: and_then_Inr_iff simp del: link.simps port_at.simps)
  have rest: "ai_interface (port_at ?s q) = ai_interface (port_at s2 q)" if "q \<in> ports" "q \<noteq> RouterPort ?N" for q
  proof (cases q)
    case (RouterPort M)
    with h(11) [of M] that show ?thesis unfolding o by (simp del: link.simps port_at.simps)
  qed simp
  obtain s3 k' s4 d' where f: "k' \<le> 2" "simulate_physical_connections ?s = Inr s3" "simulate_rounds undef k' s3 = Inr s4" "frame_of s4 = frame_of ?s" "at_rest E s4"
    "\<forall>q\<in>ports. inbox_at s4 q = inbox_at ?s q @ (if q = HostPort b then [d'] else [])" "like d' (aged d1)" "dgram_ok d'"
    using Simulated_Network.hop [OF E h(4) p aged_ok [OF h(6)] hop h(9,10) sent rest] by blast
  have box: "inbox_at s4 (HostPort x) = inbox_at s (HostPort x) @ (if x = b then [d'] else [])" if "HostPort x \<in> ports" for x
    using f(6) [rule_format, OF that] h(7) [OF that] by (simp add: port.inject)
  have u: "unrouted s4" using f(6) h(10) unfolding unrouted_def by (simp del: port_at.simps)
  have "256 = k + Suc (k' + (255 - k - k'))" using h(1) f(1) by simp
  then have "simulate_rounds undef 256 s = simulate_rounds undef (k + Suc (k' + (255 - k - k'))) s" by (simp only:)
  also have "\<dots> = simulate_rounds undef (255 - k - k') s4" unfolding rounds_add [of undef k] using h(2,8) f(2,3) by (simp add: rounds_add [of undef k'])
  also have "\<dots> = Inr s4" using rounds_still [OF _ u] f(5) by (simp add: at_rest_def)
  finally show ?thesis using f h(3,9) u box like_trans [OF f(7) like_header(3) [OF h(5)]] by (intro exI [of _ s4] exI [of _ d']) simp
qed

lemma expiry:
  assumes E: "private_addresses E" and z: "zero_shift undef" and s: "sent_from E a d s" and ttl: "ih_ttl (dg_header d) \<le> 1"
  shows "\<exists>s'. simulate_rounds undef 256 s = Inr s' \<and> frame_of s' = frame_of s \<and> at_rest E s' \<and> unrouted s' \<and>
    (\<forall>x. HostPort x \<in> ports \<longrightarrow> inbox_at s' (HostPort x) = inbox_at s (HostPort x))"
proof -
  obtain k s2 d1 r where h: "k \<le> 3" "simulate_rounds undef k s = Inr s2" "frame_of s2 = frame_of s" "at_rest E s2" "like d1 d" "dgram_ok d1"
    "\<And>x. HostPort x \<in> ports \<Longrightarrow> inbox_at s2 (HostPort x) = inbox_at s (HostPort x)" "Router_route undef (nw_router s2) = Inr r"
    "frame_of (s2\<lparr>nw_router := r\<rparr>) = frame_of s2" "unrouted (s2\<lparr>nw_router := r\<rparr>)"
    "\<And>N. N < 7 \<Longrightarrow> sends (ai_interface (port_at s2 (RouterPort N))) (outbox (ro_routes (nw_router s)) N [d1]) =
      Inr (ai_interface (port_at (s2\<lparr>nw_router := r\<rparr>) (RouterPort N)))" using reaches_router [OF E z s] by blast
  let ?s = "s2\<lparr>nw_router := r\<rparr>"
  have "outbox (ro_routes (nw_router s)) M [d1] = []" for M using ttl like_header(1) [OF h(5)] by (simp add: outbox_def forward_def)
  then have same: "ai_interface (port_at ?s q) = ai_interface (port_at s2 q)" if "q \<in> ports" for q using h(11) that by (cases q) simp_all
  then have rest: "at_rest E ?s" using h(4) frame_of_shape [OF h(9)] unfolding at_rest_def silent_def by (simp del: port_at.simps)
  then have still: "simulate_physical_connections ?s = Inr ?s" "simulate_rounds undef m ?s = Inr ?s" for m
    using rounds_still [OF _ h(10)] connections_silent unfolding at_rest_def by blast+
  have "256 = k + Suc (255 - k)" using h(1) by simp
  then have "simulate_rounds undef 256 s = simulate_rounds undef (k + Suc (255 - k)) s" by (simp only:)
  also have "\<dots> = Inr ?s" unfolding rounds_add [of undef k] using h(2,8) still by simp
  finally show ?thesis using rest h(3,7,9,10) by (intro exI [of _ ?s]) simp
qed

section \<open>The tests\<close>

definition clean :: "Host \<Rightarrow> Host" where
  "clean h = h\<lparr>ho_expecting_to_receive := [], ho_interface := (ho_interface h)\<lparr>ai_datagrams_out := []\<rparr>\<rparr>"

lemma check_hosts_ok:
  assumes "distinct order" "\<And>x h. x \<in> set order \<Longrightarrow> nw_hosts nw x = Some h \<Longrightarrow> Host_check h = Inr (clean h)"
  shows "check_hosts order nw = Inr (nw\<lparr>nw_hosts := (\<lambda>x. if x \<in> set order then map_option clean (nw_hosts nw x) else nw_hosts nw x)\<rparr>)"
  using assms
proof (induction order arbitrary: nw)
  case (Cons x order)
  show ?case
  proof (cases "nw_hosts nw x")
    case None
    then have "(\<lambda>y. if y \<in> set (x # order) then map_option clean (nw_hosts nw y) else nw_hosts nw y) =
      (\<lambda>y. if y \<in> set order then map_option clean (nw_hosts nw y) else nw_hosts nw y)" by auto
    moreover have "check_hosts order nw = Inr (nw\<lparr>nw_hosts := (\<lambda>y. if y \<in> set order then map_option clean (nw_hosts nw y) else nw_hosts nw y)\<rparr>)"
      using Cons.prems by (intro Cons.IH) auto
    ultimately show ?thesis using None by simp
  next
    case (Some h)
    let ?nw = "set_host nw x (clean h)"
    have "(\<lambda>y. if y \<in> set (x # order) then map_option clean (nw_hosts nw y) else nw_hosts nw y) =
      (\<lambda>y. if y \<in> set order then map_option clean (nw_hosts ?nw y) else nw_hosts ?nw y)"
      using Some Cons.prems(1) by (auto simp: set_host_def)
    moreover have "check_hosts order ?nw = Inr (?nw\<lparr>nw_hosts := (\<lambda>y. if y \<in> set order then map_option clean (nw_hosts ?nw y) else nw_hosts ?nw y)\<rparr>)"
      using Cons.prems by (intro Cons.IH) (auto simp: set_host_def split: if_splits)
    ultimately show ?thesis using Some Cons.prems(2) [of x h] by (simp add: set_host_def)
  qed
qed simp

text \<open>The hosts that send, and the routing table.\<close>

definition senders :: "string set" where
  "senders = {''applesauce'', ''cherrypie'', ''dm42'', ''dm43''}"

definition routing_table :: "Route list" where
  "routing_table = map (\<lambda>(prefix, len, hop, N). \<lparr>rt_route_prefix = prefix, rt_prefix_length = len, rt_next_hop = map_option address hop, rt_interface_num = N\<rparr>)
     [(ip 0 0 0 0, 0, Some (ip 171 67 76 1), 0), (ip 10 0 0 0, 8, None, 1), (ip 172 16 0 0, 16, None, 2), (ip 192 168 0 0, 24, None, 3),
      (ip 198 178 229 0, 24, None, 4), (ip 143 195 0 0, 17, Some (ip 143 195 0 1), 5), (ip 143 195 128 0, 18, Some (ip 143 195 0 1), 5),
      (ip 143 195 192 0, 19, Some (ip 143 195 0 1), 5), (ip 128 30 76 255, 16, Some (ip 128 30 0 1), 6)]"

text \<open>A network between two tests.\<close>

definition ready :: "(port \<Rightarrow> EthernetAddress) \<Rightarrow> Network \<Rightarrow> bool" where
  "ready E nw \<longleftrightarrow> at_rest E nw \<and> unrouted nw \<and> ro_routes (nw_router nw) = routing_table \<and>
     (\<forall>x h. nw_hosts nw x = Some h \<longrightarrow> ho_expecting_to_receive h = [] \<and> ai_datagrams_out (ho_interface h) = [] \<and>
        ho_my_address h = address (port_ip (HostPort x)) \<and> (x \<in> senders \<longrightarrow> ad_ip (ho_next_hop h) = port_ip (RouterPort (link (HostPort x)))))"

text \<open>Expecting a datagram changes no interface.\<close>

definition expecting_at :: "string \<Rightarrow> IPv4Datagram list \<Rightarrow> Network \<Rightarrow> Network" where
  "expecting_at b es nw = nw\<lparr>nw_hosts := (nw_hosts nw)(b := map_option (\<lambda>h. h\<lparr>ho_expecting_to_receive := es\<rparr>) (nw_hosts nw b))\<rparr>"

lemma expecting_at_port: "nw_shape nw \<Longrightarrow> q \<in> ports \<Longrightarrow> port_at (expecting_at b es nw) q = port_at nw q"
  using shape_host [of nw] by (cases q) (fastforce simp: expecting_at_def)+

lemma expecting_at_rest: "at_rest E nw \<Longrightarrow> at_rest E (expecting_at b es nw)"
proof -
  assume r: "at_rest E nw"
  have "dom (nw_hosts (expecting_at b es nw)) = dom (nw_hosts nw)" by (auto simp: expecting_at_def split: if_splits)
  then have "nw_shape (expecting_at b es nw)" using r unfolding at_rest_def nw_shape_def by (auto simp: expecting_at_def split: if_splits)
  then show ?thesis using r expecting_at_port unfolding at_rest_def silent_def by simp
qed

lemma expecting_at_unrouted: "unrouted (expecting_at b es nw) = unrouted nw"
  by (simp add: unrouted_def expecting_at_def)

text \<open>After the rounds of a test, when every host has what it expects, the checks leave the network ready for the next test.\<close>

lemma checked:
  assumes nw: "ready E nw" and order: "distinct order" "set order = set host_names"
    and s: "frame_of s = frame_of (expecting_at b es nw)" "at_rest E s" "unrouted s"
    and box: "\<And>x. HostPort x \<in> ports \<Longrightarrow> inbox_at s (HostPort x) = (if x = b then ds else [])"
    and es: "\<forall>d\<in>set ds. dgram_ok d" "\<forall>d\<in>set es. dgram_ok d" "map wire_bytes ds = map wire_bytes es"
  shows "\<exists>nw'. check_hosts order s = Inr nw' \<and> ready E nw'"
proof -
  have host: "ho_expecting_to_receive h = (if x = b then es else []) \<and> ai_datagrams_out (ho_interface h) = (if x = b then ds else []) \<and>
    ho_my_address h = address (port_ip (HostPort x)) \<and> (x \<in> senders \<longrightarrow> ad_ip (ho_next_hop h) = port_ip (RouterPort (link (HostPort x))))"
    if h: "nw_hosts s x = Some h" for x h
  proof -
    have "x \<in> dom (nw_hosts s)" using h by blast
    then have "HostPort x \<in> ports" using s(2) by (simp add: at_rest_def nw_shape_def)
    from box [OF this] h have i: "ai_datagrams_out (ho_interface h) = (if x = b then ds else [])" by simp
    obtain a where a: "nw_hosts (expecting_at b es nw) x = Some (h\<lparr>ho_interface := a\<rparr>)" using frame_of_host [OF s(1) [symmetric] h] by blast
    then obtain h0 where h0: "nw_hosts nw x = Some h0" "h\<lparr>ho_interface := a\<rparr> = (if x = b then h0\<lparr>ho_expecting_to_receive := es\<rparr> else h0)"
      by (auto simp: expecting_at_def split: if_splits)
    have f: "ho_expecting_to_receive h0 = []" "ho_my_address h0 = address (port_ip (HostPort x))"
      "x \<in> senders \<longrightarrow> ad_ip (ho_next_hop h0) = port_ip (RouterPort (link (HostPort x)))" using nw h0(1) unfolding ready_def by blast+
    have "ho_expecting_to_receive h = (if x = b then es else [])" "ho_my_address h = ho_my_address h0" "ho_next_hop h = ho_next_hop h0"
      using arg_cong [OF h0(2), of ho_expecting_to_receive] arg_cong [OF h0(2), of ho_my_address] arg_cong [OF h0(2), of ho_next_hop] f(1) by auto
    with i f show ?thesis by simp
  qed
  have "Host_check h = Inr (clean h)" if "nw_hosts s x = Some h" for x h
  proof -
    have "map wire_bytes (ai_datagrams_out (ho_interface h)) = map wire_bytes (ho_expecting_to_receive h)"
      and ok: "\<forall>d\<in>set (ai_datagrams_out (ho_interface h)). dgram_ok d" "\<forall>d\<in>set (ho_expecting_to_receive h). dgram_ok d"
      using host [OF that] es by (simp_all del: link.simps)
    from arg_cong [OF this(1), of mset] host_check_ok [OF ok] show ?thesis by (simp add: clean_def del: mset_map)
  qed
  then have c: "check_hosts order s = Inr (s\<lparr>nw_hosts := (\<lambda>x. if x \<in> set order then map_option clean (nw_hosts s x) else nw_hosts s x)\<rparr>)"
    by (rule check_hosts_ok [OF order(1)])
  have dom: "dom (nw_hosts s) = set host_names" using s(2) by (simp add: at_rest_def nw_shape_def)
  let ?nw = "s\<lparr>nw_hosts := (\<lambda>x. map_option clean (nw_hosts s x))\<rparr>"
  have "(if x \<in> set order then map_option clean (nw_hosts s x) else nw_hosts s x) = map_option clean (nw_hosts s x)" for x
    unfolding order(2) dom [symmetric] by (simp add: domIff)
  with c have c': "check_hosts order s = Inr ?nw" by simp
  have at: "ai_interface (port_at ?nw q) = ai_interface (port_at s q)" if "q \<in> ports" for q
    using that s(2) shape_host [of s] unfolding at_rest_def by (cases q) (fastforce simp: clean_def)+
  have "dom (nw_hosts ?nw) = dom (nw_hosts s)" by auto
  then have "nw_shape ?nw" using s(2) unfolding at_rest_def nw_shape_def by (auto simp: clean_def)
  then have "at_rest E ?nw" using s(2) at unfolding at_rest_def silent_def by (simp del: port_at.simps)
  moreover have "unrouted ?nw" using s(3) by (simp add: unrouted_def)
  moreover have "ro_routes (nw_router ?nw) = routing_table"
    using frame_of_fields(1) [OF s(1)] nw by (simp add: expecting_at_def ready_def)
  moreover have "ho_expecting_to_receive h = [] \<and> ai_datagrams_out (ho_interface h) = [] \<and> ho_my_address h = address (port_ip (HostPort x)) \<and>
    (x \<in> senders \<longrightarrow> ad_ip (ho_next_hop h) = port_ip (RouterPort (link (HostPort x))))" if "nw_hosts ?nw x = Some h" for x h
    using that host by (auto simp: clean_def)
  ultimately have "ready E ?nw" unfolding ready_def by blast
  with c' show ?thesis by blast
qed

lemma to_string_nat_length: "0 < k \<Longrightarrow> n < 10 ^ k \<Longrightarrow> length (to_string_nat n) \<le> k"
proof (induction k arbitrary: n)
  case (Suc k)
  show ?case
  proof (cases "n < 10")
    case False
    then have "0 < k" using Suc.prems(2) by (cases k) simp_all
    moreover have "n div 10 < 10 ^ k" using Suc.prems(2) by (simp add: less_mult_imp_div_less mult.commute)
    ultimately show ?thesis using Suc.IH [of "n div 10"] False by (subst to_string_nat.simps) simp
  qed (subst to_string_nat.simps, simp)
qed simp

text \<open>What \<open>send_to\<close> gives to the interface.\<close>

definition test_datagram :: "32 word \<Rightarrow> 32 word \<Rightarrow> 8 word \<Rightarrow> 32 word \<Rightarrow> IPv4Datagram" where
  "test_datagram src dst ttl x = \<lparr>dg_header = IPv4Header_default\<lparr>ih_src := src, ih_dst := dst, ih_len := word_of_nat (20 + length (random_payload x)), ih_ttl := ttl\<rparr>,
     dg_payload = BufferList_of_string (random_payload x)\<rparr>"

lemma random_payload_length: "length (random_payload x) \<le> 28"
proof -
  have "unat x < 10 ^ 10" using unsigned_less [where 'a = nat, of x] by simp
  from to_string_nat_length [OF _ this] show ?thesis by (simp add: random_payload_def)
qed

lemma test_datagram_ok: "dgram_ok (test_datagram src dst ttl x)"
proof -
  have "unat (word_of_nat n :: 16 word) = n" if "n < 65536" for n using that by (simp add: unat_of_nat take_bit_nat_eq_self)
  from this [of "20 + length (random_payload x)"] random_payload_length [of x]
  have "unat (word_of_nat (20 + length (random_payload x)) :: 16 word) = 20 + length (random_payload x)" by (simp del: of_nat_add)
  then show ?thesis using random_payload_length [of x]
    by (simp add: test_datagram_def dgram_ok_def ip_header_ok_def IPv4Header_default_def IPv4Header_LENGTH_def)
qed

lemma host_sends_ok:
  assumes E: "private_addresses E" and nw: "ready E nw" and a: "a \<in> senders"
  shows "\<exists>d s g'. host_sends rd a dst ttl nw g = Inr (d, s, g') \<and> dgram_ok d \<and> ih_ttl (dg_header d) = ttl \<and> ih_dst (dg_header d) = ad_ip dst \<and>
    frame_of s = frame_of nw \<and> (\<forall>r\<in>ports. inbox_at s r = inbox_at nw r) \<and> sent_from E a d s"
proof -
  let ?p = "HostPort a" and ?q = "RouterPort (link (HostPort a))"
  have p: "attached ?p" "neighbour ?p ?q" using a by (auto simp: senders_def attached_def neighbour_def host_links_def)
  have rest: "at_rest E nw" "nw_shape nw" "?p \<in> ports" using nw p(1) by (simp_all add: ready_def at_rest_def attached_def)
  obtain h where h: "nw_hosts nw a = Some h" "host nw a = Inr h" "port_at nw ?p = ho_interface h" using shape_host [OF rest(2,3)] by blast
  have hop: "ad_ip (ho_next_hop h) = port_ip ?q" using nw h(1) a unfolding ready_def by blast
  obtain x g' where x: "rd g = (x, g')" by (metis surj_pair)
  define d where "d = test_datagram (ad_ip (ho_my_address h)) (ad_ip dst) ttl x"
  have c: "calm_at E nw ?p" "out_frames (port_at nw ?p) = []" using rest unfolding at_rest_def silent_def by blast+
  have d: "dgram_ok d" "ih_ttl (dg_header d) = ttl" "ih_dst (dg_header d) = ad_ip dst" unfolding d_def using test_datagram_ok by (simp_all add: test_datagram_def)
  obtain n where n: "send_datagram (ai_interface (port_at nw ?p)) d (ho_next_hop h) = Inr n" using calm_send [OF c(1) p(2) d(1) hop c(2)] by blast
  let ?s = "put ?p ((port_at nw ?p)\<lparr>ai_interface := n\<rparr>) nw"
  note at = put_at [OF rest(2,3)]
  have "send_to rd h dst ttl g = Inr (d, h\<lparr>ho_interface := (ho_interface h)\<lparr>ai_interface := n\<rparr>\<rparr>, g')"
    using n x random_payload_length [of x] unfolding h(3) by (simp add: send_to_def d_def test_datagram_def IPv4Header_default_def IPv4Header_LENGTH_def Let_def)
  then have hs: "host_sends rd a dst ttl nw g = Inr (d, ?s, g')" using h by (simp add: host_sends_def)
  have box: "\<forall>r\<in>ports. inbox_at ?s r = inbox_at nw r" unfolding at by simp
  have "sent_from E a d ?s" unfolding sent_from_def
  proof (intro conjI exI [of _ nw] exI [of _ "ho_next_hop h"] ballI impI)
    show "unrouted ?s" using unrouted_inboxes [OF _ box] nw by (simp add: ready_def)
    show "routes_ok ?s" using frame_of_fields(1) [OF at(2)] nw by (simp add: routes_ok_def ready_def routing_table_def del: put.simps)
  qed (use d(1) p(1) rest(1) at(2) hop n in \<open>simp_all add: at del: put.simps port_at.simps link.simps\<close>)
  with hs d box at(2) show ?thesis by blast
qed

lemma frame_of_expecting:
  assumes "frame_of s = frame_of nw"
  shows "frame_of (expecting_at b es s) = frame_of (expecting_at b es nw)"
proof -
  have "frame_of (expecting_at b es n) = expecting_at b es (frame_of n)" for n
    by (rule Network.equality) (auto simp: frame_of_def expecting_at_def fun_eq_iff option.map_comp comp_def intro!: option.map_cong)
  then show ?thesis using assms by simp
qed

lemma sent_from_expecting:
  assumes "sent_from E a d s"
  shows "sent_from E a d (expecting_at b es s)"
proof -
  obtain nw hop where nw: "at_rest E nw" "frame_of s = frame_of nw" "ad_ip hop = port_ip (RouterPort (link (HostPort a)))" "dgram_ok d" "routes_ok s" "unrouted s"
    "attached (HostPort a)" "send_datagram (ai_interface (port_at nw (HostPort a))) d hop = Inr (ai_interface (port_at s (HostPort a)))"
    "\<forall>r\<in>ports. r \<noteq> HostPort a \<longrightarrow> ai_interface (port_at s r) = ai_interface (port_at nw r)" using assms unfolding sent_from_def by blast
  have sh: "nw_shape nw" "nw_shape s" using nw(1) frame_of_shape [OF nw(2)] by (simp_all add: at_rest_def)
  have a: "HostPort a \<in> ports" using nw(7) by (simp add: attached_def)
  note at = expecting_at_port [OF sh(1)] expecting_at_port [OF sh(2)]
  show ?thesis unfolding sent_from_def
  proof (intro conjI exI [of _ "expecting_at b es nw"] exI [of _ hop] ballI impI)
    show "routes_ok (expecting_at b es s)" using nw(5) by (simp add: routes_ok_def expecting_at_def)
  qed (use nw expecting_at_rest [OF nw(1)] frame_of_expecting [OF nw(2)] a in \<open>simp_all add: at expecting_at_unrouted del: port_at.simps link.simps port_simps\<close>)
qed

lemma test_delivery_ok:
  assumes E: "private_addresses E" and z: "zero_shift undef" and order: "distinct order" "set order = set host_names"
    and nw: "ready E nw" and a: "a \<in> senders" and b: "attached (HostPort b)"
    and rt: "longest_route routing_table (ad_ip dst) = Some rt" "rt_interface_num rt = link (HostPort b)"
      "(case rt_next_hop rt of Some hop \<Rightarrow> ad_ip hop | None \<Rightarrow> ad_ip dst) = port_ip (HostPort b)"
  shows "\<exists>nw' g'. test_delivery undef rd order a dst b (nw, g) = Inr (nw', g') \<and> ready E nw'"
proof -
  obtain d s g' where s: "host_sends rd a dst 64 nw g = Inr (d, s, g')" "dgram_ok d" "ih_ttl (dg_header d) = 64" "ih_dst (dg_header d) = ad_ip dst"
    "frame_of s = frame_of nw" "\<forall>r\<in>ports. inbox_at s r = inbox_at nw r" "sent_from E a d s" using host_sends_ok [OF E nw a, of rd dst 64 g] by blast
  have sh: "nw_shape nw" "nw_shape s" using nw frame_of_shape [OF s(5)] by (simp_all add: ready_def at_rest_def)
  have bp: "HostPort b \<in> ports" using b by (simp add: attached_def)
  obtain h where h: "nw_hosts s b = Some h" "host s b = Inr h" using shape_host [OF sh(2) bp] by blast
  obtain i where i: "nw_hosts nw b = Some (h\<lparr>ho_interface := i\<rparr>)" using frame_of_host [OF s(5) [symmetric] h(1)] by blast
  then have "ho_expecting_to_receive (h\<lparr>ho_interface := i\<rparr>) = []" using nw unfolding ready_def by blast
  then have "expect h (aged d) = h\<lparr>ho_expecting_to_receive := [aged d]\<rparr>" by (simp add: expect_def)
  then have set: "set_host s b (expect h (aged d)) = expecting_at b [aged d] s" using h(1) by (simp add: set_host_def expecting_at_def)
  let ?s = "expecting_at b [aged d] s"
  have routes: "ro_routes (nw_router ?s) = routing_table" using frame_of_fields(1) [OF s(5)] nw by (simp add: expecting_at_def ready_def)
  have hop: "ad_ip (hop_of rt d) = port_ip (HostPort b)" using rt(3) s(4) by (simp add: hop_of_def split: option.splits)
  have sf: "sent_from E a d ?s" and t: "1 < ih_ttl (dg_header d)" using sent_from_expecting [OF s(7)] s(3) by simp_all
  have r: "longest_route (ro_routes (nw_router ?s)) (ih_dst (dg_header d)) = Some rt" using routes rt(1) s(4) by simp
  obtain s' d' where s': "simulate_rounds undef 256 ?s = Inr s'" "frame_of s' = frame_of ?s" "at_rest E s'" "unrouted s'" "like d' (aged d)" "dgram_ok d'"
    "\<forall>x. HostPort x \<in> ports \<longrightarrow> inbox_at s' (HostPort x) = inbox_at ?s (HostPort x) @ (if x = b then [d'] else [])"
    using journey [OF E z sf t r rt(2) b hop] by blast
  have box: "inbox_at s' (HostPort x) = (if x = b then [d'] else [])" if x: "HostPort x \<in> ports" for x
  proof -
    obtain h where "nw_hosts nw x = Some h" "port_at nw (HostPort x) = ho_interface h" using shape_host [OF sh(1) x] by blast
    then have "inbox_at nw (HostPort x) = []" using nw unfolding ready_def by metis
    then show ?thesis using s'(7) s(6) x expecting_at_port [OF sh(2) x] by (simp del: port_at.simps port_simps)
  qed
  have "frame_of s' = frame_of (expecting_at b [aged d] nw)" using s'(2) frame_of_expecting [OF s(5)] by simp
  moreover have "\<forall>d\<in>set [d']. dgram_ok d" "\<forall>d\<in>set [aged d]. dgram_ok d" "map wire_bytes [d'] = map wire_bytes [aged d]"
    using s'(6) aged_ok [OF s(2)] like_wire [OF s'(5,6)] by simp_all
  ultimately obtain nw' where c: "check_hosts order s' = Inr nw'" "ready E nw'" using checked [OF nw order _ s'(3,4) box] by blast
  have ag: "d\<lparr>dg_header := (dg_header d)\<lparr>ih_ttl := ih_ttl (dg_header d) - 1\<rparr>\<rparr> = aged d" by (simp add: aged_def)
  have "test_delivery undef rd order a dst b (nw, g) = Inr (nw', g')"
    unfolding test_delivery_def prod.case s(1) and_then.simps Let_def ag h(2) set simulate_def s'(1) c(1) ..
  with c(2) show ?thesis by blast
qed

lemma test_expiry_ok:
  assumes E: "private_addresses E" and z: "zero_shift undef" and order: "distinct order" "set order = set host_names"
    and nw: "ready E nw" and a: "a \<in> senders" and ttl: "ttl \<le> 1"
  shows "\<exists>nw' g'. test_expiry undef rd order a dst ttl (nw, g) = Inr (nw', g') \<and> ready E nw'"
proof -
  obtain d s g' where s: "host_sends rd a dst ttl nw g = Inr (d, s, g')" "ih_ttl (dg_header d) = ttl"
    "frame_of s = frame_of nw" "\<forall>r\<in>ports. inbox_at s r = inbox_at nw r" "sent_from E a d s" using host_sends_ok [OF E nw a, of rd dst ttl g] by blast
  have "ih_ttl (dg_header d) \<le> 1" using s(2) ttl by simp
  from expiry [OF E z s(5) this] obtain s' where s': "simulate_rounds undef 256 s = Inr s'" "frame_of s' = frame_of s" "at_rest E s'" "unrouted s'"
    "\<And>x. HostPort x \<in> ports \<Longrightarrow> inbox_at s' (HostPort x) = inbox_at s (HostPort x)" by blast
  have sh: "nw_shape nw" using nw by (simp add: ready_def at_rest_def)
  have box: "inbox_at s' (HostPort x) = (if x = a then [] else [])" if x: "HostPort x \<in> ports" for x
  proof -
    obtain h where "nw_hosts nw x = Some h" "port_at nw (HostPort x) = ho_interface h" using shape_host [OF sh x] by blast
    then have "inbox_at nw (HostPort x) = []" using nw unfolding ready_def by metis
    then show ?thesis using s'(5) [OF x] s(4) x by (simp del: port_at.simps port_simps)
  qed
  have "map_option (\<lambda>h. h\<lparr>ho_expecting_to_receive := []\<rparr>) (nw_hosts nw a) = nw_hosts nw a"
    using nw unfolding ready_def by (cases "nw_hosts nw a") (auto intro: Host.equality)
  then have "expecting_at a [] nw = nw" by (simp add: expecting_at_def)
  then have "frame_of s' = frame_of (expecting_at a [] nw)" using s'(2) s(3) by simp
  then obtain nw' where c: "check_hosts order s' = Inr nw'" "ready E nw'" using checked [OF nw order _ s'(3,4) box] by auto
  have "test_expiry undef rd order a dst ttl (nw, g) = Inr (nw', g')"
    unfolding test_expiry_def prod.case s(1) and_then.simps simulate_def s'(1) c(1) ..
  with c(2) show ?thesis by blast
qed

section \<open>The network at the start\<close>

definition ok_address :: "EthernetAddress \<Rightarrow> bool" where
  "ok_address eth \<longleftrightarrow> length eth = 6 \<and> eth \<noteq> ETHERNET_BROADCAST"

lemma random_address_length: "length (fst (random_address_bytes rd n g)) = n"
  by (induction n arbitrary: g) (simp_all add: Let_def case_prod_beta)

lemma six_bytes: "length (xs :: 'a list) = 6 \<Longrightarrow> \<exists>a b c d e f. xs = [a, b, c, d, e, f]"
  by (auto simp: numeral_eq_Suc length_Suc_conv)

lemma even_byte: "(x AND 0xfe :: 8 word) \<noteq> 0xff"
proof
  assume e: "(x AND 0xfe) = 0xff"
  have "even (x AND 0xfe)" by (simp add: even_and_iff)
  then have "even (0xff :: 8 word)" unfolding e .
  then show False by simp
qed

lemma random_addresses:
  "ok_address (fst (random_host_ethernet_address rd g))" "ok_address (fst (random_router_ethernet_address rd g))"
proof -
  obtain addr g' where r: "random_address_bytes rd 6 g = (addr, g')" by (metis surj_pair)
  then have "length addr = 6" using random_address_length [of rd 6 g] by simp
  from six_bytes [OF this] obtain a b c d e f where "addr = [a, b, c, d, e, f]" by blast
  with r show "ok_address (fst (random_host_ethernet_address rd g))" "ok_address (fst (random_router_ethernet_address rd g))"
    using even_byte by (simp_all add: random_host_ethernet_address_def random_router_ethernet_address_def ok_address_def ETHERNET_BROADCAST_def)
qed

definition fresh :: "EthernetAddress \<Rightarrow> 32 word \<Rightarrow> AsyncNetworkInterface" where
  "fresh eth n = AsyncNetworkInterface_of (NetworkInterface_new eth (address n))"

definition fresh_host :: "string \<Rightarrow> 32 word \<Rightarrow> 32 word \<Rightarrow> EthernetAddress \<Rightarrow> Host" where
  "fresh_host name n hop eth = \<lparr>ho_name = name, ho_my_address = address n, ho_interface = fresh eth n, ho_next_hop = address hop, ho_expecting_to_receive = []\<rparr>"

lemma add_router_interface_ok:
  "\<exists>eth g'. add_router_interface rd n r g = (length (ro_interfaces r), r\<lparr>ro_interfaces := ro_interfaces r @ [fresh eth n]\<rparr>, g') \<and> ok_address eth"
proof -
  obtain eth g' where "random_router_ethernet_address rd g = (eth, g')" by (metis surj_pair)
  with random_addresses(2) [of rd g] show ?thesis
    by (intro exI [of _ eth] exI [of _ g']) (simp add: add_router_interface_def add_interface_def fresh_def Let_def)
qed

lemma insert_host_ok:
  "hosts name = None \<Longrightarrow> \<exists>eth g'. insert_host rd name n hop (hosts, g) = (hosts(name \<mapsto> fresh_host name n hop eth), g') \<and> ok_address eth"
proof -
  assume h: "hosts name = None"
  obtain eth g' where "random_host_ethernet_address rd g = (eth, g')" by (metis surj_pair)
  with random_addresses(1) [of rd g] h show ?thesis
    by (intro exI [of _ eth] exI [of _ g']) (simp add: insert_host_def Host_new_def fresh_host_def fresh_def Let_def)
qed

definition eth_at :: "Network \<Rightarrow> port \<Rightarrow> EthernetAddress" where
  "eth_at nw p = ni_ethernet_address (ai_interface (port_at nw p))"

lemma fresh_calm:
  assumes "ok_address eth" "E p = eth"
  shows "calm E p (ai_interface (fresh eth (port_ip p)))" "out_frames (fresh eth n) = []" "ai_datagrams_out (fresh eth n) = []"
    "ni_ethernet_address (ai_interface (fresh eth n)) = eth"
  using assms NetworkInterface_new_inv [of eth]
  by (simp_all add: fresh_def calm_def AsyncNetworkInterface_of_def ok_address_def address_def) (simp_all add: NetworkInterface_new_def)

text \<open>The six hosts, as the constructor inserts them.\<close>

definition insert_hosts :: "'g generator \<Rightarrow> 'g \<Rightarrow> (string \<rightharpoonup> Host) \<times> 'g" where
  "insert_hosts rd g = insert_host rd ''dm43'' (ip 198 178 229 43) (ip 198 178 229 1) (insert_host rd ''dm42'' (ip 198 178 229 42) (ip 198 178 229 1)
     (insert_host rd ''hs_router'' (ip 143 195 0 1) 0 (insert_host rd ''cherrypie'' (ip 192 168 0 2) (ip 192 168 0 1)
     (insert_host rd ''default_router'' (ip 171 67 76 1) 0 (insert_host rd ''applesauce'' (ip 10 0 0 2) (ip 10 0 0 1) (Map.empty, g))))))"

definition fresh_hosts :: "EthernetAddress \<Rightarrow> EthernetAddress \<Rightarrow> EthernetAddress \<Rightarrow> EthernetAddress \<Rightarrow> EthernetAddress \<Rightarrow> EthernetAddress \<Rightarrow>
    (string \<rightharpoonup> Host)" where
  "fresh_hosts f1 f2 f3 f4 f5 f6 = [''applesauce'' \<mapsto> fresh_host ''applesauce'' (ip 10 0 0 2) (ip 10 0 0 1) f1, ''default_router'' \<mapsto> fresh_host ''default_router'' (ip 171 67 76 1) 0 f2,
     ''cherrypie'' \<mapsto> fresh_host ''cherrypie'' (ip 192 168 0 2) (ip 192 168 0 1) f3, ''hs_router'' \<mapsto> fresh_host ''hs_router'' (ip 143 195 0 1) 0 f4,
     ''dm42'' \<mapsto> fresh_host ''dm42'' (ip 198 178 229 42) (ip 198 178 229 1) f5, ''dm43'' \<mapsto> fresh_host ''dm43'' (ip 198 178 229 43) (ip 198 178 229 1) f6]"

lemma insert_hosts_ok:
  "\<exists>f1 f2 f3 f4 f5 f6 k. list_all ok_address [f1, f2, f3, f4, f5, f6] \<and> insert_hosts rd g = (fresh_hosts f1 f2 f3 f4 f5 f6, k)"
proof -
  define h1 where "h1 f = [''applesauce'' \<mapsto> fresh_host ''applesauce'' (ip 10 0 0 2) (ip 10 0 0 1) f]" for f
  obtain f1 k1 where 1: "insert_host rd ''applesauce'' (ip 10 0 0 2) (ip 10 0 0 1) (Map.empty, g) = (h1 f1, k1)" "ok_address f1"
    using insert_host_ok [of Map.empty "''applesauce''" rd "ip 10 0 0 2" "ip 10 0 0 1" g] unfolding h1_def by auto
  define h2 where "h2 f = (h1 f1)(''default_router'' \<mapsto> fresh_host ''default_router'' (ip 171 67 76 1) 0 f)" for f
  obtain f2 k2 where 2: "insert_host rd ''default_router'' (ip 171 67 76 1) 0 (h1 f1, k1) = (h2 f2, k2)" "ok_address f2"
    using insert_host_ok [of "h1 f1" "''default_router''" rd "ip 171 67 76 1" 0 k1] unfolding h2_def by (auto simp: h1_def)
  define h3 where "h3 f = (h2 f2)(''cherrypie'' \<mapsto> fresh_host ''cherrypie'' (ip 192 168 0 2) (ip 192 168 0 1) f)" for f
  obtain f3 k3 where 3: "insert_host rd ''cherrypie'' (ip 192 168 0 2) (ip 192 168 0 1) (h2 f2, k2) = (h3 f3, k3)" "ok_address f3"
    using insert_host_ok [of "h2 f2" "''cherrypie''" rd "ip 192 168 0 2" "ip 192 168 0 1" k2] unfolding h3_def by (auto simp: h2_def h1_def)
  define h4 where "h4 f = (h3 f3)(''hs_router'' \<mapsto> fresh_host ''hs_router'' (ip 143 195 0 1) 0 f)" for f
  obtain f4 k4 where 4: "insert_host rd ''hs_router'' (ip 143 195 0 1) 0 (h3 f3, k3) = (h4 f4, k4)" "ok_address f4"
    using insert_host_ok [of "h3 f3" "''hs_router''" rd "ip 143 195 0 1" 0 k3] unfolding h4_def by (auto simp: h3_def h2_def h1_def)
  define h5 where "h5 f = (h4 f4)(''dm42'' \<mapsto> fresh_host ''dm42'' (ip 198 178 229 42) (ip 198 178 229 1) f)" for f
  obtain f5 k5 where 5: "insert_host rd ''dm42'' (ip 198 178 229 42) (ip 198 178 229 1) (h4 f4, k4) = (h5 f5, k5)" "ok_address f5"
    using insert_host_ok [of "h4 f4" "''dm42''" rd "ip 198 178 229 42" "ip 198 178 229 1" k4] unfolding h5_def by (auto simp: h4_def h3_def h2_def h1_def)
  define h6 where "h6 f = (h5 f5)(''dm43'' \<mapsto> fresh_host ''dm43'' (ip 198 178 229 43) (ip 198 178 229 1) f)" for f
  obtain f6 k6 where 6: "insert_host rd ''dm43'' (ip 198 178 229 43) (ip 198 178 229 1) (h5 f5, k5) = (h6 f6, k6)" "ok_address f6"
    using insert_host_ok [of "h5 f5" "''dm43''" rd "ip 198 178 229 43" "ip 198 178 229 1" k5] unfolding h6_def by (auto simp: h5_def h4_def h3_def h2_def h1_def)
  have "insert_hosts rd g = (h6 f6, k6)" unfolding insert_hosts_def 1(1) 2(1) 3(1) 4(1) 5(1) 6(1) ..
  moreover have "h6 f6 = fresh_hosts f1 f2 f3 f4 f5 f6" unfolding h6_def h5_def h4_def h3_def h2_def h1_def fresh_hosts_def ..
  ultimately have "insert_hosts rd g = (fresh_hosts f1 f2 f3 f4 f5 f6, k6)" by simp
  moreover have "list_all ok_address [f1, f2, f3, f4, f5, f6]" using 1(2) 2(2) 3(2) 4(2) 5(2) 6(2) by simp
  ultimately show ?thesis by blast
qed

lemma Network_new_fresh:
  "\<exists>e0 e1 e2 e3 e4 e5 e6 f1 f2 f3 f4 f5 f6 g'. list_all ok_address [e0, e1, e2, e3, e4, e5, e6, f1, f2, f3, f4, f5, f6] \<and>
    Network_new rd g = Inr (\<lparr>nw_router = \<lparr>ro_interfaces = [fresh e0 (ip 171 67 76 46), fresh e1 (ip 10 0 0 1), fresh e2 (ip 172 16 0 1),
        fresh e3 (ip 192 168 0 1), fresh e4 (ip 198 178 229 1), fresh e5 (ip 143 195 0 2), fresh e6 (ip 128 30 76 255)], ro_routes = routing_table\<rparr>,
      nw_default_id = 0, nw_eth0_id = 1, nw_eth1_id = 2, nw_eth2_id = 3, nw_uun3_id = 4, nw_hs4_id = 5, nw_mit5_id = 6,
      nw_hosts = fresh_hosts f1 f2 f3 f4 f5 f6\<rparr>, g')"
proof -
  let ?r = "\<lambda>as. \<lparr>ro_interfaces = as, ro_routes = []\<rparr> :: Router"
  obtain e0 g0 where 0: "add_router_interface rd (ip 171 67 76 46) (?r []) g = (0, ?r [fresh e0 (ip 171 67 76 46)], g0)" "ok_address e0"
    using add_router_interface_ok [of rd "ip 171 67 76 46" "?r []" g] by auto
  let ?a0 = "[fresh e0 (ip 171 67 76 46)]"
  obtain e1 g1 where 1: "add_router_interface rd (ip 10 0 0 1) (?r ?a0) g0 = (1, ?r (?a0 @ [fresh e1 (ip 10 0 0 1)]), g1)" "ok_address e1"
    using add_router_interface_ok [of rd "ip 10 0 0 1" "?r ?a0" g0] by auto
  let ?a1 = "?a0 @ [fresh e1 (ip 10 0 0 1)]"
  obtain e2 g2 where 2: "add_router_interface rd (ip 172 16 0 1) (?r ?a1) g1 = (2, ?r (?a1 @ [fresh e2 (ip 172 16 0 1)]), g2)" "ok_address e2"
    using add_router_interface_ok [of rd "ip 172 16 0 1" "?r ?a1" g1] by (auto simp: numeral_2_eq_2)
  let ?a2 = "?a1 @ [fresh e2 (ip 172 16 0 1)]"
  obtain e3 g3 where 3: "add_router_interface rd (ip 192 168 0 1) (?r ?a2) g2 = (3, ?r (?a2 @ [fresh e3 (ip 192 168 0 1)]), g3)" "ok_address e3"
    using add_router_interface_ok [of rd "ip 192 168 0 1" "?r ?a2" g2] by (auto simp: numeral_3_eq_3)
  let ?a3 = "?a2 @ [fresh e3 (ip 192 168 0 1)]"
  obtain e4 g4 where 4: "add_router_interface rd (ip 198 178 229 1) (?r ?a3) g3 = (4, ?r (?a3 @ [fresh e4 (ip 198 178 229 1)]), g4)" "ok_address e4"
    using add_router_interface_ok [of rd "ip 198 178 229 1" "?r ?a3" g3] by (auto simp: eval_nat_numeral)
  let ?a4 = "?a3 @ [fresh e4 (ip 198 178 229 1)]"
  obtain e5 g5 where 5: "add_router_interface rd (ip 143 195 0 2) (?r ?a4) g4 = (5, ?r (?a4 @ [fresh e5 (ip 143 195 0 2)]), g5)" "ok_address e5"
    using add_router_interface_ok [of rd "ip 143 195 0 2" "?r ?a4" g4] by (auto simp: eval_nat_numeral)
  let ?a5 = "?a4 @ [fresh e5 (ip 143 195 0 2)]"
  obtain e6 g6 where 6: "add_router_interface rd (ip 128 30 76 255) (?r ?a5) g5 = (6, ?r (?a5 @ [fresh e6 (ip 128 30 76 255)]), g6)" "ok_address e6"
    using add_router_interface_ok [of rd "ip 128 30 76 255" "?r ?a5" g5] by (auto simp: eval_nat_numeral)
  obtain f1 f2 f3 f4 f5 f6 k where h: "list_all ok_address [f1, f2, f3, f4, f5, f6]" "insert_hosts rd g6 = (fresh_hosts f1 f2 f3 f4 f5 f6, k)"
    using insert_hosts_ok [of rd g6] by blast
  show ?thesis
    unfolding Network_new_def 0(1) 1(1) 2(1) 3(1) 4(1) 5(1) 6(1) prod.case Let_def
    unfolding case_prod_beta prod.collapse insert_hosts_def [symmetric] h(2)
    by (rule exI [of _ e0], rule exI [of _ e1], rule exI [of _ e2], rule exI [of _ e3], rule exI [of _ e4], rule exI [of _ e5], rule exI [of _ e6],
        rule exI [of _ f1], rule exI [of _ f2], rule exI [of _ f3], rule exI [of _ f4], rule exI [of _ f5], rule exI [of _ f6], rule exI [of _ k])
      (use h(1) in \<open>simp add: host_def fresh_hosts_def fresh_host_def add_route_def routing_table_def 0(2) 1(2) 2(2) 3(2) 4(2) 5(2) 6(2)\<close>)
qed

lemma all_ports:
  "(\<forall>p\<in>ports. P p) \<longleftrightarrow> list_all P (map RouterPort [0, 1, 2, 3, 4, 5, 6]) \<and> list_all (\<lambda>x. P (HostPort x)) host_names"
proof -
  have "{..<7} = {0, 1, 2, 3, 4, 5, 6 :: nat}" by auto
  then show ?thesis unfolding ports_def by (auto simp: list_all_iff)
qed

lemma Network_new_ready:
  "\<exists>nw g'. Network_new rd g = Inr (nw, g') \<and> ready (eth_at nw) nw \<and> (\<forall>p\<in>ports. ok_address (eth_at nw p))"
proof -
  obtain e0 e1 e2 e3 e4 e5 e6 f1 f2 f3 f4 f5 f6 g' nw where ok: "list_all ok_address [e0, e1, e2, e3, e4, e5, e6, f1, f2, f3, f4, f5, f6]"
    and new: "Network_new rd g = Inr (nw, g')"
    and nw: "nw = \<lparr>nw_router = \<lparr>ro_interfaces = [fresh e0 (ip 171 67 76 46), fresh e1 (ip 10 0 0 1), fresh e2 (ip 172 16 0 1),
        fresh e3 (ip 192 168 0 1), fresh e4 (ip 198 178 229 1), fresh e5 (ip 143 195 0 2), fresh e6 (ip 128 30 76 255)], ro_routes = routing_table\<rparr>,
      nw_default_id = 0, nw_eth0_id = 1, nw_eth1_id = 2, nw_eth2_id = 3, nw_uun3_id = 4, nw_hs4_id = 5, nw_mit5_id = 6,
      nw_hosts = fresh_hosts f1 f2 f3 f4 f5 f6\<rparr>"
    using Network_new_fresh [of rd g] by blast
  have at: "\<forall>p\<in>ports. \<exists>e. port_at nw p = fresh e (port_ip p) \<and> ok_address e"
    unfolding all_ports using ok by (simp add: nw host_links_def fresh_hosts_def fresh_host_def port_ip.simps) blast
  have calm: "calm_at (eth_at nw) nw p \<and> out_frames (port_at nw p) = [] \<and> inbox_at nw p = [] \<and> ok_address (eth_at nw p)" if p: "p \<in> ports" for p
  proof -
    obtain e where e: "port_at nw p = fresh e (port_ip p)" "ok_address e" using at p by blast
    have "eth_at nw p = e" unfolding eth_at_def e(1) by (simp add: fresh_def AsyncNetworkInterface_of_def NetworkInterface_new_def)
    with e(2) fresh_calm(1-3) [of e "eth_at nw" p] show ?thesis unfolding e(1) by simp
  qed
  have shape: "nw_shape nw" by (auto simp: nw nw_shape_def host_links_def fresh_hosts_def fresh_host_def)
  have "unrouted nw" using calm unfolding unrouted_def by (simp del: port_at.simps)
  moreover have "ho_expecting_to_receive h = [] \<and> ai_datagrams_out (ho_interface h) = [] \<and> ho_my_address h = address (port_ip (HostPort x)) \<and>
    (x \<in> senders \<longrightarrow> ad_ip (ho_next_hop h) = port_ip (RouterPort (link (HostPort x))))" if "nw_hosts nw x = Some h" for x h
    using that by (auto simp: nw fresh_hosts_def fresh_host_def fresh_def AsyncNetworkInterface_of_def port_ip.simps senders_def host_links_def address_def split: if_splits)
  ultimately have "ready (eth_at nw) nw" using calm shape by (simp add: ready_def at_rest_def silent_def nw del: port_at.simps)
  with new calm show ?thesis by blast
qed

lemma three_on_a_link:
  assumes "p \<in> ports" "q \<in> ports" "r \<in> ports" "link p = link q" "link q = link r" "p \<noteq> q" "q \<noteq> r" "p \<noteq> r"
  shows "{p, q, r} = {RouterPort 4, HostPort ''dm42'', HostPort ''dm43''}"
proof -
  have alone: "x = RouterPort (link x)" if "x \<in> ports" "link x \<notin> {0, 1, 3, 4, 5}" for x
    using that by (cases x) (auto simp: host_links_def)
  have two: False if "link p = N" and m: "\<And>x. x \<in> ports \<and> link x = N \<longleftrightarrow> x = a \<or> x = b" for N a b
  proof -
    have "p = a \<or> p = b" "q = a \<or> q = b" "r = a \<or> r = b" using m [of p] m [of q] m [of r] assms(1-5) that(1) by argo+
    then show False using assms(6-8) by blast
  qed
  have "link p = 4"
  proof (rule ccontr)
    assume "link p \<noteq> 4"
    then consider "link p = 0" | "link p = 1" | "link p = 3" | "link p = 5" | "link p \<notin> {0, 1, 3, 4, 5}" by auto
    then show False
    proof cases
      case 5
      then show False using alone [OF assms(1)] alone [OF assms(2)] assms(4,6) by simp
    qed (erule two, rule link_members)+
  qed
  then have "p \<in> {RouterPort 4, HostPort ''dm42'', HostPort ''dm43''}" "q \<in> {RouterPort 4, HostPort ''dm42'', HostPort ''dm43''}"
    "r \<in> {RouterPort 4, HostPort ''dm42'', HostPort ''dm43''}" using assms(1-5) link_members(5) by auto
  with assms(6-8) show ?thesis by auto
qed

lemma private_at:
  assumes "\<forall>p\<in>ports. ok_address (E p)" "distinct [E (RouterPort 4), E (HostPort ''dm42''), E (HostPort ''dm43'')]"
  shows "private_addresses E"
  unfolding private_addresses_def
proof (intro conjI ballI impI)
  fix p q r assume p: "p \<in> ports" "q \<in> ports" "r \<in> ports" "link p = link q \<and> link q = link r \<and> p \<noteq> q \<and> q \<noteq> r \<and> p \<noteq> r"
  then have s: "{p, q, r} = {RouterPort 4, HostPort ''dm42'', HostPort ''dm43''}" by (intro three_on_a_link) blast+
  have "p \<in> {RouterPort 4, HostPort ''dm42'', HostPort ''dm43''}" "r \<in> {RouterPort 4, HostPort ''dm42'', HostPort ''dm43''}" using s by blast+
  with p(4) assms(2) show "E p \<noteq> E r" by auto
  show "E p \<noteq> ETHERNET_BROADCAST" using assms(1) p(1) by (auto simp: ok_address_def)
qed (use assms(1) in \<open>auto simp: ok_address_def\<close>)

section \<open>The run\<close>

text \<open>The routes of the eight destinations of the run.\<close>

lemma destinations:
  "longest_route routing_table (ip 192 168 0 2) = Some (routing_table ! 3)" "longest_route routing_table (ip 10 0 0 2) = Some (routing_table ! 1)"
  "longest_route routing_table (ip 1 2 3 4) = Some (routing_table ! 0)" "longest_route routing_table (ip 143 195 131 17) = Some (routing_table ! 6)"
  "longest_route routing_table (ip 143 195 193 52) = Some (routing_table ! 7)" "longest_route routing_table (ip 143 195 223 255) = Some (routing_table ! 7)"
  "longest_route routing_table (ip 143 195 224 0) = Some (routing_table ! 0)" "longest_route routing_table (ip 198 178 229 43) = Some (routing_table ! 4)"
  by (simp_all add: longest_route_def routing_table_def covers_def high_bits_def ip_def)

lemma table_entries:
  "rt_interface_num (routing_table ! 0) = 0" "rt_interface_num (routing_table ! 1) = 1" "rt_interface_num (routing_table ! 3) = 3"
  "rt_interface_num (routing_table ! 4) = 4" "rt_interface_num (routing_table ! 6) = 5" "rt_interface_num (routing_table ! 7) = 5"
  "rt_next_hop (routing_table ! 0) = Some (address (ip 171 67 76 1))" "rt_next_hop (routing_table ! 1) = None" "rt_next_hop (routing_table ! 3) = None"
  "rt_next_hop (routing_table ! 4) = None" "rt_next_hop (routing_table ! 6) = Some (address (ip 143 195 0 1))"
  "rt_next_hop (routing_table ! 7) = Some (address (ip 143 195 0 1))"
  by (simp_all add: routing_table_def)

lemma ad_ip_address [simp]: "ad_ip (address n) = n"
  by (simp add: address_def)

lemma host_facts:
  "''applesauce'' \<in> senders" "''cherrypie'' \<in> senders" "''dm42'' \<in> senders"
  "attached (HostPort ''applesauce'')" "attached (HostPort ''cherrypie'')" "attached (HostPort ''default_router'')" "attached (HostPort ''hs_router'')"
  "attached (HostPort ''dm43'')"
  "link (HostPort ''applesauce'') = 1" "link (HostPort ''cherrypie'') = 3" "link (HostPort ''default_router'') = 0" "link (HostPort ''hs_router'') = 5"
  "link (HostPort ''dm43'') = 4"
  "port_ip (HostPort ''applesauce'') = ip 10 0 0 2" "port_ip (HostPort ''cherrypie'') = ip 192 168 0 2" "port_ip (HostPort ''default_router'') = ip 171 67 76 1"
  "port_ip (HostPort ''hs_router'') = ip 143 195 0 1" "port_ip (HostPort ''dm43'') = ip 198 178 229 43"
  by (simp_all add: senders_def attached_def host_links_def port_ip.simps)

lemma test_hosts_ok:
  assumes E: "private_addresses E" and z: "zero_shift undef" and order: "distinct order" "set order = set host_names"
    and nw: "ready E nw" and a: "a \<in> senders" and b: "attached (HostPort b)"
    and rt: "longest_route routing_table (port_ip (HostPort b)) = Some rt" "rt_interface_num rt = link (HostPort b)" "rt_next_hop rt = None"
  shows "\<exists>nw' g'. test_hosts undef rd order a b (nw, g) = Inr (nw', g') \<and> ready E nw'"
proof -
  have "nw_shape nw" "HostPort b \<in> ports" using nw b by (simp_all add: ready_def at_rest_def attached_def)
  from shape_host [OF this] obtain h where h: "nw_hosts nw b = Some h" "host nw b = Inr h" by blast
  then have "ho_my_address h = address (port_ip (HostPort b))" using nw unfolding ready_def by blast
  then have ip: "ad_ip (ho_my_address h) = port_ip (HostPort b)" by (simp add: address_def)
  obtain nw' g' where "test_delivery undef rd order a (ho_my_address h) b (nw, g) = Inr (nw', g')" "ready E nw'"
    using test_delivery_ok [OF E z order nw a b, of "ho_my_address h" rt] rt ip by (metis option.case(1))
  then show ?thesis using h(2) by (simp add: test_hosts_def)
qed

text \<open>C10. The run of \<open>network_simulator\<close> succeeds: for every generator of random numbers that gives the three members of the one shared link different
  hardware addresses, every order in which the hosts are checked, and every machine on which zero shifted is zero, no exception is
  thrown and no assertion fails. Each of the eight datagrams sent is received, once, one hop older, by the host that the test names, after
  address resolution on both links; the two whose time to live is up are received by nobody; and at the end nobody expects or holds a datagram.\<close>

theorem network_simulator_succeeds:
  assumes "zero_shift undef" "distinct order" "set order = set host_names" "Network_new rd g = Inr (nw, g1)"
    "distinct [eth_at nw (RouterPort 4), eth_at nw (HostPort ''dm42''), eth_at nw (HostPort ''dm43'')]"
  shows "\<exists>nw' g'. network_simulator undef rd order g = Inr (nw', g') \<and>
    (\<forall>name h. nw_hosts nw' name = Some h \<longrightarrow> ho_expecting_to_receive h = [] \<and> ai_datagrams_out (ho_interface h) = [])"
proof -
  define E where "E = eth_at nw"
  have start: "ready E nw" and "\<forall>p\<in>ports. ok_address (E p)" using Network_new_ready [of rd g] assms(4) unfolding E_def by auto
  then have E: "private_addresses E" using private_at assms(5) unfolding E_def by blast
  note delivery = test_delivery_ok [OF E assms(1-3)] and hosts = test_hosts_ok [OF E assms(1-3)] and expiry = test_expiry_ok [OF E assms(1-3)]
  note calc = host_facts table_entries destinations
  obtain nw1 h1 where 1: "test_hosts undef rd order ''applesauce'' ''cherrypie'' (nw, g1) = Inr (nw1, h1)" "ready E nw1"
    using hosts [OF start, of "''applesauce''" "''cherrypie''" "routing_table ! 3" rd g1] by (auto simp: calc simp del: link.simps One_nat_def)
  obtain nw2 h2 where 2: "test_hosts undef rd order ''cherrypie'' ''applesauce'' (nw1, h1) = Inr (nw2, h2)" "ready E nw2"
    using hosts [OF 1(2), of "''cherrypie''" "''applesauce''" "routing_table ! 1" rd h1] by (auto simp: calc simp del: link.simps One_nat_def)
  obtain nw3 h3 where 3: "test_delivery undef rd order ''applesauce'' (address (ip 1 2 3 4)) ''default_router'' (nw2, h2) = Inr (nw3, h3)" "ready E nw3"
    using delivery [OF 2(2), of "''applesauce''" "''default_router''" "address (ip 1 2 3 4)" "routing_table ! 0" rd h2] by (auto simp: calc simp del: link.simps One_nat_def)
  obtain nw4 h4 where 4: "test_delivery undef rd order ''applesauce'' (address (ip 143 195 131 17)) ''hs_router'' (nw3, h3) = Inr (nw4, h4)" "ready E nw4"
    using delivery [OF 3(2), of "''applesauce''" "''hs_router''" "address (ip 143 195 131 17)" "routing_table ! 6" rd h3] by (auto simp: calc simp del: link.simps One_nat_def)
  obtain nw5 h5 where 5: "test_delivery undef rd order ''cherrypie'' (address (ip 143 195 193 52)) ''hs_router'' (nw4, h4) = Inr (nw5, h5)" "ready E nw5"
    using delivery [OF 4(2), of "''cherrypie''" "''hs_router''" "address (ip 143 195 193 52)" "routing_table ! 7" rd h4] by (auto simp: calc simp del: link.simps One_nat_def)
  obtain nw6 h6 where 6: "test_delivery undef rd order ''cherrypie'' (address (ip 143 195 223 255)) ''hs_router'' (nw5, h5) = Inr (nw6, h6)" "ready E nw6"
    using delivery [OF 5(2), of "''cherrypie''" "''hs_router''" "address (ip 143 195 223 255)" "routing_table ! 7" rd h5] by (auto simp: calc simp del: link.simps One_nat_def)
  obtain nw7 h7 where 7: "test_delivery undef rd order ''cherrypie'' (address (ip 143 195 224 0)) ''default_router'' (nw6, h6) = Inr (nw7, h7)" "ready E nw7"
    using delivery [OF 6(2), of "''cherrypie''" "''default_router''" "address (ip 143 195 224 0)" "routing_table ! 0" rd h6] by (auto simp: calc simp del: link.simps One_nat_def)
  obtain nw8 h8 where 8: "test_hosts undef rd order ''dm42'' ''dm43'' (nw7, h7) = Inr (nw8, h8)" "ready E nw8"
    using hosts [OF 7(2), of "''dm42''" "''dm43''" "routing_table ! 4" rd h7] by (auto simp: calc simp del: link.simps One_nat_def)
  obtain nw9 h9 where 9: "test_expiry undef rd order ''applesauce'' (address (ip 1 2 3 4)) 1 (nw8, h8) = Inr (nw9, h9)" "ready E nw9"
    using expiry [OF 8(2), of "''applesauce''" 1 rd "address (ip 1 2 3 4)" h8] by (auto simp: senders_def)
  obtain nw10 h10 where 10: "test_expiry undef rd order ''applesauce'' (address (ip 1 2 3 4)) 0 (nw9, h9) = Inr (nw10, h10)" "ready E nw10"
    using expiry [OF 9(2), of "''applesauce''" 0 rd "address (ip 1 2 3 4)" h9] by (auto simp: senders_def)
  have "network_simulator undef rd order g = Inr (nw10, h10)"
    unfolding network_simulator_def assms(4) and_then.simps 1(1) 2(1) 3(1) 4(1) 5(1) 6(1) 7(1) 8(1) 9(1) 10(1) ..
  with 10(2) show ?thesis unfolding ready_def by blast
qed

definition counter :: "nat generator" where
  "counter g = (word_of_nat g, Suc g)"

definition counter_byte :: "nat \<Rightarrow> 8 word" where
  "counter_byte n = ucast (word_of_nat n :: 32 word)"

lemma counter_bytes:
  "random_address_bytes counter 6 g = ([counter_byte g, counter_byte (g + 1), counter_byte (g + 2), counter_byte (g + 3), counter_byte (g + 4), counter_byte (g + 5)], g + 6)"
  by (simp add: eval_nat_numeral counter_def counter_byte_def del: of_nat_Suc)

lemma counter_interface:
  "add_router_interface counter n r g =
     (length (ro_interfaces r), r\<lparr>ro_interfaces := ro_interfaces r @ [fresh [2, 0, 0, counter_byte (g + 3), counter_byte (g + 4), counter_byte (g + 5)] n]\<rparr>, g + 6)"
  by (simp add: add_router_interface_def random_router_ethernet_address_def counter_bytes add_interface_def fresh_def Let_def)

lemma counter_host:
  "insert_host counter name n hop (hosts, g) =
     (case hosts name of None \<Rightarrow> hosts(name \<mapsto> fresh_host name n hop [(counter_byte g OR 2) AND 0xfe, counter_byte (g + 1), counter_byte (g + 2),
        counter_byte (g + 3), counter_byte (g + 4), counter_byte (g + 5)]) | Some _ \<Rightarrow> hosts, g + 6)"
  by (cases "hosts name") (simp_all add: insert_host_def Host_new_def random_host_ethernet_address_def counter_bytes fresh_host_def fresh_def Let_def)

lemma counter_addresses:
  "case Network_new counter 0 of Inl e \<Rightarrow> False
   | Inr (nw, g) \<Rightarrow> distinct [eth_at nw (RouterPort 4), eth_at nw (HostPort ''dm42''), eth_at nw (HostPort ''dm43'')]"
  by (simp add: Network_new_def counter_interface counter_host host_def fresh_host_def add_route_def eth_at_def fresh_calm(4))
    (simp add: fresh_def AsyncNetworkInterface_of_def NetworkInterface_new_def counter_byte_def)

theorem network_simulator_succeeds_witness:
  "\<exists>nw g. network_simulator (\<lambda>w n. w) counter host_names 0 = Inr (nw, g) \<and>
    (\<forall>name h. nw_hosts nw name = Some h \<longrightarrow> ho_expecting_to_receive h = [] \<and> ai_datagrams_out (ho_interface h) = [])"
proof -
  obtain nw g where nw: "Network_new counter 0 = Inr (nw, g)"
    "distinct [eth_at nw (RouterPort 4), eth_at nw (HostPort ''dm42''), eth_at nw (HostPort ''dm43'')]"
    using counter_addresses by (auto split: sum.splits)
  have "zero_shift (\<lambda>w n. w)" "distinct host_names" by (simp_all add: zero_shift_def host_links_def)
  from network_simulator_succeeds [OF this refl nw] show ?thesis .
qed

end
