(* ===== verification/Spec2Isabelle.thy ===== *)
theory Spec2Isabelle
  imports Reliable_Transfer Conversation Stream_Copy Socket_Limits Simulated_Network
begin

text \<open>
  A verification development of the TCP/IP stack under \<open>src/libsponge\<close> and of \<open>bidirectional_stream_copy.cc\<close> and
  \<open>network_simulator.cc\<close> under \<open>src/apps\<close>.

  \<^bold>\<open>The program.\<close> A byte stream over a ring buffer (\<open>byte_stream\<close>) is what an application writes to and reads from. A
  \<open>TCPSender\<close> cuts its outgoing stream into segments and retransmits them, a \<open>TCPReceiver\<close> turns sequence numbers into stream indices
  (\<open>wrapping_integers\<close>) and gives the pieces to a \<open>StreamReassembler\<close>; a \<open>TCPConnection\<close> owns one of each and is the state machine
  of one end. Segments, IP datagrams, Ethernet frames and ARP messages are serialized and parsed by the classes of \<open>tcp_helpers\<close>, over the
  buffers, the parser and the checksum of \<open>util\<close>. A \<open>NetworkInterface\<close> puts datagrams into frames and resolves addresses, a
  \<open>Router\<close> moves datagrams between interfaces. Adapters join a connection to a UDP socket, a TUN device or an Ethernet device, and
  \<open>TCPSpongeSocket\<close> runs connection, adapter and the owner's end of a socket pair in one event loop.

  \<^bold>\<open>Conventions.\<close> An assertion that fails, an exception, an access out of range and a division by zero are values of type \<open>fault\<close>; an
  operation that can fault returns \<open>fault + 'a\<close> and the steps of its body are chained with \<open>and_then\<close>. Operations on objects take
  the object and return it changed. A field \<open>x_\<close> of a class becomes a record field with the prefix of the class. Bytes are 8-bit words,
  sequence numbers and header fields are words of their width, \<open>size_t\<close> and \<open>uint64_t\<close> are naturals with the wrap-around written out
  (\<open>add64\<close>, \<open>sub64\<close>). Queues and vectors are lists, hash maps are maps. The theory \<open>Prelude\<close> holds these conventions and the lemmas
  about them: \<open>yields r P\<close> says that an operation returns and the result satisfies \<open>P\<close>; \<open>returns r P\<close> (in \<open>Connection_Streams\<close>) only speaks of results that are
  returned and is used where the environment may make the code fail.

  \<^bold>\<open>Streams.\<close> \<open>Wrapping_Integers\<close> (\<open>wrap\<close>, \<open>unwrap\<close>: \<open>unwrap\<close> gives the closest preimage of the sequence number). \<open>Ring_Buffer\<close>,
  \<open>Byte_Stream\<close> (\<open>RingBuffer\<close> over its memory block, \<open>ByteStream\<close> over it: every history of calls answers as a bounded list does).
  \<open>Stream_Reassembler\<close> has the operations and loops of the class, \<open>Reassembly\<close> the proofs: whatever the order and overlap of the
  substrings, the output is a prefix of the stream, and all of it when they cover it.

  \<^bold>\<open>TCP.\<close> \<open>TCP_Receiver\<close> (the receiver; \<open>Peer_Stream\<close> says what segments of a stream \<open>P\<close> are), \<open>TCP_Sender\<close> and its proofs
  \<open>Sending\<close>, \<open>Reliable_Transfer\<close> (one sender, one receiver and a network that loses, repeats and reorders). \<open>TCP_Connection\<close> and
  \<open>TCP_State\<close> have the connection and its summaries, \<open>Endpoint\<close> the invariant over every history of calls and genuine segments, and
  \<open>Conversation\<close> joins two connections. \<open>Connection_Streams\<close> says what survives segments that are not genuine.

  \<^bold>\<open>Wire formats.\<close> \<open>Buffers\<close>, \<open>Net_Parser\<close>, \<open>Checksum\<close>, then \<open>TCP_Segment\<close>, \<open>IPv4\<close>, \<open>Ethernet\<close> and \<open>TCP_Over_IP\<close>: round trips
  from record to bytes and back, parsers that throw on no input, and the checksum against its reference.

  \<^bold>\<open>Networks.\<close> \<open>Network_Interface\<close> with its proofs \<open>Address_Resolution\<close> (no datagram is lost or sent twice; request, reply and
  release), \<open>Router\<close> with its proofs \<open>Routing\<close> (longest prefix match, every waiting datagram is forwarded or dropped rightly). What a shift by
  32 gives is undefined in the language and an argument of the router. \<open>Network_Simulator\<close> has the hosts, the links and the run of the program of that name, and
  \<open>Simulated_Network\<close> shows that the run succeeds: the ports of the network are either at rest or in one of the phases of a hop (request, reply,
  data), a hop takes at most three rounds, and the 256 rounds of a test are enough for the two hops of a datagram.

  \<^bold>\<open>The kernel.\<close> System calls are a parameter: the record \<open>'k kernel\<close> of \<open>File_Descriptor\<close> has one function per call the code makes,
  on a state of arbitrary type \<open>'k\<close>, and returns result, \<open>errno\<close> and data. \<open>File_Descriptor\<close>, \<open>Sockets\<close> (with the TUN devices),
  \<open>Adapters\<close> (UDP, TUN, Ethernet, lossy) and \<open>Event_Loop\<close> are the classes over it. Where a theorem needs more of the kernel than the types say, the
  hypothesis is named in it (\<open>takes_prefix\<close>: \<open>writev\<close> on a stream accepts a non-empty prefix). \<open>Segment_Transport\<close> carries a segment from
  adapter to adapter. \<open>Kernel_Log\<close> wraps a kernel and an adapter so that they record the bytes and segments that pass; the
  properties of the loops speak about this record.

  \<^bold>\<open>Loops of the owner.\<close> \<open>Stream_Copy\<close> is \<open>bidirectional_stream_copy\<close>; \<open>Sponge_Socket\<close> is \<open>TCPSpongeSocket\<close>: the four rules, the loop, \<open>connect\<close>,
  \<open>listen_and_accept\<close>, the thread's main function and the two sockets built on it. \<open>Socket_Glue\<close> shows that every run of a socket is a
  history of events of its connection, so that the theorems of \<open>Endpoint\<close> apply to it: bytes of the owner enter in order, and the owner
  gets a prefix of the peer's stream. \<open>Socket_Limits\<close> has what the socket promises and does not keep.

  \<^bold>\<open>Interfaces.\<close> Locales state what one part relies on: \<open>sequence_space\<close>, \<open>bounded_store\<close>, \<open>prefix_string\<close>, \<open>field_codec\<close> for the data
  types, \<open>safe_machine\<close> and \<open>simulation\<close> for histories of calls, \<open>fd_adapter\<close> for what the event loop needs of an adapter,
  \<open>rule_invariant\<close> and \<open>reactive_rules\<close> for what a turn of the event loop keeps. Each is interpreted on the definitions of the code.

  \<^bold>\<open>Bounds and fuel.\<close> Streams are shorter than \<open>2 ^ 63\<close> bytes (\<open>two63\<close>) where absolute sequence numbers must not wrap. The loops of
  \<open>FileDescriptor::write\<close> (\<open>write_loop\<close>), \<open>TCPSender::fill_window\<close> (\<open>fill_loop\<close>) and \<open>InternetChecksum::value\<close> (\<open>fold_sum\<close>) are shown to terminate, for
  every kernel and every state; the other loops are structural recursions over what they go through. Two loops run until the world ends them
  and are bounded by an argument: the number of turns of \<open>copy_loop\<close>, and the list of the values the abort flag has after each turn of
  \<open>tcp_loop\<close>. Their properties hold for every bound, so for every prefix of a run.

  \<^bold>\<open>Not modelled.\<close> Threads: the owner of a \<open>TCPSpongeSocket\<close> and the thread of its connection meet only in the socket pair, which is the
  kernel's, and in the abort flag, which is an argument; the destructor, starting and joining the thread are left out. Name resolution
  (\<open>address.cc\<close> calls \<open>getaddrinfo\<close> and \<open>getnameinfo\<close>): an \<open>Address\<close> is an IPv4 address and a port. The seeding of random generators: a random number is an argument or a
  call of the kernel. Printing (\<open>hexdump\<close>, \<open>to_string\<close> and \<open>summary\<close> of the headers, debug lines), which no computation reads. The main functions
  of the programs under \<open>src/apps\<close> and \<open>src/doctests\<close>, which read a command line and call the classes above, and the programs that print packets or
  measure time. The tests.
\<close>

end
